(* ===== verification/GP_Prelude.thy ===== *)
theory GP_Prelude
  imports Main "HOL-Library.Word" "HOL-Library.Multiset"
begin

text \<open>
  Shared vocabulary of the development.

  \<^item> The C loops of the modelled code come in two shapes.  A loop
    \<^verbatim>\<open>for (i = lo; i < hi; i++) s = body(i, s);\<close> is \<open>for_range\<close>; a loop
    \<^verbatim>\<open>for (i = lo; i < hi; i++) if (c(i)) return v(i);\<close> is \<open>for_return\<close>, whose
    result \<open>None\<close> says that the loop ran to its end.
  \<^item> Fallible code returns a value of \<open>'e + 'a\<close>: \<open>Inl\<close> is the error that
    \<^verbatim>\<open>elog(ERROR, ...)\<close> or \<^verbatim>\<open>ereport(ERROR, ...)\<close> raises, \<open>Inr\<close> the result.
    \<open>result_bind\<close> sequences such steps, and the collection \<open>result_iff\<close> inverts them.
  \<^item> Lemmas on in-place updates of arrays (lists), on bits of machine words and on counting.
\<close>

unbundle bit_operations_syntax

named_theorems result_iff \<open>inversion rules for results of fallible code\<close>


subsection \<open>Loops over an index range\<close>

definition for_range :: "nat \<Rightarrow> nat \<Rightarrow> (nat \<Rightarrow> 's \<Rightarrow> 's) \<Rightarrow> 's \<Rightarrow> 's" where
  "for_range lo hi body s = fold body [lo..<hi] s"

fun first_some :: "('a \<Rightarrow> 'r option) \<Rightarrow> 'a list \<Rightarrow> 'r option" where
  "first_some f [] = None"
| "first_some f (x # xs) = (case f x of Some r \<Rightarrow> Some r | None \<Rightarrow> first_some f xs)"

definition for_return :: "nat \<Rightarrow> nat \<Rightarrow> (nat \<Rightarrow> 'r option) \<Rightarrow> 'r option" where
  "for_return lo hi body = first_some body [lo..<hi]"

lemma for_range_empty [simp]: "hi \<le> lo \<Longrightarrow> for_range lo hi f s = s"
  by (simp add: for_range_def)

lemma for_range_Suc: "lo \<le> hi \<Longrightarrow> for_range lo (Suc hi) f s = f hi (for_range lo hi f s)"
  by (simp add: for_range_def)

lemma first_some_None_iff: "first_some f xs = None \<longleftrightarrow> (\<forall>x\<in>set xs. f x = None)"
  by (induction xs) (auto split: option.splits)

lemma first_some_Some_iff:
  "first_some f xs = Some r \<longleftrightarrow>
     (\<exists>i<length xs. f (xs ! i) = Some r \<and> (\<forall>j<i. f (xs ! j) = None))"
proof (induction xs)
  case Nil
  then show ?case by simp
next
  case (Cons x xs)
  show ?case
  proof (cases "f x")
    case None
    then show ?thesis
      by (simp add: Cons.IH Ex_less_Suc2 All_less_Suc2)
  next
    case (Some y)
    then show ?thesis
      by (auto simp: Ex_less_Suc2 All_less_Suc2)
  qed
qed

lemma for_return_None_iff:
  "for_return lo hi f = None \<longleftrightarrow> (\<forall>i. lo \<le> i \<and> i < hi \<longrightarrow> f i = None)"
  by (auto simp: for_return_def first_some_None_iff)

lemma for_return_Some_iff:
  "for_return lo hi f = Some r \<longleftrightarrow>
     (\<exists>i. lo \<le> i \<and> i < hi \<and> f i = Some r \<and> (\<forall>j. lo \<le> j \<and> j < i \<longrightarrow> f j = None))"
proof
  assume "for_return lo hi f = Some r"
  then obtain k where k: "k < hi - lo" "f ([lo..<hi] ! k) = Some r"
      "\<forall>j<k. f ([lo..<hi] ! j) = None"
    by (auto simp: for_return_def first_some_Some_iff)
  have "f j = None" if "lo \<le> j" "j < lo + k" for j
    using k(1) k(3) [rule_format, of "j - lo"] that by simp
  then show "\<exists>i. lo \<le> i \<and> i < hi \<and> f i = Some r \<and> (\<forall>j. lo \<le> j \<and> j < i \<longrightarrow> f j = None)"
    using k by (intro exI [of _ "lo + k"]) auto
next
  assume "\<exists>i. lo \<le> i \<and> i < hi \<and> f i = Some r \<and> (\<forall>j. lo \<le> j \<and> j < i \<longrightarrow> f j = None)"
  then obtain i where "lo \<le> i" "i < hi" "f i = Some r" "\<forall>j. lo \<le> j \<and> j < i \<longrightarrow> f j = None"
    by blast
  then show "for_return lo hi f = Some r"
    by (auto simp: for_return_def first_some_Some_iff intro!: exI [of _ "i - lo"])
qed

text \<open>A loop whose body returns one fixed value is a bounded search.\<close>

lemma for_return_const:
  "for_return lo hi (\<lambda>i. if c i then Some v else None) =
     (if \<exists>i. lo \<le> i \<and> i < hi \<and> c i then Some v else None)"
proof (cases "for_return lo hi (\<lambda>i. if c i then Some v else None)")
  case None
  then show ?thesis
    by (auto simp: for_return_None_iff)
next
  case (Some r)
  then show ?thesis
    by (auto simp: for_return_Some_iff split: if_splits)
qed

lemma for_return_False:
  "(case for_return lo hi (\<lambda>i. if c i then Some False else None) of Some r \<Rightarrow> r | None \<Rightarrow> e) \<longleftrightarrow>
     (\<forall>i. lo \<le> i \<and> i < hi \<longrightarrow> \<not> c i) \<and> e"
  by (auto simp: for_return_const)

lemma for_return_True:
  "(case for_return lo hi (\<lambda>i. if c i then Some True else None) of Some r \<Rightarrow> r | None \<Rightarrow> e) \<longleftrightarrow>
     (\<exists>i. lo \<le> i \<and> i < hi \<and> c i) \<or> e"
  by (auto simp: for_return_const)

lemma for_range_induct [consumes 1, case_names init step]:
  assumes "lo \<le> hi"
    and "P lo s"
    and "\<And>i t. lo \<le> i \<Longrightarrow> i < hi \<Longrightarrow> P i t \<Longrightarrow> P (Suc i) (f i t)"
  shows "P hi (for_range lo hi f s)"
proof -
  have "\<lbrakk>lo \<le> hi; \<And>i t. lo \<le> i \<Longrightarrow> i < hi \<Longrightarrow> P i t \<Longrightarrow> P (Suc i) (f i t)\<rbrakk>
      \<Longrightarrow> P hi (for_range lo hi f s)"
  proof (induction hi)
    case 0
    with \<open>P lo s\<close> show ?case by simp
  next
    case (Suc hi)
    show ?case
    proof (cases "lo = Suc hi")
      case True
      with \<open>P lo s\<close> show ?thesis by simp
    next
      case False
      then have "lo \<le> hi" using Suc.prems by simp
      then have "P hi (for_range lo hi f s)"
        using Suc by (meson less_SucI)
      then show ?thesis
        using Suc.prems \<open>lo \<le> hi\<close> by (simp add: for_range_Suc)
    qed
  qed
  then show ?thesis using assms by blast
qed


subsection \<open>In-place updates of an array\<close>

definition update_words :: "nat \<Rightarrow> nat \<Rightarrow> (nat \<Rightarrow> 'a \<Rightarrow> 'a) \<Rightarrow> 'a list \<Rightarrow> 'a list" where
  "update_words lo hi g xs = for_range lo hi (\<lambda>i ws. ws[i := g i (ws ! i)]) xs"

lemma update_words_spec:
  assumes "lo \<le> hi"
  shows "length (update_words lo hi g xs) = length xs \<and>
    (\<forall>j<length xs. update_words lo hi g xs ! j =
       (if lo \<le> j \<and> j < hi then g j (xs ! j) else xs ! j))"
  unfolding update_words_def using assms
proof (induction rule: for_range_induct)
  case init
  then show ?case by auto
next
  case (step i t)
  then show ?case
    by (auto simp: nth_list_update less_Suc_eq)
qed

lemma update_words_empty [simp]: "hi \<le> lo \<Longrightarrow> update_words lo hi g xs = xs"
  by (simp add: update_words_def)

lemma length_update_words [simp]: "length (update_words lo hi g xs) = length xs"
  by (cases "lo \<le> hi") (simp_all add: update_words_spec)

lemma nth_update_words:
  "j < length xs \<Longrightarrow> update_words lo hi g xs ! j =
     (if lo \<le> j \<and> j < hi then g j (xs ! j) else xs ! j)"
  by (cases "lo \<le> hi") (auto simp: update_words_spec)


subsection \<open>Results of fallible code\<close>

definition result_bind :: "'e + 'a \<Rightarrow> ('a \<Rightarrow> 'e + 'b) \<Rightarrow> 'e + 'b" where
  "result_bind m f = (case m of Inl e \<Rightarrow> Inl e | Inr x \<Rightarrow> f x)"

lemma result_bind_simps [simp]:
  "result_bind (Inl e) f = Inl e"
  "result_bind (Inr x) f = f x"
  by (simp_all add: result_bind_def)

lemma result_bind_Inr_iff [result_iff]:
  "result_bind m f = Inr y \<longleftrightarrow> (\<exists>x. m = Inr x \<and> f x = Inr y)"
  by (cases m) auto

lemma result_bind_Inl_iff [result_iff]:
  "result_bind m f = Inl e \<longleftrightarrow> m = Inl e \<or> (\<exists>x. m = Inr x \<and> f x = Inl e)"
  by (cases m) auto

text \<open>
  A loop over an index range whose body may leave the function, with an error or an early
  \<^verbatim>\<open>return\<close> (\<open>Inl\<close>), or go on with a new state (\<open>Inr\<close>).
\<close>

definition for_result :: "nat \<Rightarrow> nat \<Rightarrow> (nat \<Rightarrow> 's \<Rightarrow> 'e + 's) \<Rightarrow> 's \<Rightarrow> 'e + 's" where
  "for_result lo hi body s = fold (\<lambda>i r. result_bind r (body i)) [lo..<hi] (Inr s)"

lemma for_result_empty [simp]: "hi \<le> lo \<Longrightarrow> for_result lo hi f s = Inr s"
  by (simp add: for_result_def)

lemma for_result_Suc:
  "lo \<le> hi \<Longrightarrow> for_result lo (Suc hi) f s = result_bind (for_result lo hi f s) (f hi)"
  by (simp add: for_result_def)


subsection \<open>Counting and enumerating\<close>

lemma int_card_remove:
  assumes "finite A" "e \<in> A"
  shows "int (card {x \<in> A. x \<noteq> e \<and> P x}) = int (card {x \<in> A. P x}) - (if P e then 1 else 0)"
proof -
  have eq: "{x \<in> A. x \<noteq> e \<and> P x} = {x \<in> A. P x} - {e}" by auto
  show ?thesis
  proof (cases "P e")
    case True
    then have "Suc (card ({x \<in> A. P x} - {e})) = card {x \<in> A. P x}"
      using assms by (intro card_Suc_Diff1) auto
    then show ?thesis using True unfolding eq by simp
  next
    case False
    then show ?thesis unfolding eq by simp
  qed
qed

lemma int_card_insert:
  assumes "finite A" "e \<notin> A"
  shows "int (card {x \<in> insert e A. P x}) = int (card {x \<in> A. P x}) + (if P e then 1 else 0)"
proof -
  have "{x \<in> insert e A. P x} = (if P e then insert e {x \<in> A. P x} else {x \<in> A. P x})" by auto
  then show ?thesis using assms by simp
qed

lemma distinct_map_submset:
  assumes "mset ys \<subseteq># mset xs" "distinct (map f xs)"
  shows "distinct (map f ys)"
proof -
  have "mset (map f ys) \<subseteq># mset (map f xs)" using assms(1) by (simp add: image_mset_subseteq_mono)
  moreover have "count (mset (map f xs)) a \<le> 1" for a using assms(2) by (metis distinct_count_atmost_1 order.refl le_numeral_extra(3) linorder_not_less less_one nle_le)
  ultimately have "count (mset (map f ys)) a \<le> 1" for a by (meson mset_subset_eq_count order_trans)
  then show ?thesis
    by (metis (no_types, lifting) One_nat_def distinct_count_atmost_1 in_multiset_in_set le_Suc_eq le_zero_eq not_in_iff)
qed

lemma distinct_concat_map:
  assumes "distinct (map g xs)" "\<And>x. x \<in> set xs \<Longrightarrow> distinct (f x)"
    "\<And>x y. x \<in> set xs \<Longrightarrow> y \<in> set xs \<Longrightarrow> g x \<noteq> g y \<Longrightarrow> set (f x) \<inter> set (f y) = {}"
  shows "distinct (concat (map f xs))"
  using assms
proof (induction xs)
  case (Cons x xs)
  have "set (f x) \<inter> set (f y) = {}" if "y \<in> set xs" for y
    using Cons.prems(1) that by (intro Cons.prems(3)) (auto simp: image_iff)
  then have "set (f x) \<inter> set (concat (map f xs)) = {}" by auto
  then show ?case using Cons by simp
qed simp


subsection \<open>Signed readings\<close>

lemma sint32_neg_iff: "sint (w :: 32 word) < 0 \<longleftrightarrow> 2 ^ 31 \<le> w"
proof -
  have u: "unat w < 2 ^ 32" using unsigned_less[of w, where ?'a = nat] by simp
  have "sint w < 0 \<longleftrightarrow> bit w 31" using bit_last_iff[of w] by simp
  also have "\<dots> \<longleftrightarrow> bit (unat w) 31" by (simp add: bit_unsigned_iff)
  also have "\<dots> \<longleftrightarrow> odd (unat w div 2 ^ 31)" by (simp add: bit_iff_odd)
  also have "\<dots> \<longleftrightarrow> 2 ^ 31 \<le> unat w"
  proof (cases "2 ^ 31 \<le> unat w")
    case True
    then have "unat w div 2 ^ 31 = 1" using u by (intro div_nat_eqI) auto
    then show ?thesis using True by simp
  qed simp
  finally show ?thesis by (simp add: word_le_nat_alt)
qed

lemma sint_inject: "sint (a :: 'a::len word) = sint b \<longleftrightarrow> a = b"
  by (metis scast_id scast_eq)

lemma word_of_int_sint [simp]: "word_of_int (sint w) = (w :: 'a::len word)"
  by (metis scast_id scast_eq)

end
