(* ===== verification/Hash_Functions.thy ===== *)
theory Hash_Functions
  imports GP_Prelude
begin

text \<open>
  The general hash functions of the server: \<^verbatim>\<open>hash_any\<close>, \<^verbatim>\<open>hash_uint32\<close> and the
  support functions of the hash operator classes (\<^verbatim>\<open>src/backend/access/hash/hashfunc.c\<close>),
  and the key hash functions of the dynamic hash tables (\<^verbatim>\<open>src/backend/utils/hash/hashfn.c\<close>).

  A buffer is a list of bytes.  The machine is little endian (the
  \<^verbatim>\<open>!WORDS_BIGENDIAN\<close> branches).  Whether the buffer starts at a word boundary is an
  argument of \<open>hash_any\<close>, because the code has one path for each case; that both paths
  agree is a theorem.
\<close>

type_synonym uint8 = "8 word"
type_synonym uint16 = "16 word"
type_synonym uint32 = "32 word"
type_synonym uint64 = "64 word"
type_synonym bytes = "uint8 list"

text \<open>A 32-bit load from memory, and the bytes of a value, on a little-endian machine.\<close>

definition load32 :: "bytes \<Rightarrow> nat \<Rightarrow> uint32" where
  "load32 k i = word_rcat (rev (take 4 (drop (4 * i) k)))"

fun word_bytes :: "nat \<Rightarrow> 'a::len word \<Rightarrow> bytes" where
  "word_bytes 0 w = []"
| "word_bytes (Suc n) w = ucast w # word_bytes n (drop_bit 8 w)"

definition rot :: "uint32 \<Rightarrow> nat \<Rightarrow> uint32" where
  "rot x k = push_bit k x OR drop_bit (32 - k) x"

definition mix :: "uint32 \<times> uint32 \<times> uint32 \<Rightarrow> uint32 \<times> uint32 \<times> uint32" where
  "mix abc = (case abc of (a, b, c) \<Rightarrow>
     let a = a - c; a = a XOR rot c 4; c = c + b;
         b = b - a; b = b XOR rot a 6; a = a + c;
         c = c - b; c = c XOR rot b 8; b = b + a;
         a = a - c; a = a XOR rot c 16; c = c + b;
         b = b - a; b = b XOR rot a 19; a = a + c;
         c = c - b; c = c XOR rot b 4; b = b + a
     in (a, b, c))"

definition final :: "uint32 \<times> uint32 \<times> uint32 \<Rightarrow> uint32 \<times> uint32 \<times> uint32" where
  "final abc = (case abc of (a, b, c) \<Rightarrow>
     let c = c XOR b; c = c - rot b 14;
         a = a XOR c; a = a - rot c 11;
         b = b XOR a; b = b - rot a 25;
         c = c XOR b; c = c - rot b 16;
         a = a XOR c; a = a - rot c 4;
         b = b XOR a; b = b - rot a 14;
         c = c XOR b; c = c - rot b 24
     in (a, b, c))"

text \<open>
  \<^verbatim>\<open>hash_any\<close>.  The main loop consumes twelve bytes per round; the switch on the
  remaining length (0 to 11) falls through from the matching case, so the statement of
  \<^verbatim>\<open>case n\<close> runs when at least \<open>n\<close> bytes are left, up to the next \<^verbatim>\<open>break\<close>.
\<close>

definition u32 :: "bytes \<Rightarrow> nat \<Rightarrow> uint32" where
  "u32 k i = ucast (k ! i)"

fun hash_any_loop_aligned ::
  "bytes \<Rightarrow> uint32 \<times> uint32 \<times> uint32 \<Rightarrow> bytes \<times> uint32 \<times> uint32 \<times> uint32" where
  "hash_any_loop_aligned k (a, b, c) =
     (if 12 \<le> length k
      then hash_any_loop_aligned (drop 12 k)
             (mix (a + load32 k 0, b + load32 k 1, c + load32 k 2))
      else (k, a, b, c))"

definition hash_any_tail_aligned ::
  "bytes \<Rightarrow> uint32 \<times> uint32 \<times> uint32 \<Rightarrow> uint32 \<times> uint32 \<times> uint32" where
  "hash_any_tail_aligned k abc = (case abc of (a, b, c) \<Rightarrow>
     let len = length k;
         c = (if 11 \<le> len then c + push_bit 24 (u32 k 10) else c);
         c = (if 10 \<le> len then c + push_bit 16 (u32 k 9) else c);
         c = (if 9 \<le> len then c + push_bit 8 (u32 k 8) else c)
     in if 8 \<le> len then (a + load32 k 0, b + load32 k 1, c)
        else
          let b = (if 7 \<le> len then b + push_bit 16 (u32 k 6) else b);
              b = (if 6 \<le> len then b + push_bit 8 (u32 k 5) else b);
              b = (if 5 \<le> len then b + u32 k 4 else b)
          in if 4 \<le> len then (a + load32 k 0, b, c)
             else
               let a = (if 3 \<le> len then a + push_bit 16 (u32 k 2) else a);
                   a = (if 2 \<le> len then a + push_bit 8 (u32 k 1) else a);
                   a = (if 1 \<le> len then a + u32 k 0 else a)
               in (a, b, c))"

definition bytes32 :: "bytes \<Rightarrow> nat \<Rightarrow> uint32" where
  "bytes32 k i = u32 k i + push_bit 8 (u32 k (i + 1)) + push_bit 16 (u32 k (i + 2)) +
     push_bit 24 (u32 k (i + 3))"

fun hash_any_loop_unaligned ::
  "bytes \<Rightarrow> uint32 \<times> uint32 \<times> uint32 \<Rightarrow> bytes \<times> uint32 \<times> uint32 \<times> uint32" where
  "hash_any_loop_unaligned k (a, b, c) =
     (if 12 \<le> length k
      then hash_any_loop_unaligned (drop 12 k)
             (mix (a + bytes32 k 0, b + bytes32 k 4, c + bytes32 k 8))
      else (k, a, b, c))"

definition hash_any_tail_unaligned ::
  "bytes \<Rightarrow> uint32 \<times> uint32 \<times> uint32 \<Rightarrow> uint32 \<times> uint32 \<times> uint32" where
  "hash_any_tail_unaligned k abc = (case abc of (a, b, c) \<Rightarrow>
     let len = length k;
         c = (if 11 \<le> len then c + push_bit 24 (u32 k 10) else c);
         c = (if 10 \<le> len then c + push_bit 16 (u32 k 9) else c);
         c = (if 9 \<le> len then c + push_bit 8 (u32 k 8) else c);
         b = (if 8 \<le> len then b + push_bit 24 (u32 k 7) else b);
         b = (if 7 \<le> len then b + push_bit 16 (u32 k 6) else b);
         b = (if 6 \<le> len then b + push_bit 8 (u32 k 5) else b);
         b = (if 5 \<le> len then b + u32 k 4 else b);
         a = (if 4 \<le> len then a + push_bit 24 (u32 k 3) else a);
         a = (if 3 \<le> len then a + push_bit 16 (u32 k 2) else a);
         a = (if 2 \<le> len then a + push_bit 8 (u32 k 1) else a);
         a = (if 1 \<le> len then a + u32 k 0 else a)
     in (a, b, c))"

definition hash_any :: "bool \<Rightarrow> bytes \<Rightarrow> uint32" where
  "hash_any aligned k =
     (let len = of_nat (length k);
          init = 0x9e3779b9 + len + 3923095;
          (k', abc) = (if aligned then hash_any_loop_aligned k (init, init, init)
                       else hash_any_loop_unaligned k (init, init, init));
          (a, b, c) = final (if aligned then hash_any_tail_aligned k' abc
                             else hash_any_tail_unaligned k' abc)
      in c)"

definition hash_uint32 :: "uint32 \<Rightarrow> uint32" where
  "hash_uint32 k =
     (let init = 0x9e3779b9 + 4 + 3923095;
          (a, b, c) = final (init + k, init, init)
      in c)"

text \<open>The support functions of the integer operator classes.\<close>

definition hashchar :: "uint8 \<Rightarrow> uint32" where
  "hashchar v = hash_uint32 (scast v)"

definition hashint2 :: "uint16 \<Rightarrow> uint32" where
  "hashint2 v = hash_uint32 (scast v)"

definition hashint4 :: "uint32 \<Rightarrow> uint32" where
  "hashint4 v = hash_uint32 v"

definition hashint8 :: "uint64 \<Rightarrow> uint32" where
  "hashint8 val =
     (let lohalf = ucast val :: uint32;
          hihalf = ucast (signed_drop_bit 32 val) :: uint32;
          lohalf = lohalf XOR (if 0 \<le> sint val then hihalf else NOT hihalf)
      in hash_uint32 lohalf)"

definition hashoid :: "uint32 \<Rightarrow> uint32" where
  "hashoid v = hash_uint32 v"

definition hashenum :: "uint32 \<Rightarrow> uint32" where
  "hashenum v = hash_uint32 v"

definition hashoidvector :: "bool \<Rightarrow> uint32 list \<Rightarrow> uint32" where
  "hashoidvector aligned values = hash_any aligned (concat (map (word_bytes 4) values))"

definition hashint2vector :: "bool \<Rightarrow> uint16 list \<Rightarrow> uint32" where
  "hashint2vector aligned values = hash_any aligned (concat (map (word_bytes 2) values))"

text \<open>
  Key hash functions of the dynamic hash tables.  A C string is the list of bytes of its
  buffer; \<^verbatim>\<open>strlen\<close> counts the bytes before the first zero byte.
\<close>

definition strlen :: "bytes \<Rightarrow> nat" where
  "strlen s = length (takeWhile (\<lambda>c. c \<noteq> 0) s)"

definition hashname :: "bool \<Rightarrow> bytes \<Rightarrow> uint32" where
  "hashname aligned key = hash_any aligned (take (strlen key) key)"

definition string_hash :: "bool \<Rightarrow> bytes \<Rightarrow> nat \<Rightarrow> uint32" where
  "string_hash aligned key keysize =
     (let s_len = min (strlen key) (keysize - 1) in hash_any aligned (take s_len key))"

definition tag_hash :: "bool \<Rightarrow> bytes \<Rightarrow> nat \<Rightarrow> uint32" where
  "tag_hash aligned key keysize = hash_any aligned (take keysize key)"

definition oid_hash :: "uint32 \<Rightarrow> uint32" where
  "oid_hash key = hash_uint32 key"

definition int32_hash :: "uint32 \<Rightarrow> uint32" where
  "int32_hash key = key"


subsection \<open>Both paths of \<open>hash_any\<close> agree\<close>

lemma word_rcat_4:
  "(word_rcat [d, c, b, a :: uint8] :: uint32) =
     ucast a + push_bit 8 (ucast b) + push_bit 16 (ucast c) + push_bit 24 (ucast d)"
  by (simp add: word_rcat_def push_bit_eq_mult algebra_simps)

lemma load32_bytes32:
  assumes "4 * i + 4 \<le> length k"
  shows "load32 k i = bytes32 k (4 * i)"
proof -
  have "take 4 (drop (4 * i) k) = [k ! (4 * i), k ! (4 * i + 1), k ! (4 * i + 2), k ! (4 * i + 3)]"
    using assms by (intro nth_equalityI) (auto simp: nth_Cons' less_Suc_eq numeral_eq_Suc)
  then show ?thesis
    by (simp add: load32_def bytes32_def u32_def word_rcat_4)
qed

lemma hash_any_loops_agree: "hash_any_loop_aligned k abc = hash_any_loop_unaligned k abc"
proof (induction k abc rule: hash_any_loop_aligned.induct)
  case (1 k a b c)
  show ?case
  proof (cases "12 \<le> length k")
    case True
    then have "load32 k 0 = bytes32 k 0" "load32 k 1 = bytes32 k 4" "load32 k 2 = bytes32 k 8"
      by (simp_all add: load32_bytes32)
    with True 1 show ?thesis
      by (simp del: hash_any_loop_aligned.simps hash_any_loop_unaligned.simps
          add: hash_any_loop_aligned.simps [of k] hash_any_loop_unaligned.simps [of k])
  qed simp
qed

lemma hash_any_loop_rest: "length (fst (hash_any_loop_unaligned k abc)) < 12"
proof (induction k abc rule: hash_any_loop_unaligned.induct)
  case (1 k a b c)
  then show ?case
    by (simp del: hash_any_loop_unaligned.simps add: hash_any_loop_unaligned.simps [of k])
qed

lemma hash_any_tails_agree: "hash_any_tail_aligned k abc = hash_any_tail_unaligned k abc"
proof -
  have "8 \<le> length k \<Longrightarrow> load32 k 1 = bytes32 k 4" "4 \<le> length k \<Longrightarrow> load32 k 0 = bytes32 k 0"
    by (simp_all add: load32_bytes32)
  then show ?thesis
    by (cases abc) (auto simp: hash_any_tail_aligned_def hash_any_tail_unaligned_def Let_def
        bytes32_def numeral_2_eq_2 numeral_3_eq_3)
qed

lemma hash_any_aligned_unaligned: "hash_any True k = hash_any False k"
  by (simp add: hash_any_def hash_any_loops_agree hash_any_tails_agree)


subsection \<open>Agreement of the integer hash functions\<close>

lemma ucast_byte:
  "(ucast (ucast (x :: 'a::len word) :: uint8) :: 'b::len word) = of_nat (unat x mod 256)"
proof -
  have "unat (ucast x :: uint8) = unat x mod 256"
    by (simp add: unsigned_ucast_eq take_bit_eq_mod)
  then show ?thesis by (metis of_nat_unat)
qed

lemma base256_digits:
  fixes n :: nat
  assumes "n < 2 ^ 32"
  shows "n mod 256 + (n div 256 mod 256) * 256 + (n div 65536 mod 256) * 65536
    + (n div 16777216 mod 256) * 16777216 = n"
proof -
  define d1 where "d1 = n div 256"
  define d2 where "d2 = d1 div 256"
  define d3 where "d3 = d2 div 256"
  have "n div 65536 = d2" "n div 16777216 = d3"
    by (simp_all add: d1_def d2_def d3_def flip: div_mult2_eq)
  moreover have "d3 mod 256 = d3"
    using assms by (simp add: d1_def d2_def d3_def flip: div_mult2_eq)
  moreover have "n = 256 * d1 + n mod 256" "d1 = 256 * d2 + d1 mod 256" "d2 = 256 * d3 + d2 mod 256"
    by (simp_all add: d1_def d2_def d3_def)
  ultimately show ?thesis
    unfolding d1_def [symmetric] by simp
qed

lemma word_bytes_4:
  "word_bytes 4 w = [ucast w, ucast (drop_bit 8 w), ucast (drop_bit 16 w), ucast (drop_bit 24 w)]"
proof -
  have "word_bytes (Suc (Suc (Suc (Suc 0)))) w =
      [ucast w, ucast (drop_bit 8 w), ucast (drop_bit 16 w), ucast (drop_bit 24 w)]"
    by (simp add: drop_bit_drop_bit)
  then show ?thesis by (simp add: numeral_eq_Suc)
qed

lemma bytes32_word_bytes: "bytes32 (word_bytes 4 w) 0 = (w :: uint32)"
proof -
  let ?n = "unat w"
  have "?n < 2 ^ 32" using unsigned_less [of w] by simp
  note n = base256_digits [OF this]
  have dr: "unat (drop_bit 8 w) = ?n div 256" "unat (drop_bit 16 w) = ?n div 65536"
      "unat (drop_bit 24 w) = ?n div 16777216"
    by (simp_all add: unat_drop_bit_eq) (simp_all add: drop_bit_eq_div)
  have "bytes32 (word_bytes 4 w) 0 = of_nat (?n mod 256 + (?n div 256 mod 256) * 256
      + (?n div 65536 mod 256) * 65536 + (?n div 16777216 mod 256) * 16777216)"
    by (simp add: bytes32_def u32_def word_bytes_4 ucast_byte dr push_bit_eq_mult)
  also have "\<dots> = of_nat ?n" by (simp only: n)
  finally show ?thesis by simp
qed

lemma hash_uint32_hash_any: "hash_uint32 k = hash_any aligned (word_bytes 4 k)"
proof -
  have len: "length (word_bytes 4 k) = 4"
    by (simp add: numeral_eq_Suc)
  have "hash_any True (word_bytes 4 k) = hash_uint32 k"
    using len load32_bytes32 [of 0 "word_bytes 4 k"]
    by (simp add: hash_any_def hash_uint32_def hash_any_tail_aligned_def bytes32_word_bytes)
  then show ?thesis
    by (cases aligned) (simp_all add: hash_any_aligned_unaligned)
qed

lemma hashint8_scast: "hashint8 (scast (v :: uint32)) = hashint4 v"
proof -
  have lo: "ucast (scast v :: uint64) = v"
    by (rule bit_word_eqI) (simp add: bit_simps)
  have hi: "ucast (signed_drop_bit 32 (scast v :: uint64)) = (if 0 \<le> sint v then 0 else (-1 :: uint32))"
    using bit_last_iff [of v] by (intro bit_word_eqI) (auto simp: bit_simps min_def)
  have "0 \<le> sint (scast v :: uint64) \<longleftrightarrow> 0 \<le> sint v"
    using bit_last_iff [of v] bit_last_iff [of "scast v :: uint64"] by (simp add: bit_simps flip: not_less)
  then show ?thesis
    by (simp add: hashint8_def hashint4_def lo hi)
qed

lemma hashint4_scast: "hashint4 (scast (v :: uint16)) = hashint2 v"
  by (simp add: hashint4_def hashint2_def)

end
