(* ===== verification/Bitmapsets.thy ===== *)
theory Bitmapsets
  imports Hash_Functions
begin

text \<open>
  The bitmap sets of \<^verbatim>\<open>src/backend/nodes/bitmapset.c\<close>: sets of nonnegative integers
  stored as arrays of 32-bit words.  A \<^verbatim>\<open>Bitmapset *\<close> is an optional value, \<open>None\<close> for
  the \<^verbatim>\<open>NULL\<close> pointer; the field \<^verbatim>\<open>nwords\<close> is the length of the array.  Operations that
  recycle their input return the updated set.

  Every operation is related to the operation on sets of numbers it stands for
  (\<open>bms_set\<close>); \<open>wordat\<close>, the array continued with zero words, carries the proofs.
\<close>

type_synonym bitmapword = uint32

record Bitmapset =
  words :: "bitmapword list"

type_synonym bms = "Bitmapset option"

abbreviation nwords :: "Bitmapset \<Rightarrow> nat" where
  "nwords a \<equiv> length (words a)"

datatype bms_error = NegativeMember | BitmapsetEmpty | BitmapsetMultiple

datatype BMS_Membership = BMS_EMPTY_SET | BMS_SINGLETON | BMS_MULTIPLE

definition WORDNUM :: "int \<Rightarrow> nat" where
  "WORDNUM x = nat (x mod 2 ^ 32) div 32"

definition BITNUM :: "int \<Rightarrow> nat" where
  "BITNUM x = nat (x mod 2 ^ 32) mod 32"

definition RIGHTMOST_ONE :: "bitmapword \<Rightarrow> bitmapword" where
  "RIGHTMOST_ONE x = x AND (- x)"

definition HAS_MULTIPLE_ONES :: "bitmapword \<Rightarrow> bool" where
  "HAS_MULTIPLE_ONES x \<longleftrightarrow> RIGHTMOST_ONE x \<noteq> x"

definition number_of_ones :: "nat list" where
  "number_of_ones = [
    0, 1, 1, 2, 1, 2, 2, 3, 1, 2, 2, 3, 2, 3, 3, 4,
    1, 2, 2, 3, 2, 3, 3, 4, 2, 3, 3, 4, 3, 4, 4, 5,
    1, 2, 2, 3, 2, 3, 3, 4, 2, 3, 3, 4, 3, 4, 4, 5,
    2, 3, 3, 4, 3, 4, 4, 5, 3, 4, 4, 5, 4, 5, 5, 6,
    1, 2, 2, 3, 2, 3, 3, 4, 2, 3, 3, 4, 3, 4, 4, 5,
    2, 3, 3, 4, 3, 4, 4, 5, 3, 4, 4, 5, 4, 5, 5, 6,
    2, 3, 3, 4, 3, 4, 4, 5, 3, 4, 4, 5, 4, 5, 5, 6,
    3, 4, 4, 5, 4, 5, 5, 6, 4, 5, 5, 6, 5, 6, 6, 7,
    1, 2, 2, 3, 2, 3, 3, 4, 2, 3, 3, 4, 3, 4, 4, 5,
    2, 3, 3, 4, 3, 4, 4, 5, 3, 4, 4, 5, 4, 5, 5, 6,
    2, 3, 3, 4, 3, 4, 4, 5, 3, 4, 4, 5, 4, 5, 5, 6,
    3, 4, 4, 5, 4, 5, 5, 6, 4, 5, 5, 6, 5, 6, 6, 7,
    2, 3, 3, 4, 3, 4, 4, 5, 3, 4, 4, 5, 4, 5, 5, 6,
    3, 4, 4, 5, 4, 5, 5, 6, 4, 5, 5, 6, 5, 6, 6, 7,
    3, 4, 4, 5, 4, 5, 5, 6, 4, 5, 5, 6, 5, 6, 6, 7,
    4, 5, 5, 6, 5, 6, 6, 7, 5, 6, 6, 7, 6, 7, 7, 8]"

fun num_low_order_zero_bits_loop :: "nat \<Rightarrow> bitmapword \<Rightarrow> nat \<Rightarrow> bitmapword \<times> nat" where
  "num_low_order_zero_bits_loop i w x =
     (if i = 0 then (w, x)
      else
        let m = push_bit i 1 - 1
        in if w AND m = 0 then num_low_order_zero_bits_loop (i div 2) (drop_bit i w) (x + i)
           else num_low_order_zero_bits_loop (i div 2) w x)"

definition num_low_order_zero_bits :: "bitmapword \<Rightarrow> nat" where
  "num_low_order_zero_bits w =
     (let (w, x) = num_low_order_zero_bits_loop 16 w 0
      in if w = 0 then x + 1 else x)"


subsection \<open>Operations\<close>

definition bms_copy :: "bms \<Rightarrow> bms" where
  "bms_copy a = (case a of None \<Rightarrow> None | Some s \<Rightarrow> Some \<lparr>words = words s\<rparr>)"

definition bms_is_empty :: "bms \<Rightarrow> bool" where
  "bms_is_empty a = (case a of None \<Rightarrow> True
     | Some s \<Rightarrow> (case for_return 0 (nwords s)
           (\<lambda>wordnum. let w = words s ! wordnum in if w \<noteq> 0 then Some False else None) of
         Some r \<Rightarrow> r | None \<Rightarrow> True))"

definition bms_equal :: "bms \<Rightarrow> bms \<Rightarrow> bool" where
  "bms_equal a b = (case a of
     None \<Rightarrow> (case b of None \<Rightarrow> True | Some _ \<Rightarrow> bms_is_empty b)
   | Some sa \<Rightarrow> (case b of
       None \<Rightarrow> bms_is_empty a
     | Some sb \<Rightarrow>
         (let (shorter, longer) = (if nwords sa \<le> nwords sb then (sa, sb) else (sb, sa));
              shortlen = nwords shorter; longlen = nwords longer
          in case for_return 0 shortlen
                (\<lambda>i. if words shorter ! i \<noteq> words longer ! i then Some False else None) of
               Some r \<Rightarrow> r
             | None \<Rightarrow> (case for_return shortlen longlen
                   (\<lambda>i. if words longer ! i \<noteq> 0 then Some False else None) of
                 Some r \<Rightarrow> r | None \<Rightarrow> True))))"

definition bms_compare :: "bms \<Rightarrow> bms \<Rightarrow> int" where
  "bms_compare a b = (case a of
     None \<Rightarrow> if b = None \<or> bms_is_empty b then 0 else -1
   | Some sa \<Rightarrow> (case b of
       None \<Rightarrow> if bms_is_empty a then 0 else 1
     | Some sb \<Rightarrow>
         (let (shortlen, longlen, longer, sign) =
                (if nwords sa \<le> nwords sb then (nwords sa, nwords sb, sb, -1)
                 else (nwords sb, nwords sa, sa, 1))
          in case for_return 0 shortlen
                (\<lambda>i. if words sa ! i < words sb ! i then Some (-1)
                     else if words sb ! i < words sa ! i then Some 1 else None) of
               Some r \<Rightarrow> r
             | None \<Rightarrow> (case for_return shortlen longlen
                   (\<lambda>i. if words longer ! i \<noteq> 0 then Some sign else None) of
                 Some r \<Rightarrow> r | None \<Rightarrow> 0))))"

definition bms_make_singleton :: "int \<Rightarrow> bms_error + bms" where
  "bms_make_singleton x =
     (if x < 0 then Inl NegativeMember
      else
        let wordnum = WORDNUM x; bitnum = BITNUM x;
            ws = replicate (wordnum + 1) 0
        in Inr (Some \<lparr>words = ws[wordnum := push_bit bitnum 1]\<rparr>))"

definition bms_union :: "bms \<Rightarrow> bms \<Rightarrow> bms" where
  "bms_union a b = (case a of None \<Rightarrow> bms_copy b | Some sa \<Rightarrow>
     (case b of None \<Rightarrow> bms_copy a | Some sb \<Rightarrow>
       (let (result, other) = (if nwords sa \<le> nwords sb then (sb, sa) else (sa, sb));
            otherlen = nwords other
        in Some \<lparr>words = update_words 0 otherlen (\<lambda>i w. w OR words other ! i) (words result)\<rparr>)))"

definition bms_intersect :: "bms \<Rightarrow> bms \<Rightarrow> bms" where
  "bms_intersect a b = (case a of None \<Rightarrow> None | Some sa \<Rightarrow>
     (case b of None \<Rightarrow> None | Some sb \<Rightarrow>
       (let (result, other) = (if nwords sa \<le> nwords sb then (sa, sb) else (sb, sa));
            resultlen = nwords result
        in Some \<lparr>words = update_words 0 resultlen (\<lambda>i w. w AND words other ! i) (words result)\<rparr>)))"

definition bms_difference :: "bms \<Rightarrow> bms \<Rightarrow> bms" where
  "bms_difference a b = (case a of None \<Rightarrow> None | Some sa \<Rightarrow>
     (case b of None \<Rightarrow> bms_copy a | Some sb \<Rightarrow>
       (let shortlen = min (nwords sa) (nwords sb)
        in Some \<lparr>words = update_words 0 shortlen (\<lambda>i w. w AND NOT (words sb ! i)) (words sa)\<rparr>)))"

definition bms_is_subset :: "bms \<Rightarrow> bms \<Rightarrow> bool" where
  "bms_is_subset a b = (case a of None \<Rightarrow> True | Some sa \<Rightarrow>
     (case b of None \<Rightarrow> bms_is_empty a | Some sb \<Rightarrow>
       (let shortlen = min (nwords sa) (nwords sb)
        in case for_return 0 shortlen
             (\<lambda>i. if words sa ! i AND NOT (words sb ! i) \<noteq> 0 then Some False else None) of
             Some r \<Rightarrow> r
           | None \<Rightarrow>
               if nwords sa > nwords sb
               then (case for_return shortlen (nwords sa)
                       (\<lambda>i. if words sa ! i \<noteq> 0 then Some False else None) of
                       Some r \<Rightarrow> r | None \<Rightarrow> True)
               else True)))"

definition bms_is_member :: "int \<Rightarrow> bms \<Rightarrow> bms_error + bool" where
  "bms_is_member x a =
     (if x < 0 then Inl NegativeMember
      else case a of None \<Rightarrow> Inr False
      | Some s \<Rightarrow>
          (let wordnum = WORDNUM x; bitnum = BITNUM x
           in if wordnum \<ge> nwords s then Inr False
              else if words s ! wordnum AND push_bit bitnum 1 \<noteq> 0 then Inr True
              else Inr False))"

definition bms_overlap :: "bms \<Rightarrow> bms \<Rightarrow> bool" where
  "bms_overlap a b = (case a of None \<Rightarrow> False | Some sa \<Rightarrow>
     (case b of None \<Rightarrow> False | Some sb \<Rightarrow>
       (let shortlen = min (nwords sa) (nwords sb)
        in case for_return 0 shortlen
             (\<lambda>i. if words sa ! i AND words sb ! i \<noteq> 0 then Some True else None) of
             Some r \<Rightarrow> r | None \<Rightarrow> False)))"

definition bms_nonempty_difference :: "bms \<Rightarrow> bms \<Rightarrow> bool" where
  "bms_nonempty_difference a b = (case a of None \<Rightarrow> False | Some sa \<Rightarrow>
     (case b of None \<Rightarrow> \<not> bms_is_empty a | Some sb \<Rightarrow>
       (let shortlen = min (nwords sa) (nwords sb)
        in case for_return 0 shortlen
             (\<lambda>i. if words sa ! i AND NOT (words sb ! i) \<noteq> 0 then Some True else None) of
             Some r \<Rightarrow> r
           | None \<Rightarrow>
               (case for_return shortlen (nwords sa)
                  (\<lambda>i. if words sa ! i \<noteq> 0 then Some True else None) of
                  Some r \<Rightarrow> r | None \<Rightarrow> False))))"

definition bms_singleton_member :: "bms \<Rightarrow> bms_error + int" where
  "bms_singleton_member a = (case a of None \<Rightarrow> Inl BitmapsetEmpty
     | Some s \<Rightarrow>
         result_bind
           (for_result 0 (nwords s)
             (\<lambda>wordnum result.
                let w = words s ! wordnum
                in if w \<noteq> 0 then
                     if 0 \<le> result \<or> HAS_MULTIPLE_ONES w then Inl BitmapsetMultiple
                     else Inr (int (num_low_order_zero_bits w + wordnum * 32))
                   else Inr result)
             (-1))
           (\<lambda>result. if result < 0 then Inl BitmapsetEmpty else Inr result))"

function bms_count_word :: "bitmapword \<Rightarrow> nat \<Rightarrow> nat" where
  "bms_count_word w result =
     (if w \<noteq> 0 then bms_count_word (drop_bit 8 w) (result + number_of_ones ! unat (w AND 255))
      else result)"
  by pat_completeness auto
termination
proof (relation "measure (\<lambda>(w, _). unat w)")
  fix w :: bitmapword and result :: nat
  assume "w \<noteq> 0"
  then have "0 < unat w" by (simp add: unat_gt_0)
  then show "((drop_bit 8 w, result + number_of_ones ! unat (w AND 255)), w, result)
      \<in> measure (\<lambda>(w, _). unat w)"
    by (simp add: unat_drop_bit_eq) (simp add: drop_bit_eq_div)
qed simp

definition bms_num_members :: "bms \<Rightarrow> nat" where
  "bms_num_members a = (case a of None \<Rightarrow> 0
     | Some s \<Rightarrow> for_range 0 (nwords s) (\<lambda>wordnum result. bms_count_word (words s ! wordnum) result) 0)"

definition bms_membership :: "bms \<Rightarrow> BMS_Membership" where
  "bms_membership a = (case a of None \<Rightarrow> BMS_EMPTY_SET
     | Some s \<Rightarrow>
         (case for_result 0 (nwords s)
             (\<lambda>wordnum result.
                let w = words s ! wordnum
                in if w \<noteq> 0 then
                     if result \<noteq> BMS_EMPTY_SET \<or> HAS_MULTIPLE_ONES w then Inl BMS_MULTIPLE
                     else Inr BMS_SINGLETON
                   else Inr result)
             BMS_EMPTY_SET of
           Inl r \<Rightarrow> r | Inr result \<Rightarrow> result))"

definition bms_add_member :: "bms \<Rightarrow> int \<Rightarrow> bms_error + bms" where
  "bms_add_member a x =
     (if x < 0 then Inl NegativeMember
      else case a of None \<Rightarrow> bms_make_singleton x
      | Some s \<Rightarrow>
          (let wordnum = WORDNUM x; bitnum = BITNUM x
           in if wordnum \<ge> nwords s
              then result_bind (bms_make_singleton x)
                (\<lambda>result. case result of None \<Rightarrow> Inr None
                   | Some r \<Rightarrow> Inr (Some \<lparr>words =
                       update_words 0 (nwords s) (\<lambda>i w. w OR words s ! i) (words r)\<rparr>))
              else Inr (Some \<lparr>words =
                     (words s)[wordnum := words s ! wordnum OR push_bit bitnum 1]\<rparr>)))"

definition bms_covers_member :: "bms \<Rightarrow> int \<Rightarrow> bms_error + bool" where
  "bms_covers_member a x =
     (if x < 0 then Inl NegativeMember
      else case a of None \<Rightarrow> Inr False | Some s \<Rightarrow> Inr (WORDNUM x < nwords s))"

definition bms_resize :: "bms \<Rightarrow> nat \<Rightarrow> bms" where
  "bms_resize a wc = (case a of
     Some s \<Rightarrow> if nwords s \<ge> wc then a
       else Some \<lparr>words = words s @ replicate (wc - nwords s) 0\<rparr>
   | None \<Rightarrow> Some \<lparr>words = replicate wc 0\<rparr>)"

definition bms_del_member :: "bms \<Rightarrow> int \<Rightarrow> bms_error + bms" where
  "bms_del_member a x =
     (if x < 0 then Inl NegativeMember
      else case a of None \<Rightarrow> Inr None
      | Some s \<Rightarrow>
          (let wordnum = WORDNUM x; bitnum = BITNUM x
           in if wordnum < nwords s
              then Inr (Some \<lparr>words =
                     (words s)[wordnum := words s ! wordnum AND NOT (push_bit bitnum 1)]\<rparr>)
              else Inr a))"

definition bms_add_members :: "bms \<Rightarrow> bms \<Rightarrow> bms" where
  "bms_add_members a b = (case a of None \<Rightarrow> bms_copy b | Some sa \<Rightarrow>
     (case b of None \<Rightarrow> a | Some sb \<Rightarrow>
       (let (result, other) = (if nwords sa < nwords sb then (sb, sa) else (sa, sb));
            otherlen = nwords other
        in Some \<lparr>words = update_words 0 otherlen (\<lambda>i w. w OR words other ! i) (words result)\<rparr>)))"

definition bms_int_members :: "bms \<Rightarrow> bms \<Rightarrow> bms" where
  "bms_int_members a b = (case a of None \<Rightarrow> None | Some sa \<Rightarrow>
     (case b of None \<Rightarrow> None | Some sb \<Rightarrow>
       (let shortlen = min (nwords sa) (nwords sb);
            ws = update_words 0 shortlen (\<lambda>i w. w AND words sb ! i) (words sa)
        in Some \<lparr>words = update_words shortlen (nwords sa) (\<lambda>i w. 0) ws\<rparr>)))"

definition bms_del_members :: "bms \<Rightarrow> bms \<Rightarrow> bms" where
  "bms_del_members a b = (case a of None \<Rightarrow> None | Some sa \<Rightarrow>
     (case b of None \<Rightarrow> a | Some sb \<Rightarrow>
       (let shortlen = min (nwords sa) (nwords sb)
        in Some \<lparr>words = update_words 0 shortlen (\<lambda>i w. w AND NOT (words sb ! i)) (words sa)\<rparr>)))"

definition bms_join :: "bms \<Rightarrow> bms \<Rightarrow> bms" where
  "bms_join a b = (case a of None \<Rightarrow> b | Some sa \<Rightarrow>
     (case b of None \<Rightarrow> a | Some sb \<Rightarrow>
       (let (result, other) = (if nwords sa < nwords sb then (sb, sa) else (sa, sb));
            otherlen = nwords other
        in Some \<lparr>words = update_words 0 otherlen (\<lambda>i w. w OR words other ! i) (words result)\<rparr>)))"

definition bms_first_from :: "bms \<Rightarrow> int \<Rightarrow> int" where
  "bms_first_from a x = (case a of None \<Rightarrow> -1
     | Some s \<Rightarrow>
         (let wordnum = WORDNUM x
          in if wordnum \<ge> nwords s then -1
             else
               let w = drop_bit (BITNUM x) (words s ! wordnum)
               in if w AND 1 \<noteq> 0 then x
                  else if w \<noteq> 0 then x + int (num_low_order_zero_bits w)
                  else case for_return (wordnum + 1) (nwords s)
                         (\<lambda>wordnum. let w = words s ! wordnum
                            in if w \<noteq> 0
                               then Some (int (wordnum * 32 + num_low_order_zero_bits w))
                               else None) of
                         Some r \<Rightarrow> r | None \<Rightarrow> -1))"

definition bms_first_member :: "bms \<Rightarrow> int \<times> bms" where
  "bms_first_member a = (case a of None \<Rightarrow> (-1, None)
     | Some s \<Rightarrow>
         (case for_return 0 (nwords s)
             (\<lambda>wordnum. let w = words s ! wordnum
                in if w \<noteq> 0 then
                     let w = RIGHTMOST_ONE w
                     in Some (int (num_low_order_zero_bits w + wordnum * 32),
                              Some \<lparr>words = (words s)[wordnum := words s ! wordnum AND NOT w]\<rparr>)
                   else None) of
           Some r \<Rightarrow> r | None \<Rightarrow> (-1, a)))"

fun bms_lastword :: "bitmapword list \<Rightarrow> nat \<Rightarrow> nat option" where
  "bms_lastword ws 0 = None"
| "bms_lastword ws (Suc lastword) =
     (if ws ! lastword \<noteq> 0 then Some lastword else bms_lastword ws lastword)"

definition bms_hash_value :: "bms \<Rightarrow> uint32" where
  "bms_hash_value a = (case a of None \<Rightarrow> 0
     | Some s \<Rightarrow> (case bms_lastword (words s) (nwords s) of
         None \<Rightarrow> 0
       | Some lastword \<Rightarrow>
           hash_any True (concat (map (word_bytes 4) (take (lastword + 1) (words s))))))"

text \<open>The hash-table callbacks on bitmap sets (\<^verbatim>\<open>src/backend/utils/hash/hashfn.c\<close>).\<close>

definition bitmap_hash :: "bms \<Rightarrow> uint32" where
  "bitmap_hash key = bms_hash_value key"

definition bitmap_match :: "bms \<Rightarrow> bms \<Rightarrow> bool" where
  "bitmap_match key1 key2 = (\<not> bms_equal key1 key2)"


subsection \<open>The set a bitmap set stands for\<close>

definition wordat :: "bms \<Rightarrow> nat \<Rightarrow> bitmapword" where
  "wordat a i = (case a of None \<Rightarrow> 0 | Some s \<Rightarrow> if i < nwords s then words s ! i else 0)"

definition bms_set :: "bms \<Rightarrow> nat set" where
  "bms_set a = {n. bit (wordat a (n div 32)) (n mod 32)}"

lemma word_zero_iff: "(w :: bitmapword) = 0 \<longleftrightarrow> (\<forall>n<32. \<not> bit w n)"
  by (auto intro: bit_word_eqI)

lemma wordat_None [simp]: "wordat None i = 0"
  by (simp add: wordat_def)

lemma mem_bms_set_index:
  "b < 32 \<Longrightarrow> i * 32 + b \<in> bms_set a \<longleftrightarrow> bit (wordat a i) b"
  by (simp add: bms_set_def)

lemma bms_set_eq_iff: "bms_set a = bms_set b \<longleftrightarrow> (\<forall>i. wordat a i = wordat b i)"
proof
  assume eq: "bms_set a = bms_set b"
  show "\<forall>i. wordat a i = wordat b i"
  proof (intro allI bit_word_eqI)
    fix i n assume "n < LENGTH(32)"
    then show "bit (wordat a i) n = bit (wordat b i) n"
      using eq mem_bms_set_index [of n i a] mem_bms_set_index [of n i b] by simp
  qed
qed (simp add: bms_set_def)

lemma bms_set_empty_iff: "bms_set a = {} \<longleftrightarrow> (\<forall>i. wordat a i = 0)"
proof -
  have "bms_set None = {}" by (simp add: bms_set_def)
  then show ?thesis using bms_set_eq_iff [of a None] by simp
qed

lemma bms_set_binop:
  assumes "\<And>i. wordat c i = f (wordat a i) (wordat b i)"
    and "\<And>v w n. n < 32 \<Longrightarrow> bit (f v w) n \<longleftrightarrow> g (bit v n) (bit w n)"
  shows "bms_set c = {n. g (n \<in> bms_set a) (n \<in> bms_set b)}"
  using assms by (auto simp: bms_set_def)

lemma bms_set_subset_iff:
  "bms_set a \<subseteq> bms_set b \<longleftrightarrow> (\<forall>i. wordat a i AND NOT (wordat b i) = 0)"
proof -
  have "bms_set a \<subseteq> bms_set b \<longleftrightarrow> (\<forall>i. \<forall>n<32. bit (wordat a i) n \<longrightarrow> bit (wordat b i) n)"
  proof
    assume "bms_set a \<subseteq> bms_set b"
    then show "\<forall>i. \<forall>n<32. bit (wordat a i) n \<longrightarrow> bit (wordat b i) n"
      using mem_bms_set_index by blast
  qed (auto simp: bms_set_def)
  also have "\<dots> \<longleftrightarrow> (\<forall>i. wordat a i AND NOT (wordat b i) = 0)"
    by (simp add: word_zero_iff bit_simps)
  finally show ?thesis .
qed

lemma bms_set_disjoint_iff:
  "bms_set a \<inter> bms_set b = {} \<longleftrightarrow> (\<forall>i. wordat a i AND wordat b i = 0)"
proof -
  have "bms_set a \<inter> bms_set b = {} \<longleftrightarrow> (\<forall>i. \<forall>n<32. \<not> (bit (wordat a i) n \<and> bit (wordat b i) n))"
  proof
    assume "bms_set a \<inter> bms_set b = {}"
    then show "\<forall>i. \<forall>n<32. \<not> (bit (wordat a i) n \<and> bit (wordat b i) n)"
      using mem_bms_set_index by blast
  qed (auto simp: bms_set_def)
  also have "\<dots> \<longleftrightarrow> (\<forall>i. wordat a i AND wordat b i = 0)"
    by (simp add: word_zero_iff bit_simps)
  finally show ?thesis .
qed

lemma WORDNUM_nat [simp]: "0 \<le> x \<Longrightarrow> x < 2 ^ 31 \<Longrightarrow> WORDNUM x = nat x div 32"
  by (simp add: WORDNUM_def)

lemma BITNUM_nat [simp]: "0 \<le> x \<Longrightarrow> x < 2 ^ 31 \<Longrightarrow> BITNUM x = nat x mod 32"
  by (simp add: BITNUM_def)


subsection \<open>Words of the results\<close>

lemma wordat_copy [simp]: "wordat (bms_copy a) i = wordat a i"
  by (simp add: bms_copy_def wordat_def split: option.split)

lemma wordat_union: "wordat (bms_union a b) i = wordat a i OR wordat b i"
  by (auto simp: bms_union_def wordat_def bms_copy_def nth_update_words ac_simps split: option.split)

lemma wordat_intersect: "wordat (bms_intersect a b) i = wordat a i AND wordat b i"
  by (auto simp: bms_intersect_def wordat_def nth_update_words ac_simps split: option.split)

lemma wordat_difference: "wordat (bms_difference a b) i = wordat a i AND NOT (wordat b i)"
  by (auto simp: bms_difference_def wordat_def bms_copy_def nth_update_words split: option.split)

lemma wordat_add_members: "wordat (bms_add_members a b) i = wordat a i OR wordat b i"
  by (auto simp: bms_add_members_def wordat_def bms_copy_def nth_update_words ac_simps
      split: option.split)

lemma wordat_int_members: "wordat (bms_int_members a b) i = wordat a i AND wordat b i"
  by (auto simp: bms_int_members_def wordat_def nth_update_words Let_def split: option.split)

lemma wordat_del_members: "wordat (bms_del_members a b) i = wordat a i AND NOT (wordat b i)"
  by (auto simp: bms_del_members_def wordat_def nth_update_words split: option.split)

lemma wordat_join: "wordat (bms_join a b) i = wordat a i OR wordat b i"
  by (auto simp: bms_join_def wordat_def nth_update_words ac_simps split: option.split)

lemma wordat_resize: "wordat (bms_resize a wc) i = wordat a i"
  by (auto simp: bms_resize_def wordat_def nth_append split: option.split)

lemmas wordat_simps = wordat_union wordat_intersect wordat_difference wordat_add_members
  wordat_int_members wordat_del_members wordat_join wordat_resize

lemma bms_set_union: "bms_set (bms_union a b) = bms_set a \<union> bms_set b"
  and bms_set_add_members: "bms_set (bms_add_members a b) = bms_set a \<union> bms_set b"
  and bms_set_join: "bms_set (bms_join a b) = bms_set a \<union> bms_set b"
  and bms_set_intersect: "bms_set (bms_intersect a b) = bms_set a \<inter> bms_set b"
  and bms_set_int_members: "bms_set (bms_int_members a b) = bms_set a \<inter> bms_set b"
  and bms_set_difference: "bms_set (bms_difference a b) = bms_set a - bms_set b"
  and bms_set_del_members: "bms_set (bms_del_members a b) = bms_set a - bms_set b"
  and bms_set_resize: "bms_set (bms_resize a wc) = bms_set a"
  and bms_set_copy: "bms_set (bms_copy a) = bms_set a"
  by (auto simp: bms_set_def wordat_simps bit_simps)

subsection \<open>Tests\<close>

lemma bms_is_empty_iff: "bms_is_empty a \<longleftrightarrow> bms_set a = {}"
  by (auto simp: bms_is_empty_def bms_set_empty_iff wordat_def for_return_False for_return_True Let_def
      split: option.split)

lemma all_wordat_iff:
  assumes "P 0 0"
  shows "(\<forall>i. P (wordat (Some sa) i) (wordat (Some sb) i)) \<longleftrightarrow>
    (\<forall>i. 0 \<le> i \<and> i < min (nwords sa) (nwords sb) \<longrightarrow> P (words sa ! i) (words sb ! i)) \<and>
    (\<forall>i. min (nwords sa) (nwords sb) \<le> i \<and> i < nwords sa \<longrightarrow> P (words sa ! i) 0) \<and>
    (\<forall>i. min (nwords sa) (nwords sb) \<le> i \<and> i < nwords sb \<longrightarrow> P 0 (words sb ! i))"
    (is "?L \<longleftrightarrow> ?A \<and> ?B \<and> ?C")
proof
  assume L: ?L
  have "P (words sa ! i) (words sb ! i)" if "i < min (nwords sa) (nwords sb)" for i
    using L [rule_format, of i] that by (simp add: wordat_def)
  moreover have "P (words sa ! i) 0" if "min (nwords sa) (nwords sb) \<le> i" "i < nwords sa" for i
    using L [rule_format, of i] that by (simp add: wordat_def min_def split: if_splits)
  moreover have "P 0 (words sb ! i)" if "min (nwords sa) (nwords sb) \<le> i" "i < nwords sb" for i
    using L [rule_format, of i] that by (simp add: wordat_def min_def split: if_splits)
  ultimately show "?A \<and> ?B \<and> ?C" by blast
next
  assume R: "?A \<and> ?B \<and> ?C"
  show ?L
  proof
    fix i
    show "P (wordat (Some sa) i) (wordat (Some sb) i)"
      using R assms by (cases "i < nwords sa"; cases "i < nwords sb") (simp_all add: wordat_def)
  qed
qed

lemma bms_equal_iff: "bms_equal a b \<longleftrightarrow> bms_set a = bms_set b"
proof (cases "a = None \<or> b = None")
  case True
  then show ?thesis
    by (auto simp: bms_equal_def bms_is_empty_iff bms_set_eq_iff bms_set_empty_iff split: option.split)
next
  case False
  then obtain sa sb where ab: "a = Some sa" "b = Some sb" by auto
  show ?thesis
    unfolding ab bms_set_eq_iff all_wordat_iff [where P = "(=)", OF refl]
    by (cases "nwords sa \<le> nwords sb")
      (simp_all add: bms_equal_def for_return_False Let_def
        eq_commute [of "words sb ! i" "words sa ! i" for i], auto)
qed

lemma bms_is_subset_iff: "bms_is_subset a b \<longleftrightarrow> bms_set a \<subseteq> bms_set b"
proof (cases "a = None \<or> b = None")
  case True
  then show ?thesis
    by (auto simp: bms_is_subset_def bms_is_empty_iff bms_set_subset_iff bms_set_empty_iff
        split: option.split)
next
  case False
  then obtain sa sb where ab: "a = Some sa" "b = Some sb" by auto
  show ?thesis
    unfolding ab bms_set_subset_iff all_wordat_iff [where P = "\<lambda>v w. v AND NOT w = 0", simplified]
    by (simp add: bms_is_subset_def for_return_False Let_def) auto
qed

lemma bms_overlap_iff: "bms_overlap a b \<longleftrightarrow> bms_set a \<inter> bms_set b \<noteq> {}"
proof (cases "a = None \<or> b = None")
  case True
  then show ?thesis
    by (auto simp: bms_overlap_def bms_set_disjoint_iff split: option.split)
next
  case False
  then obtain sa sb where ab: "a = Some sa" "b = Some sb" by auto
  show ?thesis
    unfolding ab bms_set_disjoint_iff all_wordat_iff [where P = "\<lambda>v w. v AND w = 0", simplified]
    by (simp add: bms_overlap_def for_return_True Let_def)
qed

lemma bms_nonempty_difference_iff: "bms_nonempty_difference a b \<longleftrightarrow> bms_set a - bms_set b \<noteq> {}"
proof (cases "a = None \<or> b = None")
  case True
  then show ?thesis
    by (auto simp: bms_nonempty_difference_def bms_is_empty_iff bms_set_def split: option.split)
next
  case False
  then obtain sa sb where ab: "a = Some sa" "b = Some sb" by auto
  have "bms_nonempty_difference a b \<longleftrightarrow> \<not> bms_set a \<subseteq> bms_set b"
    unfolding ab bms_set_subset_iff all_wordat_iff [where P = "\<lambda>v w. v AND NOT w = 0", simplified]
    by (simp add: bms_nonempty_difference_def for_return_True Let_def)
  then show ?thesis by blast
qed

declare num_low_order_zero_bits_loop.simps [simp del] bms_count_word.simps [simp del]
  push_bit_of_1 [simp del]
subsection \<open>Single members\<close>

lemma test_bit_and: "(w :: bitmapword) AND push_bit n 1 \<noteq> 0 \<longleftrightarrow> n < 32 \<and> bit w n"
  by (auto simp: word_zero_iff bit_simps)

lemma wordat_singleton:
  assumes "0 \<le> x" "x < 2 ^ 31"
  shows "\<exists>s. bms_make_singleton x = Inr (Some s) \<and> nwords s = nat x div 32 + 1 \<and>
    (\<forall>i. wordat (Some s) i = (if i = nat x div 32 then push_bit (nat x mod 32) 1 else 0))"
proof -
  let ?s = "\<lparr>words = (replicate (nat x div 32 + 1) 0)[nat x div 32 := push_bit (nat x mod 32) 1]\<rparr>"
  have "bms_make_singleton x = Inr (Some ?s)"
    using assms by (simp add: bms_make_singleton_def Let_def del: replicate_Suc)
  moreover have "wordat (Some ?s) i = (if i = nat x div 32 then push_bit (nat x mod 32) 1 else 0)" for i
    by (simp add: wordat_def nth_list_update del: replicate_Suc)
  ultimately show ?thesis by (intro exI [of _ ?s]) (simp del: replicate_Suc)
qed

lemma mem_bms_set_wordat: "n \<in> bms_set a \<longleftrightarrow> bit (wordat a (n div 32)) (n mod 32)"
  by (simp add: bms_set_def)

lemma bms_set_insertI:
  assumes "\<And>i. wordat b i = (if i = m div 32 then wordat a i OR push_bit (m mod 32) 1 else wordat a i)"
  shows "bms_set b = insert m (bms_set a)"
proof (rule set_eqI)
  fix n
  have "n div 32 = m div 32 \<and> n mod 32 = m mod 32 \<longleftrightarrow> n = m"
    by (metis div_mult_mod_eq)
  then show "n \<in> bms_set b \<longleftrightarrow> n \<in> insert m (bms_set a)"
    by (auto simp: mem_bms_set_wordat assms bit_simps)
qed

lemma bms_set_removeI:
  assumes "\<And>i. wordat b i = (if i = m div 32 then wordat a i AND NOT (push_bit (m mod 32) 1) else wordat a i)"
  shows "bms_set b = bms_set a - {m}"
proof (rule set_eqI)
  fix n
  have "n div 32 = m div 32 \<and> n mod 32 = m mod 32 \<longleftrightarrow> n = m"
    by (metis div_mult_mod_eq)
  then show "n \<in> bms_set b \<longleftrightarrow> n \<in> bms_set a - {m}"
    by (auto simp: mem_bms_set_wordat assms bit_simps)
qed

lemma bms_set_singleton:
  assumes "0 \<le> x" "x < 2 ^ 31"
  shows "\<exists>b. bms_make_singleton x = Inr b \<and> bms_set b = {nat x}"
proof -
  obtain s where s: "bms_make_singleton x = Inr (Some s)"
    "\<And>i. wordat (Some s) i = (if i = nat x div 32 then push_bit (nat x mod 32) 1 else 0)"
    using wordat_singleton [OF assms] by blast
  have "bms_set (Some s) = insert (nat x) (bms_set None)"
    by (rule bms_set_insertI) (simp add: s)
  then show ?thesis using s by (auto simp: bms_set_def [of None])
qed

lemma bms_set_add_member:
  assumes "0 \<le> x" "x < 2 ^ 31"
  shows "\<exists>b. bms_add_member a x = Inr b \<and> bms_set b = insert (nat x) (bms_set a)"
proof (cases a)
  case None
  then show ?thesis
    using bms_set_singleton [OF assms] assms by (auto simp: bms_add_member_def bms_set_def [of None])
next
  case (Some s)
  show ?thesis
  proof (cases "nwords s \<le> nat x div 32")
    case True
    obtain r where r: "bms_make_singleton x = Inr (Some r)" "nwords r = nat x div 32 + 1"
      "\<And>i. wordat (Some r) i = (if i = nat x div 32 then push_bit (nat x mod 32) 1 else 0)"
      using wordat_singleton [OF assms] by blast
    let ?b = "Some \<lparr>words = update_words 0 (nwords s) (\<lambda>i w. w OR words s ! i) (words r)\<rparr>"
    have "wordat ?b i = wordat (Some r) i OR wordat a i" for i
      using True Some r(2) by (simp add: wordat_def nth_update_words)
    then have "bms_set ?b = insert (nat x) (bms_set a)"
      by (intro bms_set_insertI) (simp add: r(3) ac_simps)
    then show ?thesis using Some True assms r(1) by (simp add: bms_add_member_def Let_def)
  next
    case False
    let ?b = "Some \<lparr>words = (words s)[nat x div 32 := words s ! (nat x div 32) OR push_bit (nat x mod 32) 1]\<rparr>"
    have "bms_set ?b = insert (nat x) (bms_set a)"
      using False Some by (intro bms_set_insertI) (auto simp: wordat_def nth_list_update)
    then show ?thesis using Some False assms by (simp add: bms_add_member_def Let_def)
  qed
qed

lemma bms_set_del_member:
  assumes "0 \<le> x" "x < 2 ^ 31"
  shows "\<exists>b. bms_del_member a x = Inr b \<and> bms_set b = bms_set a - {nat x}"
proof (cases a)
  case None
  then show ?thesis using assms by (auto simp: bms_del_member_def bms_set_def)
next
  case (Some s)
  show ?thesis
  proof (cases "nat x div 32 < nwords s")
    case True
    let ?b = "Some \<lparr>words = (words s)[nat x div 32 := words s ! (nat x div 32) AND NOT (push_bit (nat x mod 32) 1)]\<rparr>"
    have "bms_set ?b = bms_set a - {nat x}"
      using True Some by (intro bms_set_removeI) (auto simp: wordat_def nth_list_update)
    then show ?thesis using Some True assms by (simp add: bms_del_member_def Let_def)
  next
    case False
    then show ?thesis using Some assms
      by (auto simp: bms_del_member_def mem_bms_set_wordat wordat_def)
  qed
qed

lemma bms_is_member_iff:
  assumes "0 \<le> x" "x < 2 ^ 31"
  shows "bms_is_member x a = Inr (nat x \<in> bms_set a)"
  using assms by (auto simp: bms_is_member_def mem_bms_set_wordat wordat_def test_bit_and not_le
      split: option.split)

lemma bms_negative_member:
  assumes "x < 0"
  shows "bms_is_member x a = Inl NegativeMember" "bms_add_member a x = Inl NegativeMember"
    "bms_del_member a x = Inl NegativeMember" "bms_make_singleton x = Inl NegativeMember"
    "bms_covers_member a x = Inl NegativeMember"
  using assms by (simp_all add: bms_is_member_def bms_add_member_def bms_del_member_def
      bms_make_singleton_def bms_covers_member_def)


subsection \<open>Lowest bit of a word\<close>

definition low_bit :: "bitmapword \<Rightarrow> nat" where
  "low_bit w = (LEAST n. bit w n)"

lemma low_bit_props:
  assumes "w \<noteq> 0"
  shows "bit w (low_bit w)" "low_bit w < 32" "\<And>m. m < low_bit w \<Longrightarrow> \<not> bit w m"
proof -
  obtain n where "bit w n" using assms word_zero_iff by blast
  then show *: "bit w (low_bit w)" unfolding low_bit_def by (rule LeastI)
  then show "low_bit w < 32" using bit_imp_le_length [of w] by force
  show "\<And>m. m < low_bit w \<Longrightarrow> \<not> bit w m" unfolding low_bit_def by (rule not_less_Least)
qed

lemma low_bit_eqI: "bit w n \<Longrightarrow> (\<And>m. m < n \<Longrightarrow> \<not> bit w m) \<Longrightarrow> low_bit w = n"
  unfolding low_bit_def by (rule Least_equality) (auto simp: not_less [symmetric])

lemma low_bit_shift:
  assumes "w \<noteq> 0" "i \<le> low_bit w"
  shows "drop_bit i w \<noteq> 0 \<and> low_bit (drop_bit i w) = low_bit w - i"
proof -
  have b: "bit (drop_bit i w) (low_bit w - i)"
    using assms low_bit_props [OF assms(1)] by (simp add: bit_simps)
  moreover have "low_bit (drop_bit i w) = low_bit w - i"
    using b low_bit_props(3) [OF assms(1)] by (intro low_bit_eqI) (auto simp: bit_simps)
  ultimately show ?thesis by force
qed

lemma and_mask_zero_iff:
  assumes "i < 32"
  shows "(w :: bitmapword) AND (push_bit i 1 - 1) = 0 \<longleftrightarrow> (\<forall>n<i. \<not> bit w n)"
proof -
  have "push_bit i 1 - 1 = (mask i :: bitmapword)"
    by (simp add: mask_eq_exp_minus_1 push_bit_eq_mult)
  then have "w AND (push_bit i 1 - 1) = 0 \<longleftrightarrow> (\<forall>n<32. \<not> (bit w n \<and> n < i))"
    by (auto simp: word_zero_iff bit_simps)
  then show ?thesis using assms by (meson order.strict_trans)
qed

lemma zero_bits_step:
  assumes "w \<noteq> 0" "low_bit w < 2 * i" "0 < i" "i < 32" "i = 2 * j \<or> i = 1 \<and> j = 0"
  obtains w' x' where "num_low_order_zero_bits_loop i w x = num_low_order_zero_bits_loop j w' x'"
    "w' \<noteq> 0" "low_bit w' < i" "x' + low_bit w' = x + low_bit w"
proof (cases "i \<le> low_bit w")
  case True
  have "\<forall>n<i. \<not> bit w n" using True low_bit_props(3) [OF assms(1)] by auto
  then have "num_low_order_zero_bits_loop i w x = num_low_order_zero_bits_loop j (drop_bit i w) (x + i)"
    using assms by (subst num_low_order_zero_bits_loop.simps) (auto simp: and_mask_zero_iff)
  then show ?thesis
    using that [of "drop_bit i w" "x + i"] low_bit_shift [OF assms(1) True] True assms(2) by simp
next
  case False
  then have "\<not> (\<forall>n<i. \<not> bit w n)" using low_bit_props(1) [OF assms(1)] by (auto simp: not_le)
  then have "num_low_order_zero_bits_loop i w x = num_low_order_zero_bits_loop j w x"
    using assms by (subst num_low_order_zero_bits_loop.simps) (auto simp: and_mask_zero_iff)
  then show ?thesis using that [of w x] False assms(1) by simp
qed

lemma num_low_order_zero_bits_eq:
  assumes "w \<noteq> 0"
  shows "num_low_order_zero_bits w = low_bit w"
proof -
  have "low_bit w < 2 * 16" using low_bit_props(2) [OF assms] by simp
  from zero_bits_step [OF assms this, of 8 0]
  obtain w1 x1 where 1: "num_low_order_zero_bits_loop 16 w 0 = num_low_order_zero_bits_loop 8 w1 x1"
    "w1 \<noteq> 0" "low_bit w1 < 2 * 8" "x1 + low_bit w1 = low_bit w" by auto
  from zero_bits_step [OF 1(2,3), of 4 x1]
  obtain w2 x2 where 2: "num_low_order_zero_bits_loop 8 w1 x1 = num_low_order_zero_bits_loop 4 w2 x2"
    "w2 \<noteq> 0" "low_bit w2 < 2 * 4" "x2 + low_bit w2 = low_bit w" using 1(4) by auto
  from zero_bits_step [OF 2(2,3), of 2 x2]
  obtain w3 x3 where 3: "num_low_order_zero_bits_loop 4 w2 x2 = num_low_order_zero_bits_loop 2 w3 x3"
    "w3 \<noteq> 0" "low_bit w3 < 2 * 2" "x3 + low_bit w3 = low_bit w" using 2(4) by auto
  from zero_bits_step [OF 3(2,3), of 1 x3]
  obtain w4 x4 where 4: "num_low_order_zero_bits_loop 2 w3 x3 = num_low_order_zero_bits_loop 1 w4 x4"
    "w4 \<noteq> 0" "low_bit w4 < 2 * 1" "x4 + low_bit w4 = low_bit w" using 3(4) by auto
  from zero_bits_step [OF 4(2,3), of 0 x4]
  obtain w5 x5 where 5: "num_low_order_zero_bits_loop 1 w4 x4 = num_low_order_zero_bits_loop 0 w5 x5"
    "w5 \<noteq> 0" "low_bit w5 < 1" "x5 + low_bit w5 = low_bit w" using 4(4) by auto
  show ?thesis
    using 5 by (simp add: num_low_order_zero_bits_def 1(1) 2(1) 3(1) 4(1)
        num_low_order_zero_bits_loop.simps [of 0])
qed

lemma RIGHTMOST_ONE_eq:
  assumes "w \<noteq> 0"
  shows "RIGHTMOST_ONE w = push_bit (low_bit w) 1"
proof -
  define n where "n = low_bit w"
  define u where "u = drop_bit (Suc n) w"
  have n: "n < 32" "bit w n" "\<And>m. m < n \<Longrightarrow> \<not> bit w m"
    using low_bit_props [OF assms] by (simp_all add: n_def)
  have or: "2 * u + 1 = 2 * u OR 1"
    by (rule disjunctive_add) (auto simp: bit_double_iff bit_1_iff)
  have w: "w = push_bit n (2 * u + 1)"
  proof (rule bit_word_eqI)
    fix m assume "m < LENGTH(32)"
    then show "bit w m = bit (push_bit n (2 * u + 1)) m"
      using n unfolding or
      by (cases "m < n"; cases "m = n") (auto simp: u_def bit_simps bit_double_iff)
  qed
  have "- w = push_bit n (- (2 * u + 1))"
    by (subst w) (simp add: push_bit_eq_mult algebra_simps)
  also have "- (2 * u + 1) = NOT (2 * u)"
    by (simp add: not_eq_complement)
  finally have m: "- w = push_bit n (NOT (2 * u))" .
  have "w AND - w = push_bit n 1"
  proof (rule bit_word_eqI)
    fix m assume "m < LENGTH(32)"
    then show "bit (w AND - w) m = bit (push_bit n 1 :: bitmapword) m"
      using n unfolding m
      by (cases "m < n"; cases "m = n") (auto simp: u_def bit_simps bit_double_iff)
  qed
  then show ?thesis by (simp add: RIGHTMOST_ONE_def n_def)
qed

lemma HAS_MULTIPLE_ONES_iff:
  assumes "w \<noteq> 0"
  shows "HAS_MULTIPLE_ONES w \<longleftrightarrow> (\<exists>m. m \<noteq> low_bit w \<and> bit w m)"
proof -
  have "RIGHTMOST_ONE w = w \<longleftrightarrow> (\<forall>m. bit w m \<longrightarrow> m = low_bit w)"
  proof
    assume "RIGHTMOST_ONE w = w"
    then have "bit w m = bit (push_bit (low_bit w) 1 :: bitmapword) m" for m
      using RIGHTMOST_ONE_eq [OF assms] by simp
    then show "\<forall>m. bit w m \<longrightarrow> m = low_bit w"
      by (simp add: bit_push_bit_iff bit_1_iff)
  next
    assume a: "\<forall>m. bit w m \<longrightarrow> m = low_bit w"
    show "RIGHTMOST_ONE w = w"
      unfolding RIGHTMOST_ONE_eq [OF assms]
    proof (rule bit_word_eqI)
      fix m assume "m < LENGTH(32)"
      moreover have "bit w m \<longleftrightarrow> m = low_bit w"
        using a low_bit_props(1) [OF assms] by blast
      ultimately show "bit (push_bit (low_bit w) 1 :: bitmapword) m = bit w m"
        by (auto simp: bit_push_bit_iff bit_1_iff)
    qed
  qed
  then show ?thesis by (auto simp: HAS_MULTIPLE_ONES_def)
qed

subsection \<open>Counting\<close>

definition word_bits :: "bitmapword \<Rightarrow> nat set" where
  "word_bits w = {n. bit w n}"

lemma word_bits_finite [simp]: "finite (word_bits w)"
  by (simp add: word_bits_def)

fun popcount :: "nat \<Rightarrow> nat \<Rightarrow> nat" where
  "popcount 0 n = 0"
| "popcount (Suc k) n = n mod 2 + popcount k (n div 2)"

lemma popcount_card: "popcount k n = card {i. i < k \<and> bit n i}"
proof (induction k arbitrary: n)
  case 0
  then show ?case by simp
next
  case (Suc k)
  have "{i. i < Suc k \<and> bit n i} = {i. i = 0 \<and> odd n} \<union> Suc ` {i. i < k \<and> bit (n div 2) i}"
    by (auto simp: bit_Suc image_iff less_Suc_eq_0_disj bit_0)
  moreover have "card \<dots> = card {i::nat. i = 0 \<and> odd n} + card (Suc ` {i. i < k \<and> bit (n div 2) i})"
    by (rule card_Un_disjoint) auto
  ultimately show ?case
    by (simp add: Suc card_image mod_2_eq_odd)
qed

lemma number_of_ones_eq: "number_of_ones = map (popcount 8) [0..<256]"
  by code_simp

lemma number_of_ones_nth: "n < 256 \<Longrightarrow> number_of_ones ! n = card {i. i < 8 \<and> bit n i}"
  by (simp add: number_of_ones_eq popcount_card)

lemma number_of_ones_word:
  "number_of_ones ! unat (w AND 255) = card {i. i < 8 \<and> bit (w :: bitmapword) i}"
proof -
  have m: "w AND 255 = take_bit 8 w"
    by (simp add: take_bit_eq_mask mask_eq_exp_minus_1)
  have "unat (take_bit 8 w) < 256"
    by (simp add: unsigned_take_bit_eq take_bit_nat_less_exp [of 8, simplified])
  then have "number_of_ones ! unat (w AND 255) = card {i. i < 8 \<and> bit (unat (take_bit 8 w)) i}"
    unfolding m by (rule number_of_ones_nth)
  also have "{i. i < 8 \<and> bit (unat (take_bit 8 w)) i} = {i. i < 8 \<and> bit w i}"
    by (auto simp: bit_simps)
  finally show ?thesis .
qed

lemma bms_count_word_eq: "bms_count_word w r = r + card (word_bits w)"
proof (induction w r rule: bms_count_word.induct)
  case (1 w r)
  show ?case
  proof (cases "w = 0")
    case True
    then show ?thesis by (simp add: bms_count_word.simps word_bits_def)
  next
    case False
    have "word_bits w = {i. i < 8 \<and> bit w i} \<union> (\<lambda>i. i + 8) ` word_bits (drop_bit 8 w)"
    proof (rule set_eqI)
      fix i
      show "i \<in> word_bits w \<longleftrightarrow> i \<in> {i. i < 8 \<and> bit w i} \<union> (\<lambda>i. i + 8) ` word_bits (drop_bit 8 w)"
        by (cases "i < 8") (auto simp: word_bits_def bit_simps image_iff add.commute intro: exI [of _ "i - 8"])
    qed
    moreover have "card \<dots> = card {i. i < 8 \<and> bit w i} + card ((\<lambda>i. i + 8) ` word_bits (drop_bit 8 w))"
      by (rule card_Un_disjoint) auto
    moreover have "card ((\<lambda>i. i + 8) ` word_bits (drop_bit 8 w)) = card (word_bits (drop_bit 8 w))"
      by (rule card_image) (simp add: inj_on_def)
    ultimately show ?thesis
      using 1 [OF False] False by (subst bms_count_word.simps) (simp add: number_of_ones_word)
  qed
qed

text \<open>The members below word \<open>k\<close>; each word adds a block of 32 candidates.\<close>

definition members_below :: "bms \<Rightarrow> nat \<Rightarrow> nat set" where
  "members_below a k = {n \<in> bms_set a. n < 32 * k}"

lemma members_below_0 [simp]: "members_below a 0 = {}"
  by (simp add: members_below_def)

lemma members_below_finite [simp]: "finite (members_below a k)"
  by (simp add: members_below_def)

lemma members_below_Suc:
  "members_below a (Suc k) = members_below a k \<union> (\<lambda>b. k * 32 + b) ` word_bits (wordat a k)"
proof (rule set_eqI)
  fix n
  show "n \<in> members_below a (Suc k) \<longleftrightarrow>
      n \<in> members_below a k \<union> (\<lambda>b. k * 32 + b) ` word_bits (wordat a k)"
  proof (cases "n < 32 * k")
    case True
    then show ?thesis by (auto simp: members_below_def)
  next
    case False
    then obtain b where b: "n = k * 32 + b" by (metis add.commute le_Suc_ex mult.commute not_less)
    then show ?thesis
      using bit_imp_le_length [of "wordat a k"] mem_bms_set_index [of b k a]
      by (auto simp: members_below_def word_bits_def)
  qed
qed

lemma members_below_Suc_disjoint:
  "members_below a k \<inter> (\<lambda>b. k * 32 + b) ` word_bits (wordat a k) = {}"
  by (auto simp: members_below_def)

lemma members_below_nwords: "members_below (Some s) (nwords s) = bms_set (Some s)"
proof -
  have "n < 32 * nwords s" if "n \<in> bms_set (Some s)" for n
    using that by (auto simp: mem_bms_set_wordat wordat_def split: if_splits)
  then show ?thesis by (auto simp: members_below_def)
qed

lemma bms_set_finite [simp]: "finite (bms_set a)"
  by (cases a) (simp add: bms_set_def, metis members_below_finite members_below_nwords)

lemma bms_num_members_eq: "bms_num_members a = card (bms_set a)"
proof (cases a)
  case None
  then show ?thesis by (simp add: bms_num_members_def bms_set_def)
next
  case (Some s)
  let ?f = "\<lambda>wordnum result. bms_count_word (words s ! wordnum) result"
  have "for_range 0 (nwords s) ?f 0 = card (members_below a (nwords s))"
  proof (rule for_range_induct [where P = "\<lambda>k r. r = card (members_below a k)"])
    fix i t assume step: "i < nwords s" "t = card (members_below a i)"
    have "card (members_below a (Suc i)) = card (members_below a i) +
        card ((\<lambda>b. i * 32 + b) ` word_bits (wordat a i))"
      unfolding members_below_Suc
      by (rule card_Un_disjoint) (simp_all add: members_below_Suc_disjoint)
    also have "card ((\<lambda>b. i * 32 + b) ` word_bits (wordat a i)) = card (word_bits (wordat a i))"
      by (rule card_image) (simp add: inj_on_def)
    finally show "bms_count_word (words s ! i) t = card (members_below a (Suc i))"
      using step Some by (simp add: bms_count_word_eq wordat_def)
  qed simp_all
  then show ?thesis
    using Some by (simp add: bms_num_members_def members_below_nwords)
qed

subsection \<open>The size classes and the sole member\<close>

lemma word_bits_eq_empty_iff: "word_bits w = {} \<longleftrightarrow> w = 0"
  by (auto simp: word_bits_def intro: bit_word_eqI)

lemma word_bits_single:
  assumes "w \<noteq> 0" "\<not> HAS_MULTIPLE_ONES w"
  shows "word_bits w = {num_low_order_zero_bits w}"
  using assms low_bit_props(1) [of w]
  by (auto simp: word_bits_def HAS_MULTIPLE_ONES_iff num_low_order_zero_bits_eq)

lemma word_bits_multiple:
  assumes "w \<noteq> 0" "HAS_MULTIPLE_ONES w"
  obtains b c where "b \<in> word_bits w" "c \<in> word_bits w" "b \<noteq> c"
  using assms low_bit_props(1) [of w]
  by (auto simp: word_bits_def HAS_MULTIPLE_ONES_iff)

lemma members_below_mono: "j \<le> k \<Longrightarrow> members_below a j \<subseteq> members_below a k"
  by (auto simp: members_below_def)

lemma two_members:
  assumes "b \<in> A" "c \<in> A" "b \<noteq> c" "finite A"
  shows "2 \<le> card A"
  using card_mono [OF assms(4), of "{b, c}"] assms by simp

text \<open>
  One lemma covers both loops: after word \<open>k\<close> the members found so far are empty, are the
  one recorded, or the loop has left the function and the set has two members.
\<close>

lemma two_members_below:
  assumes "i < nwords s" "members_below (Some s) i \<noteq> {} \<or> HAS_MULTIPLE_ONES (words s ! i)"
    "words s ! i \<noteq> 0"
  shows "2 \<le> card (bms_set (Some s))"
proof -
  have w: "wordat (Some s) i = words s ! i" using assms(1) by (simp add: wordat_def)
  have sub: "members_below (Some s) (Suc i) \<subseteq> bms_set (Some s)" by (auto simp: members_below_def)
  obtain b where b: "b \<in> word_bits (words s ! i)" using assms(3) word_bits_eq_empty_iff by blast
  have "2 \<le> card (members_below (Some s) (Suc i))"
  proof (cases "members_below (Some s) i = {}")
    case False
    then obtain m where m: "m \<in> members_below (Some s) i" by blast
    then have "m \<in> members_below (Some s) (Suc i)" "i * 32 + b \<in> members_below (Some s) (Suc i)"
      using b by (simp_all add: members_below_Suc w)
    moreover have "m \<noteq> i * 32 + b" using m by (auto simp: members_below_def)
    ultimately show ?thesis by (intro two_members) simp_all
  next
    case True
    then obtain b c where "b \<in> word_bits (words s ! i)" "c \<in> word_bits (words s ! i)" "b \<noteq> c"
      using assms by (metis word_bits_multiple)
    then have "i * 32 + b \<in> members_below (Some s) (Suc i)" "i * 32 + c \<in> members_below (Some s) (Suc i)"
      by (simp_all add: members_below_Suc w)
    then show ?thesis using \<open>b \<noteq> c\<close> by (intro two_members [of "i * 32 + b" _ "i * 32 + c"]) simp_all
  qed
  also have "\<dots> \<le> card (bms_set (Some s))" by (rule card_mono [OF bms_set_finite sub])
  finally show ?thesis .
qed

lemma members_below_Suc_single:
  assumes "i < nwords s" "members_below (Some s) i = {}" "words s ! i \<noteq> 0"
    "\<not> HAS_MULTIPLE_ONES (words s ! i)"
  shows "members_below (Some s) (Suc i) = {num_low_order_zero_bits (words s ! i) + i * 32}"
proof -
  have "wordat (Some s) i = words s ! i" using assms(1) by (simp add: wordat_def)
  then show ?thesis
    using assms word_bits_single [of "words s ! i"] by (simp add: members_below_Suc add.commute)
qed

lemma members_below_Suc_zero:
  "i < nwords s \<Longrightarrow> words s ! i = 0 \<Longrightarrow> members_below (Some s) (Suc i) = members_below (Some s) i"
  by (simp add: members_below_Suc wordat_def word_bits_def)

definition sole_member :: "nat set \<Rightarrow> bms_error + int" where
  "sole_member A = (if A = {} then Inl BitmapsetEmpty
     else if card A = 1 then Inr (int (Min A)) else Inl BitmapsetMultiple)"

lemma bms_singleton_member_eq: "bms_singleton_member a = sole_member (bms_set a)"
proof (cases a)
  case None
  then show ?thesis by (simp add: bms_singleton_member_def sole_member_def bms_set_def)
next
  case (Some s)
  let ?f = "\<lambda>wordnum result. let w = words s ! wordnum
     in if w \<noteq> 0 then
          if 0 \<le> result \<or> HAS_MULTIPLE_ONES w then Inl BitmapsetMultiple
          else Inr (int (num_low_order_zero_bits w + wordnum * 32))
        else Inr result"
  let ?P = "\<lambda>k r. case r of
      Inl e \<Rightarrow> e = BitmapsetMultiple \<and> 2 \<le> card (bms_set a)
    | Inr result \<Rightarrow> (result = -1 \<and> members_below a k = {}) \<or>
        (\<exists>m. result = int m \<and> members_below a k = {m})"
  have "?P k (for_result 0 k ?f (-1))" if "k \<le> nwords s" for k
    using that
  proof (induction k)
    case (Suc i)
    then have i: "i < nwords s" and IH: "?P i (for_result 0 i ?f (-1))" by simp_all
    show ?case
    proof (cases "for_result 0 i ?f (-1)")
      case (Inl e)
      then show ?thesis using IH by (simp add: for_result_Suc)
    next
      case (Inr result)
      then have step: "for_result 0 (Suc i) ?f (-1) = ?f i result" by (simp add: for_result_Suc)
      show ?thesis
        using IH Inr i two_members_below [OF i] members_below_Suc_single [OF i]
          members_below_Suc_zero [OF i] unfolding step Some
        by (auto simp: Let_def)
    qed
  qed simp
  from this [of "nwords s"] show ?thesis
    using Some members_below_nwords [of s]
    by (auto simp: bms_singleton_member_def sole_member_def split: sum.splits)
qed

definition membership_class :: "nat set \<Rightarrow> BMS_Membership" where
  "membership_class A = (if A = {} then BMS_EMPTY_SET
     else if card A = 1 then BMS_SINGLETON else BMS_MULTIPLE)"

lemma bms_membership_eq: "bms_membership a = membership_class (bms_set a)"
proof (cases a)
  case None
  then show ?thesis by (simp add: bms_membership_def membership_class_def bms_set_def)
next
  case (Some s)
  let ?f = "\<lambda>wordnum result. let w = words s ! wordnum
     in if w \<noteq> 0 then
          if result \<noteq> BMS_EMPTY_SET \<or> HAS_MULTIPLE_ONES w then Inl BMS_MULTIPLE
          else Inr BMS_SINGLETON
        else Inr result"
  let ?P = "\<lambda>k r. case r of
      Inl e \<Rightarrow> e = BMS_MULTIPLE \<and> 2 \<le> card (bms_set a)
    | Inr result \<Rightarrow> (result = BMS_EMPTY_SET \<and> members_below a k = {}) \<or>
        (\<exists>m. result = BMS_SINGLETON \<and> members_below a k = {m})"
  have "?P k (for_result 0 k ?f BMS_EMPTY_SET)" if "k \<le> nwords s" for k
    using that
  proof (induction k)
    case (Suc i)
    then have i: "i < nwords s" and IH: "?P i (for_result 0 i ?f BMS_EMPTY_SET)" by simp_all
    show ?case
    proof (cases "for_result 0 i ?f BMS_EMPTY_SET")
      case (Inl e)
      then show ?thesis using IH by (simp add: for_result_Suc)
    next
      case (Inr result)
      then have step: "for_result 0 (Suc i) ?f BMS_EMPTY_SET = ?f i result" by (simp add: for_result_Suc)
      show ?thesis
        using IH Inr i two_members_below [OF i] members_below_Suc_single [OF i]
          members_below_Suc_zero [OF i] unfolding step Some
        by (auto simp: Let_def)
    qed
  qed simp
  from this [of "nwords s"] show ?thesis
    using Some members_below_nwords [of s]
    by (auto simp: bms_membership_def membership_class_def split: sum.splits)
qed

subsection \<open>Iteration\<close>

definition first_ge :: "nat set \<Rightarrow> nat \<Rightarrow> int" where
  "first_ge A k = (if \<exists>n\<in>A. k \<le> n then int (LEAST n. n \<in> A \<and> k \<le> n) else -1)"

lemma first_ge_eqI:
  assumes "m \<in> A" "k \<le> m" "\<And>n. n \<in> A \<Longrightarrow> k \<le> n \<Longrightarrow> m \<le> n"
  shows "first_ge A k = int m"
proof -
  have "(LEAST n. n \<in> A \<and> k \<le> n) = m" using assms by (intro Least_equality) auto
  then show ?thesis using assms by (auto simp: first_ge_def)
qed

lemma first_ge_none: "(\<And>n. n \<in> A \<Longrightarrow> n < k) \<Longrightarrow> first_ge A k = -1"
  by (auto simp: first_ge_def not_le [symmetric])

lemma low_member:
  assumes "w = wordat a i" "w \<noteq> 0" "\<And>n. n \<in> bms_set a \<Longrightarrow> k \<le> n \<Longrightarrow> i * 32 \<le> n" "k \<le> i * 32"
  shows "first_ge (bms_set a) k = int (i * 32 + num_low_order_zero_bits w)"
proof (rule first_ge_eqI)
  note low = low_bit_props [OF assms(2)] num_low_order_zero_bits_eq [OF assms(2)]
  show "i * 32 + num_low_order_zero_bits w \<in> bms_set a"
    using low assms(1) by (simp add: mem_bms_set_index)
  show "k \<le> i * 32 + num_low_order_zero_bits w" using assms(4) by simp
  fix n assume n: "n \<in> bms_set a" "k \<le> n"
  then have "i * 32 \<le> n" by (rule assms(3))
  then obtain b where b: "n = i * 32 + b" using le_Suc_ex by blast
  show "i * 32 + num_low_order_zero_bits w \<le> n"
  proof (rule ccontr)
    assume "\<not> ?thesis"
    then have "b < low_bit w" using b low by simp
    then show False using n(1) low(2) low(3) [of b] assms(1) b mem_bms_set_index [of b i a] by simp
  qed
qed

lemma bms_first_from_eq:
  assumes "0 \<le> x" "x < 2 ^ 31"
  shows "bms_first_from a x = first_ge (bms_set a) (nat x)"
proof (cases a)
  case None
  then show ?thesis by (simp add: bms_first_from_def first_ge_def bms_set_def)
next
  case (Some s)
  define i where "i = nat x div 32"
  define w where "w = drop_bit (nat x mod 32) (wordat a i)"
  have x: "nat x = i * 32 + nat x mod 32" "nat x mod 32 < 32" by (simp_all add: i_def)
  show ?thesis
  proof (cases "i < nwords s")
    case False
    have "n < nat x" if "n \<in> bms_set a" for n
    proof -
      have "n div 32 < nwords s" using that Some by (auto simp: mem_bms_set_wordat wordat_def split: if_splits)
      then have "n div 32 < nat x div 32" using False i_def by simp
      then show ?thesis by (meson div_le_mono not_le)
    qed
    then show ?thesis
      using False Some assms by (simp add: bms_first_from_def first_ge_none i_def)
  next
    case True
    have above: "w = 0 \<Longrightarrow> n \<in> bms_set a \<Longrightarrow> nat x \<le> n \<Longrightarrow> (i + 1) * 32 \<le> n" for n
    proof (rule ccontr)
      assume h: "w = 0" "n \<in> bms_set a" "nat x \<le> n" "\<not> (i + 1) * 32 \<le> n"
      then have "n div 32 = i" using x by (metis i_def div_le_mono le_antisym less_mult_imp_div_less linorder_not_le Suc_eq_plus1 less_Suc_eq_le)
      then have "bit (wordat a i) (n mod 32)" "nat x mod 32 \<le> n mod 32"
        using h(2,3) x by (simp_all add: mem_bms_set_wordat) (metis add_le_cancel_left div_mult_mod_eq)
      then have "bit w (n mod 32 - nat x mod 32)" by (simp add: w_def bit_simps)
      then show False using h(1) by simp
    qed
    let ?g = "\<lambda>wordnum. let w = words s ! wordnum
       in if w \<noteq> 0 then Some (int (wordnum * 32 + num_low_order_zero_bits w)) else None"
    have "w = drop_bit (BITNUM x) (words s ! i)" "WORDNUM x = i"
      using Some True assms by (simp_all add: wordat_def w_def i_def)
    then have code: "bms_first_from a x = (if w AND 1 \<noteq> 0 then x
        else if w \<noteq> 0 then x + int (num_low_order_zero_bits w)
        else case for_return (i + 1) (nwords s) ?g of Some r \<Rightarrow> r | None \<Rightarrow> -1)"
      using Some True by (simp add: bms_first_from_def Let_def)
    show ?thesis
    proof (cases "w = 0")
      case False
      have "first_ge (bms_set a) (nat x) = int (nat x + low_bit w)"
      proof (rule first_ge_eqI)
        have lt: "nat x mod 32 + low_bit w < 32"
          using low_bit_props(1) [OF False] bit_imp_le_length [of "wordat a i"] by (force simp: w_def bit_simps)
        then show "nat x + low_bit w \<in> bms_set a"
          using low_bit_props(1) [OF False] x mem_bms_set_index [of "nat x mod 32 + low_bit w" i a]
          by (simp add: w_def bit_simps add.assoc [symmetric])
        fix n assume n: "n \<in> bms_set a" "nat x \<le> n"
        show "nat x + low_bit w \<le> n"
        proof (rule ccontr)
          assume "\<not> ?thesis"
          then obtain d where d: "n = nat x + d" "d < low_bit w" using n(2) le_Suc_ex by fastforce
          then have "n = i * 32 + (nat x mod 32 + d)" "nat x mod 32 + d < 32" using x lt by simp_all
          then have "bit (wordat a i) (nat x mod 32 + d)" using n(1) mem_bms_set_index by metis
          then have "bit w d" by (simp add: w_def bit_simps)
          then show False using low_bit_props(3) [OF False d(2)] by simp
        qed
      qed simp
      moreover have "w AND 1 \<noteq> 0 \<Longrightarrow> low_bit w = 0"
        by (intro low_bit_eqI) (simp_all add: and_one_eq bit_0 odd_iff_mod_2_eq_one split: if_splits)
      ultimately show ?thesis
        using False assms num_low_order_zero_bits_eq [OF False] by (simp add: code)
    next
      case True
      have mem: "n \<in> bms_set a \<Longrightarrow> n div 32 < nwords s \<and> words s ! (n div 32) \<noteq> 0" for n
        using Some by (auto simp: mem_bms_set_wordat wordat_def split: if_splits)
      have ge: "n \<in> bms_set a \<Longrightarrow> nat x \<le> n \<Longrightarrow> i + 1 \<le> n div 32" for n
        using above [OF True] by (metis div_le_mono div_mult_self_is_m zero_less_numeral)
      show ?thesis
      proof (cases "for_return (i + 1) (nwords s) ?g")
        case None
        then have "\<forall>j. i + 1 \<le> j \<and> j < nwords s \<longrightarrow> words s ! j = 0"
          by (auto simp: for_return_None_iff Let_def split: if_splits)
        then have "n \<in> bms_set a \<Longrightarrow> n < nat x" for n
          using mem [of n] ge [of n] by (meson not_le)
        then show ?thesis using True unfolding code None by (simp add: first_ge_none)
      next
        case (Some r)
        then obtain j where j1: "i + 1 \<le> j" "j < nwords s" "?g j = Some r"
            "\<forall>k. i + 1 \<le> k \<and> k < j \<longrightarrow> ?g k = None"
          unfolding for_return_Some_iff by blast
        then have j: "i + 1 \<le> j" "j < nwords s" "words s ! j \<noteq> 0"
            "r = int (j * 32 + num_low_order_zero_bits (words s ! j))"
            "\<forall>k. i + 1 \<le> k \<and> k < j \<longrightarrow> words s ! k = 0"
          by (auto simp: Let_def split: if_splits)
        have "first_ge (bms_set a) (nat x) = int (j * 32 + num_low_order_zero_bits (words s ! j))"
        proof (rule low_member)
          show "words s ! j = wordat a j" using \<open>a = Some s\<close> j(2) by (simp add: wordat_def)
          show "nat x \<le> j * 32" using x j(1) by linarith
          fix n assume n: "n \<in> bms_set a" "nat x \<le> n"
          then have "\<not> n div 32 < j" using j(5) mem [OF n(1)] ge [OF n] by blast
          then show "j * 32 \<le> n" by (meson div_le_mono leI div_times_less_eq_dividend le_trans mult_le_mono1)
        qed (rule j(3))
        then show ?thesis using True unfolding code Some by (simp add: j(4))
      qed
    qed
  qed
qed

lemma first_ge_0: "finite A \<Longrightarrow> A \<noteq> {} \<Longrightarrow> first_ge A 0 = int (Min A)"
  by (intro first_ge_eqI) auto

lemma bms_first_member_empty:
  assumes "bms_set a = {}"
  shows "bms_first_member a = (-1, a)"
proof (cases a)
  case (Some s)
  have "\<forall>i<nwords s. words s ! i = 0"
    using assms Some by (auto simp: bms_set_empty_iff wordat_def split: if_splits)
  then have "for_return 0 (nwords s)
             (\<lambda>wordnum. let w = words s ! wordnum
                in if w \<noteq> 0 then
                     let w = RIGHTMOST_ONE w
                     in Some (int (num_low_order_zero_bits w + wordnum * 32),
                              Some \<lparr>words = (words s)[wordnum := words s ! wordnum AND NOT w]\<rparr>)
                   else None) = None"
    by (simp add: for_return_None_iff Let_def)
  then show ?thesis using Some by (simp add: bms_first_member_def)
qed (simp add: bms_first_member_def)

lemma low_bit_push: "n < 32 \<Longrightarrow> low_bit (push_bit n 1) = n"
  by (rule low_bit_eqI) (auto simp: bit_simps)

lemma bms_first_member_nonempty:
  assumes "bms_set a \<noteq> {}"
  shows "\<exists>b. bms_first_member a = (int (Min (bms_set a)), b) \<and>
    bms_set b = bms_set a - {Min (bms_set a)}"
proof (cases a)
  case None
  then show ?thesis using assms by (simp add: bms_set_def)
next
  case (Some s)
  let ?g = "\<lambda>wordnum. let w = words s ! wordnum
     in if w \<noteq> 0 then
          let w = RIGHTMOST_ONE w
          in Some (int (num_low_order_zero_bits w + wordnum * 32),
                   Some \<lparr>words = (words s)[wordnum := words s ! wordnum AND NOT w]\<rparr>)
        else None"
  have mem: "n \<in> bms_set a \<Longrightarrow> n div 32 < nwords s \<and> words s ! (n div 32) \<noteq> 0" for n
    using Some by (auto simp: mem_bms_set_wordat wordat_def split: if_splits)
  have "for_return 0 (nwords s) ?g \<noteq> None"
    using assms mem by (auto simp: for_return_None_iff Let_def)
  then obtain r where r: "for_return 0 (nwords s) ?g = Some r" by blast
  then obtain j where j1: "j < nwords s" "?g j = Some r" "\<forall>k. 0 \<le> k \<and> k < j \<longrightarrow> ?g k = None"
    unfolding for_return_Some_iff by blast
  then have j: "j < nwords s" "words s ! j \<noteq> 0" "\<forall>k<j. words s ! k = 0"
    by (auto simp: Let_def split: if_splits)
  have w: "words s ! j = wordat a j" using Some j(1) by (simp add: wordat_def)
  note low = low_bit_props [OF j(2)]
  define m where "m = j * 32 + low_bit (words s ! j)"
  have "first_ge (bms_set a) 0 = int (j * 32 + num_low_order_zero_bits (words s ! j))"
  proof (rule low_member [OF w j(2)])
    fix n assume "n \<in> bms_set a"
    then have "\<not> n div 32 < j" using j(3) mem by blast
    then show "j * 32 \<le> n" by (meson leI div_times_less_eq_dividend le_trans mult_le_mono1)
  qed simp
  then have min: "Min (bms_set a) = m"
    using first_ge_0 [OF bms_set_finite assms] num_low_order_zero_bits_eq [OF j(2)] by (simp add: m_def)
  have one: "RIGHTMOST_ONE (words s ! j) = push_bit (m mod 32) 1" "m div 32 = j"
    using RIGHTMOST_ONE_eq [OF j(2)] low(2) by (simp_all add: m_def)
  have "push_bit (m mod 32) 1 \<noteq> (0 :: bitmapword)" using test_bit_and [of "push_bit (m mod 32) 1" "m mod 32"] by (auto simp: bit_simps)
  then have "num_low_order_zero_bits (RIGHTMOST_ONE (words s ! j)) = m mod 32"
    by (simp add: one num_low_order_zero_bits_eq low_bit_push)
  moreover have "m mod 32 + j * 32 = m" using one(2) by (metis add.commute div_mult_mod_eq)
  ultimately have "fst r = int m" "snd r = Some \<lparr>words = (words s)[j := words s ! j AND NOT (push_bit (m mod 32) 1)]\<rparr>"
    using j(2) j1(2) one(1) by (auto simp: Let_def)
  moreover from this(2) have "bms_set (snd r) = bms_set a - {m}"
    using one(2) j(1) Some by (intro bms_set_removeI) (auto simp: wordat_def nth_list_update)
  moreover have "bms_first_member a = r"
    unfolding bms_first_member_def Some option.case r ..
  ultimately show ?thesis
    using min by (metis prod.collapse)
qed

subsection \<open>Comparison\<close>

definition word_cmp :: "bms \<Rightarrow> bms \<Rightarrow> nat \<Rightarrow> int" where
  "word_cmp a b i = (if wordat a i < wordat b i then -1 else if wordat b i < wordat a i then 1 else 0)"

definition differs_at :: "bms \<Rightarrow> bms \<Rightarrow> nat \<Rightarrow> bool" where
  "differs_at a b i \<longleftrightarrow> wordat a i \<noteq> wordat b i \<and> (\<forall>j<i. wordat a j = wordat b j)"

lemma word_cmp_0_iff: "word_cmp a b i = 0 \<longleftrightarrow> wordat a i = wordat b i"
  by (auto simp: word_cmp_def)

lemma first_difference:
  assumes "\<exists>i. wordat a i \<noteq> wordat b i"
  obtains i where "differs_at a b i"
proof -
  let ?i = "LEAST i. wordat a i \<noteq> wordat b i"
  have "wordat a ?i \<noteq> wordat b ?i" by (rule LeastI_ex [OF assms])
  moreover have "\<forall>j<?i. wordat a j = wordat b j" using not_less_Least by blast
  ultimately have "differs_at a b ?i" unfolding differs_at_def by blast
  then show ?thesis by (rule that)
qed

lemma bms_compare_equal: "bms_set a = bms_set b \<Longrightarrow> bms_compare a b = 0"
proof -
  assume eq: "bms_set a = bms_set b"
  show ?thesis
  proof (cases "a = None \<or> b = None")
    case True
    then show ?thesis
      using eq by (auto simp: bms_compare_def bms_is_empty_iff bms_set_def [of None] split: option.split)
  next
    case False
    then obtain sa sb where ab: "a = Some sa" "b = Some sb" by auto
    have w: "wordat (Some sa) i = wordat (Some sb) i" for i using eq ab by (simp add: bms_set_eq_iff)
    have "i < nwords sa \<Longrightarrow> i < nwords sb \<Longrightarrow> words sa ! i = words sb ! i"
        "i < nwords sa \<Longrightarrow> \<not> i < nwords sb \<Longrightarrow> words sa ! i = 0"
        "\<not> i < nwords sa \<Longrightarrow> i < nwords sb \<Longrightarrow> words sb ! i = 0" for i
      using w [of i] by (simp_all add: wordat_def)
    note w = this
    let ?f = "\<lambda>i. if words sa ! i < words sb ! i then Some (- 1 :: int)
                 else if words sb ! i < words sa ! i then Some 1 else None"
    have "for_return 0 (min (nwords sa) (nwords sb)) ?f = None"
      unfolding for_return_None_iff using w by auto
    moreover have "for_return (nwords sa) (nwords sb) (\<lambda>i. if words sb ! i \<noteq> 0 then Some (-1 :: int) else None) = None"
        "for_return (nwords sb) (nwords sa) (\<lambda>i. if words sa ! i \<noteq> 0 then Some (1 :: int) else None) = None"
      unfolding for_return_None_iff using w by auto
    ultimately show ?thesis
      unfolding bms_compare_def ab by (cases "nwords sa \<le> nwords sb") (simp_all add: Let_def)
  qed
qed

lemma bms_compare_differs: "differs_at a b i \<Longrightarrow> bms_compare a b = word_cmp a b i"
proof -
  assume d: "differs_at a b i"
  show ?thesis
  proof (cases "a = None \<or> b = None")
    case True
    then show ?thesis
      using d word_gt_0 [of "wordat a i"] word_gt_0 [of "wordat b i"]
      by (auto simp: bms_compare_def bms_is_empty_iff bms_set_empty_iff differs_at_def word_cmp_def
          split: option.split)
  next
    case False
    then obtain sa sb where ab: "a = Some sa" "b = Some sb" by auto
    let ?m = "min (nwords sa) (nwords sb)"
    let ?f = "\<lambda>i. if words sa ! i < words sb ! i then Some (- 1 :: int)
                 else if words sb ! i < words sa ! i then Some 1 else None"
    have eq: "j < i \<Longrightarrow> wordat (Some sa) j = wordat (Some sb) j" for j using d ab by (simp add: differs_at_def)
    have ne: "wordat (Some sa) i \<noteq> wordat (Some sb) i" using d ab by (simp add: differs_at_def)
    show ?thesis
    proof (cases "i < ?m")
      case True
      have "for_return 0 ?m ?f = Some (word_cmp a b i)"
        unfolding for_return_Some_iff
      proof (intro exI [of _ i] conjI allI impI)
        show "?f i = Some (word_cmp a b i)" using True ne by (auto simp: ab word_cmp_def wordat_def)
        fix j assume "0 \<le> j \<and> j < i"
        then show "?f j = None" using eq [of j] True by (auto simp: wordat_def)
      qed (use True in simp_all)
      then show ?thesis
        unfolding bms_compare_def ab by (cases "nwords sa \<le> nwords sb") (simp_all add: Let_def)
    next
      case False
      have none: "for_return 0 ?m ?f = None"
        unfolding for_return_None_iff
      proof (intro allI impI)
        fix j assume "0 \<le> j \<and> j < ?m"
        then show "?f j = None" using eq [of j] False by (auto simp: wordat_def)
      qed
      show ?thesis
      proof (cases "nwords sa \<le> nwords sb")
        case True
        then have i: "nwords sa \<le> i" "i < nwords sb" "words sb ! i \<noteq> 0"
          using False ne by (auto simp: wordat_def split: if_splits)
        then have "for_return (nwords sa) (nwords sb) (\<lambda>i. if words sb ! i \<noteq> 0 then Some (-1) else None) = Some (-1 :: int)"
          unfolding for_return_const by auto
        moreover have "word_cmp a b i = -1" using i by (simp add: word_cmp_def ab wordat_def word_gt_0)
        ultimately show ?thesis using none True unfolding bms_compare_def ab by (simp add: Let_def)
      next
        case h: False
        then have i: "nwords sb \<le> i" "i < nwords sa" "words sa ! i \<noteq> 0"
          using False ne by (auto simp: wordat_def split: if_splits)
        then have "for_return (nwords sb) (nwords sa) (\<lambda>i. if words sa ! i \<noteq> 0 then Some 1 else None) = Some (1 :: int)"
          unfolding for_return_const by auto
        moreover have "word_cmp a b i = 1" using i by (simp add: word_cmp_def ab wordat_def word_gt_0)
        ultimately show ?thesis using none h unfolding bms_compare_def ab by (simp add: Let_def)
      qed
    qed
  qed
qed

lemma bms_compare_0_iff: "bms_compare a b = 0 \<longleftrightarrow> bms_set a = bms_set b"
proof
  assume 0: "bms_compare a b = 0"
  show "bms_set a = bms_set b"
  proof (rule ccontr)
    assume "bms_set a \<noteq> bms_set b"
    then obtain i where i: "differs_at a b i" by (metis first_difference bms_set_eq_iff)
    then have "word_cmp a b i = 0" using 0 bms_compare_differs by simp
    then show False using i by (simp add: word_cmp_0_iff differs_at_def)
  qed
qed (rule bms_compare_equal)

lemma bms_compare_antisym: "bms_compare b a = - bms_compare a b"
proof (cases "bms_set a = bms_set b")
  case True
  then show ?thesis by (simp add: bms_compare_equal)
next
  case False
  then obtain i where "differs_at a b i" by (metis first_difference bms_set_eq_iff)
  moreover from this have "differs_at b a i" by (auto simp: differs_at_def)
  ultimately show ?thesis by (auto simp: bms_compare_differs word_cmp_def)
qed

lemma bms_compare_trans:
  assumes "bms_compare a b < 0" "bms_compare b c < 0"
  shows "bms_compare a c < 0"
proof -
  obtain i where i: "differs_at a b i"
    using assms(1) by (metis first_difference bms_set_eq_iff bms_compare_equal less_irrefl)
  obtain j where j: "differs_at b c j"
    using assms(2) by (metis first_difference bms_set_eq_iff bms_compare_equal less_irrefl)
  have lt: "wordat a i < wordat b i" "wordat b j < wordat c j"
    using assms bms_compare_differs [OF i] bms_compare_differs [OF j] by (auto simp: word_cmp_def split: if_splits)
  have "differs_at a c (min i j) \<and> wordat a (min i j) < wordat c (min i j)"
    using i j lt by (cases i j rule: linorder_cases) (auto simp: differs_at_def min_def)
  then show ?thesis using bms_compare_differs [of a c "min i j"] by (simp add: word_cmp_def)
qed

subsection \<open>Hashing\<close>

lemma bms_lastword_Some_iff:
  "bms_lastword ws n = Some k \<longleftrightarrow> k < n \<and> ws ! k \<noteq> 0 \<and> (\<forall>j. k < j \<and> j < n \<longrightarrow> ws ! j = 0)"
  by (induction n) (auto simp: less_Suc_eq)

lemma bms_lastword_None_iff: "bms_lastword ws n = None \<longleftrightarrow> (\<forall>j<n. ws ! j = 0)"
  by (induction n) (auto simp: less_Suc_eq)

lemma bms_hash_value_wordat:
  "bms_hash_value a = (if \<forall>i. wordat a i = 0 then 0
     else hash_any True (concat (map (\<lambda>i. word_bytes 4 (wordat a i))
       [0..<Suc (GREATEST i. wordat a i \<noteq> 0)])))"
proof (cases a)
  case None
  then show ?thesis by (simp add: bms_hash_value_def)
next
  case (Some s)
  show ?thesis
  proof (cases "bms_lastword (words s) (nwords s)")
    case None
    moreover from this have "\<forall>i. wordat a i = 0"
      using Some by (simp add: wordat_def bms_lastword_None_iff)
    ultimately show ?thesis using Some by (simp add: bms_hash_value_def)
  next
    case l: (Some k)
    then have k: "k < nwords s" "words s ! k \<noteq> 0" "\<And>j. k < j \<Longrightarrow> j < nwords s \<Longrightarrow> words s ! j = 0"
      by (simp_all add: bms_lastword_Some_iff)
    have "(GREATEST i. wordat a i \<noteq> 0) = k"
    proof (rule Greatest_equality)
      show "wordat a k \<noteq> 0" using k Some by (simp add: wordat_def)
      show "y \<le> k" if "wordat a y \<noteq> 0" for y
        using that k(3) [of y] Some by (auto simp: wordat_def intro: leI split: if_splits)
    qed
    moreover have "take (k + 1) (words s) = map (wordat a) [0..<Suc k]"
      using k Some by (intro nth_equalityI) (auto simp: wordat_def simp del: upt_Suc)
    moreover have "\<not> (\<forall>i. wordat a i = 0)" using k Some by (auto simp: wordat_def)
    ultimately show ?thesis using Some l
      by (auto simp: bms_hash_value_def o_def simp del: upt_Suc)
  qed
qed

lemma bms_hash_value_cong: "bms_set a = bms_set b \<Longrightarrow> bms_hash_value a = bms_hash_value b"
  by (simp add: bms_hash_value_wordat bms_set_eq_iff)

subsection \<open>The interface of a set of numbers, and iteration over it\<close>

text \<open>
  What the planner and executor rely on when they work with bitmap sets: the algebra of the
  set operations, and the step of the member loop that the comment of \<^verbatim>\<open>bms_first_from\<close>
  prescribes.  The loop itself, with a bound on its rounds, is \<open>members_loop\<close>.
\<close>

fun members_loop :: "('s \<Rightarrow> int \<Rightarrow> int) \<Rightarrow> nat \<Rightarrow> 's \<Rightarrow> int \<Rightarrow> int list option" where
  "members_loop first_from 0 s x = None"
| "members_loop first_from (Suc fuel) s x =
     (if x \<ge> 0 then map_option ((#) x) (members_loop first_from fuel s (first_from s (x + 1)))
      else Some [])"

locale number_set =
  fixes elems :: "'s \<Rightarrow> nat set"
    and empty :: 's
    and union inter diff :: "'s \<Rightarrow> 's \<Rightarrow> 's"
    and first_from :: "'s \<Rightarrow> int \<Rightarrow> int"
  assumes elems_finite: "finite (elems s)"
    and elems_empty: "elems empty = {}"
    and elems_union: "elems (union s t) = elems s \<union> elems t"
    and elems_inter: "elems (inter s t) = elems s \<inter> elems t"
    and elems_diff: "elems (diff s t) = elems s - elems t"
    and first_from_ge: "0 \<le> x \<Longrightarrow> x < 2 ^ 31 \<Longrightarrow> first_from s x = first_ge (elems s) (nat x)"
begin

lemma elems_fold_union: "elems (fold union ss s) = elems s \<union> (\<Union>t\<in>set ss. elems t)"
  by (induction ss arbitrary: s) (auto simp: elems_union)

lemma elems_partition: "elems (union (inter s t) (diff s t)) = elems s"
  by (auto simp: elems_union elems_inter elems_diff)

lemma members_loop_from:
  assumes "elems s \<subseteq> {..<2 ^ 31 - 1}" and "k < 2 ^ 31"
    and "card {n \<in> elems s. k \<le> n} < fuel"
  shows "members_loop first_from fuel s (first_from s (int k)) =
    Some (map int (sorted_list_of_set {n \<in> elems s. k \<le> n}))"
  using assms(2,3)
proof (induction fuel arbitrary: k)
  case (Suc fuel)
  let ?A = "{n \<in> elems s. k \<le> n}"
  have fin: "finite ?A" using elems_finite [of s] by simp
  have ff: "first_from s (int k) = first_ge (elems s) k"
    using first_from_ge [of "int k" s] Suc.prems(1) by simp
  show ?case
  proof (cases "?A = {}")
    case True
    then have "first_ge (elems s) k = -1" by (intro first_ge_none) auto
    then show ?thesis unfolding True by (simp add: ff)
  next
    case False
    define m where "m = Min ?A"
    have m: "m \<in> elems s" "k \<le> m" using Min_in [OF fin False] by (simp_all add: m_def)
    have "first_ge (elems s) k = int m"
      using m Min_le [OF fin] by (intro first_ge_eqI) (auto simp: m_def)
    moreover have rest: "?A - {m} = {n \<in> elems s. m + 1 \<le> n}"
    proof (intro set_eqI iffI)
      fix n assume "n \<in> ?A - {m}"
      then show "n \<in> {n \<in> elems s. m + 1 \<le> n}"
        using Min_le [OF fin, of n] by (auto simp: m_def)
    qed (use m in auto)
    moreover have "card {n \<in> elems s. m + 1 \<le> n} < fuel"
      unfolding rest [symmetric] using Suc.prems(2) card_Diff1_less [OF fin, of m] m by simp
    moreover have "m + 1 < 2 ^ 31" using assms(1) m(1) by auto
    ultimately show ?thesis
      using Suc.IH [of "m + 1"] sorted_list_of_set_nonempty [OF fin False]
      by (simp add: ff m_def [symmetric] add.commute)
  qed
qed simp

lemma members_loop_sorted:
  assumes "elems s \<subseteq> {..<2 ^ 31 - 1}" and "card (elems s) < fuel"
  shows "members_loop first_from fuel s (first_from s 0) =
    Some (map int (sorted_list_of_set (elems s)))"
  using members_loop_from [of s 0 fuel] assms by simp

end

interpretation bms: number_set bms_set None bms_union bms_intersect bms_difference bms_first_from
  by unfold_locales
    (simp_all add: bms_set_union bms_set_intersect bms_set_difference bms_first_from_eq,
      simp add: bms_set_def)


subsection \<open>Properties\<close>

text \<open>
  C37: the set operations.  Union, intersection and difference, in the copying and in the
  recycling variants, and the copy and resize operations, compute the corresponding operation
  on the sets of members.
\<close>

theorem bms_operations_refine_sets:
  "bms_set (bms_union a b) = bms_set a \<union> bms_set b \<and>
   bms_set (bms_add_members a b) = bms_set a \<union> bms_set b \<and>
   bms_set (bms_join a b) = bms_set a \<union> bms_set b \<and>
   bms_set (bms_intersect a b) = bms_set a \<inter> bms_set b \<and>
   bms_set (bms_int_members a b) = bms_set a \<inter> bms_set b \<and>
   bms_set (bms_difference a b) = bms_set a - bms_set b \<and>
   bms_set (bms_del_members a b) = bms_set a - bms_set b \<and>
   bms_set (bms_copy a) = bms_set a \<and> bms_set (bms_resize a wc) = bms_set a"
  by (simp add: bms.elems_union bms.elems_inter bms.elems_diff bms_set_add_members bms_set_join
      bms_set_int_members bms_set_del_members bms_set_copy bms_set_resize)

text \<open>
  The tests.  Emptiness, logical equality, inclusion, overlap and nonempty difference
  decide the corresponding relation of the sets, whatever the lengths of the two arrays and
  whether either pointer is NULL.
\<close>

theorem bms_tests_decide:
  "(bms_is_empty a \<longleftrightarrow> bms_set a = {}) \<and>
   (bms_equal a b \<longleftrightarrow> bms_set a = bms_set b) \<and>
   (bms_is_subset a b \<longleftrightarrow> bms_set a \<subseteq> bms_set b) \<and>
   (bms_overlap a b \<longleftrightarrow> bms_set a \<inter> bms_set b \<noteq> {}) \<and>
   (bms_nonempty_difference a b \<longleftrightarrow> bms_set a - bms_set b \<noteq> {})"
  by (simp add: bms_is_empty_iff bms_equal_iff bms_is_subset_iff bms_overlap_iff
      bms_nonempty_difference_iff)

text \<open>
  C38: single members.  For a nonnegative int, adding, deleting and testing a member succeed
  and have the effect of insertion, removal and membership.
\<close>

theorem bms_member_operations:
  assumes "0 \<le> x" "x < 2 ^ 31"
  shows "bms_is_member x a = Inr (nat x \<in> bms_set a) \<and>
    (\<exists>b. bms_add_member a x = Inr b \<and> bms_set b = insert (nat x) (bms_set a)) \<and>
    (\<exists>b. bms_del_member a x = Inr b \<and> bms_set b = bms_set a - {nat x}) \<and>
    (\<exists>b. bms_make_singleton x = Inr b \<and> bms_set b = {nat x})"
  using bms_is_member_iff [OF assms] bms_set_add_member [OF assms] bms_set_del_member [OF assms]
    bms_set_singleton [OF assms] by blast

text \<open>A member of the second word is added to a set with one word.\<close>

theorem bms_member_operations_witness:
  "(0::int) \<le> 40 \<and> (40::int) < 2 ^ 31 \<and>
   (\<exists>b. bms_add_member (Some \<lparr>words = [5]\<rparr>) 40 = Inr b \<and>
        bms_set b = insert (nat 40) (bms_set (Some \<lparr>words = [5]\<rparr>)))"
proof -
  have h: "(0::int) \<le> 40" "(40::int) < 2 ^ 31" by simp_all
  show ?thesis using h bms_member_operations [OF h] by blast
qed

text \<open>
  Counting.  \<^verbatim>\<open>bms_num_members\<close> is the cardinality (the byte table and the shift loop
  count right), \<^verbatim>\<open>bms_membership\<close> is its size class, and \<^verbatim>\<open>bms_singleton_member\<close> returns
  the only member or reports which of the two errors holds.
\<close>

theorem bms_counting:
  "bms_num_members a = card (bms_set a) \<and>
   bms_membership a = membership_class (bms_set a) \<and>
   bms_singleton_member a = sole_member (bms_set a)"
  by (simp add: bms_num_members_eq bms_membership_eq bms_singleton_member_eq)

text \<open>
  \<^verbatim>\<open>bms_compare\<close> is a total order on the sets that agrees with logical equality, as a
  sort that groups equal sets needs.
\<close>

theorem bms_compare_total_order:
  "(bms_compare a b = 0 \<longleftrightarrow> bms_set a = bms_set b) \<and>
   bms_compare b a = - bms_compare a b \<and>
   (bms_compare a b < 0 \<and> bms_compare b c < 0 \<longrightarrow> bms_compare a c < 0)"
  using bms_compare_trans [of a b c] bms_compare_antisym [of b a] by (simp add: bms_compare_0_iff)

text \<open>Three sets of different lengths in increasing order.\<close>

theorem bms_compare_total_order_witness:
  "bms_compare (Some \<lparr>words = [1]\<rparr>) (Some \<lparr>words = [1, 0, 4]\<rparr>) < 0 \<and>
   bms_compare (Some \<lparr>words = [1, 0, 4]\<rparr>) (Some \<lparr>words = [2]\<rparr>) < 0 \<and>
   bms_compare (Some \<lparr>words = [1]\<rparr>) (Some \<lparr>words = [2]\<rparr>) < 0"
proof -
  have h: "bms_compare (Some \<lparr>words = [1]\<rparr>) (Some \<lparr>words = [1, 0, 4]\<rparr>) < 0"
    "bms_compare (Some \<lparr>words = [1, 0, 4]\<rparr>) (Some \<lparr>words = [2]\<rparr>) < 0"
    by (simp_all add: bms_compare_def for_return_def upt_rec)
  show ?thesis
    using h bms_compare_total_order
      [of "Some \<lparr>words = [1]\<rparr>" "Some \<lparr>words = [1, 0, 4]\<rparr>" "Some \<lparr>words = [2]\<rparr>"] by blast
qed

text \<open>
  C39: the documented contract of \<^verbatim>\<open>bms_hash_value\<close>: sets that \<^verbatim>\<open>bms_equal\<close> accepts hash
  alike, so that the pair \<^verbatim>\<open>bitmap_hash\<close>, \<^verbatim>\<open>bitmap_match\<close> is fit for a hash table.
\<close>

theorem bms_hash_respects_equal:
  assumes "\<not> bitmap_match a b"
  shows "bitmap_hash a = bitmap_hash b"
  using assms bms_hash_value_cong [of a b] by (simp add: bitmap_match_def bitmap_hash_def bms_equal_iff)

text \<open>The second set carries two trailing zero words.\<close>

theorem bms_hash_respects_equal_witness:
  "\<not> bitmap_match (Some \<lparr>words = [7]\<rparr>) (Some \<lparr>words = [7, 0, 0]\<rparr>) \<and>
   bitmap_hash (Some \<lparr>words = [7]\<rparr>) = bitmap_hash (Some \<lparr>words = [7, 0, 0]\<rparr>)"
proof -
  have h: "\<not> bitmap_match (Some \<lparr>words = [7]\<rparr>) (Some \<lparr>words = [7, 0, 0]\<rparr>)" by code_simp
  show ?thesis using h bms_hash_respects_equal [OF h] by blast
qed

text \<open>
  C40: the loop the code documents for visiting a set
  (\<^verbatim>\<open>x = bms_first_from(set, 0); while (x >= 0) { ...; x = bms_first_from(set, x + 1); }\<close>)
  ends after as many rounds as there are members and visits exactly the members, in
  increasing order.
\<close>

theorem bms_iteration_complete:
  assumes "bms_set a \<subseteq> {..<2 ^ 31 - 1}" and "card (bms_set a) < fuel"
  shows "members_loop bms_first_from fuel a (bms_first_from a 0) =
    Some (map int (sorted_list_of_set (bms_set a)))"
  using assms by (rule bms.members_loop_sorted)

text \<open>The set \<open>{1, 34}\<close>, spread over two words.\<close>

theorem bms_iteration_complete_witness:
  "bms_set (Some \<lparr>words = [2, 4]\<rparr>) \<subseteq> {..<2 ^ 31 - 1} \<and>
   members_loop bms_first_from 3 (Some \<lparr>words = [2, 4]\<rparr>) (bms_first_from (Some \<lparr>words = [2, 4]\<rparr>) 0) =
     Some (map int (sorted_list_of_set (bms_set (Some \<lparr>words = [2, 4]\<rparr>))))"
proof -
  let ?a = "Some \<lparr>words = [2, 4 :: bitmapword]\<rparr>"
  have h1: "bms_set ?a \<subseteq> {..<2 ^ 31 - 1}"
  proof
    fix n assume "n \<in> bms_set ?a"
    then have "n div 32 < 2" by (auto simp: mem_bms_set_wordat wordat_def split: if_splits)
    then show "n \<in> {..<2 ^ 31 - 1}" by simp
  qed
  have "bms_num_members ?a = 2" by code_simp
  then have h2: "card (bms_set ?a) < 3" by (simp add: bms_num_members_eq)
  show ?thesis using h1 bms_iteration_complete [OF h1 h2] by blast
qed

text \<open>
  \<^verbatim>\<open>bms_first_member\<close> returns the least member and removes exactly it; on an empty set
  it returns -1 and changes nothing.
\<close>

theorem bms_first_member_pops_minimum:
  "if bms_set a = {} then bms_first_member a = (-1, a)
   else \<exists>b. bms_first_member a = (int (Min (bms_set a)), b) \<and>
     bms_set b = bms_set a - {Min (bms_set a)}"
  using bms_first_member_empty [of a] bms_first_member_nonempty [of a] by simp

end
