(* ===== verification/Gdd_Detector.thy ===== *)
theory Gdd_Detector
  imports GP_Prelude
begin

text \<open>
  The detector algorithm of the global deadlock detector
  (\<^verbatim>\<open>src/backend/utils/gdd/gdddetector.c\<close>).

  The C code links vertices, edges and counters by pointers, so the state is an explicit
  store: \<open>statH\<close>, \<open>vertH\<close>, \<open>edgeH\<close> and \<open>graphH\<close> map addresses to structures and
  \<open>next_addr\<close> is the next free address.  The context structure itself is the record that
  holds them.  The field \<^verbatim>\<open>topstat\<close> of a vertex can only be bound to
  \<^verbatim>\<open>&ctx->topstat\<close>, so a truth value records whether it is.  A \<^verbatim>\<open>GddMap\<close> is its array of
  pairs (its field \<^verbatim>\<open>length\<close> is the length of the list) with the capacity.

  A list iterator that deletes in place is the pair of the cells before the current one and
  the cells after it: after \<^verbatim>\<open>gdd_list_iter_delete\<close> the list is their concatenation, and
  the loop goes on at the first cell after the deleted one.
\<close>

record GddStat =
  stat_id :: int
  indeg :: int
  outdeg :: int

record GddVert =
  vert_id :: int
  vert_topstat :: bool
  vert_global :: "nat option"
  edgesIn :: "nat list"
  edgesOut :: "nat list"

record GddEdge =
  edge_solid :: bool
  edge_from :: nat
  edge_to :: nat

record GddMap =
  map_capacity :: nat
  map_pairs :: "(int \<times> nat) list"

record GddGraph =
  graph_id :: int
  graph_verts :: GddMap

record GddCtx =
  ctx_topstat :: GddStat
  ctx_globals :: GddMap
  ctx_graphs :: GddMap
  statH :: "nat \<Rightarrow> GddStat"
  vertH :: "nat \<Rightarrow> GddVert"
  edgeH :: "nat \<Rightarrow> GddEdge"
  graphH :: "nat \<Rightarrow> GddGraph"
  next_addr :: nat

abbreviation upd_stat :: "nat \<Rightarrow> (GddStat \<Rightarrow> GddStat) \<Rightarrow> GddCtx \<Rightarrow> GddCtx" where
  "upd_stat p f ctx \<equiv> ctx\<lparr>statH := (statH ctx)(p := f (statH ctx p))\<rparr>"

abbreviation upd_vert :: "nat \<Rightarrow> (GddVert \<Rightarrow> GddVert) \<Rightarrow> GddCtx \<Rightarrow> GddCtx" where
  "upd_vert p f ctx \<equiv> ctx\<lparr>vertH := (vertH ctx)(p := f (vertH ctx p))\<rparr>"

abbreviation upd_graph :: "nat \<Rightarrow> (GddGraph \<Rightarrow> GddGraph) \<Rightarrow> GddCtx \<Rightarrow> GddCtx" where
  "upd_graph p f ctx \<equiv> ctx\<lparr>graphH := (graphH ctx)(p := f (graphH ctx p))\<rparr>"


subsection \<open>Maps\<close>

definition gddMapInit :: GddMap where
  "gddMapInit = \<lparr>map_capacity = 4, map_pairs = []\<rparr>"

definition gddMapEnsureCapacity :: "GddMap \<Rightarrow> nat \<Rightarrow> GddMap" where
  "gddMapEnsureCapacity m cap =
     (if cap \<le> map_capacity m then m else m\<lparr>map_capacity := cap * 2\<rparr>)"

definition gddMapGetPair :: "GddMap \<Rightarrow> int \<Rightarrow> (int \<times> nat) option" where
  "gddMapGetPair m key = for_return 0 (length (map_pairs m))
     (\<lambda>i. let pair = map_pairs m ! i in if fst pair = key then Some pair else None)"

definition gddMapGet :: "GddMap \<Rightarrow> int \<Rightarrow> nat option" where
  "gddMapGet m key = (case gddMapGetPair m key of Some pair \<Rightarrow> Some (snd pair) | None \<Rightarrow> None)"

definition gddMapSetUnsafe :: "GddMap \<Rightarrow> int \<Rightarrow> nat \<Rightarrow> GddMap" where
  "gddMapSetUnsafe m key p =
     (let m = gddMapEnsureCapacity m (length (map_pairs m) + 1)
      in m\<lparr>map_pairs := map_pairs m @ [(key, p)]\<rparr>)"

definition gdd_map_iter_delete :: "GddMap \<Rightarrow> nat \<Rightarrow> GddMap" where
  "gdd_map_iter_delete m pos =
     (let n = length (map_pairs m) - 1
      in m\<lparr>map_pairs := take n ((map_pairs m)[pos := map_pairs m ! n])\<rparr>)"


subsection \<open>Counters, vertices, edges and graphs\<close>

definition gddStatInit :: "int \<Rightarrow> GddStat" where
  "gddStatInit vid = \<lparr>stat_id = vid, indeg = 0, outdeg = 0\<rparr>"

definition gddStatNew :: "int \<Rightarrow> GddCtx \<Rightarrow> nat \<times> GddCtx" where
  "gddStatNew vid ctx =
     (next_addr ctx,
      ctx\<lparr>statH := (statH ctx)(next_addr ctx := gddStatInit vid), next_addr := next_addr ctx + 1\<rparr>)"

definition gddVertNew :: "int \<Rightarrow> GddCtx \<Rightarrow> nat \<times> GddCtx" where
  "gddVertNew i ctx =
     (next_addr ctx,
      ctx\<lparr>vertH := (vertH ctx)(next_addr ctx :=
            \<lparr>vert_id = i, vert_topstat = False, vert_global = None, edgesIn = [], edgesOut = []\<rparr>),
          next_addr := next_addr ctx + 1\<rparr>)"

definition gddGraphNew :: "int \<Rightarrow> GddCtx \<Rightarrow> nat \<times> GddCtx" where
  "gddGraphNew i ctx =
     (next_addr ctx,
      ctx\<lparr>graphH := (graphH ctx)(next_addr ctx := \<lparr>graph_id = i, graph_verts = gddMapInit\<rparr>),
          next_addr := next_addr ctx + 1\<rparr>)"

definition gddEdgeNew :: "nat \<Rightarrow> nat \<Rightarrow> bool \<Rightarrow> GddCtx \<Rightarrow> nat \<times> GddCtx" where
  "gddEdgeNew from to solid ctx =
     (next_addr ctx,
      ctx\<lparr>edgeH := (edgeH ctx)(next_addr ctx := \<lparr>edge_solid = solid, edge_from = from, edge_to = to\<rparr>),
          next_addr := next_addr ctx + 1\<rparr>)"

definition gddVertBindStats :: "nat \<Rightarrow> nat \<Rightarrow> GddCtx \<Rightarrow> GddCtx" where
  "gddVertBindStats vert global ctx =
     upd_vert vert (\<lambda>v. v\<lparr>vert_global := Some global, vert_topstat := True\<rparr>) ctx"

definition gddVertGetInDegree :: "nat \<Rightarrow> GddCtx \<Rightarrow> nat" where
  "gddVertGetInDegree vert ctx = length (edgesIn (vertH ctx vert))"

definition gddVertGetOutDegree :: "nat \<Rightarrow> GddCtx \<Rightarrow> nat" where
  "gddVertGetOutDegree vert ctx = length (edgesOut (vertH ctx vert))"

definition gddEdgeLink :: "nat \<Rightarrow> GddCtx \<Rightarrow> GddCtx" where
  "gddEdgeLink edge ctx =
     (let f = edge_from (edgeH ctx edge); t = edge_to (edgeH ctx edge);
          ctx = ctx\<lparr>ctx_topstat := (ctx_topstat ctx)\<lparr>outdeg := outdeg (ctx_topstat ctx) + 1\<rparr>\<rparr>;
          ctx = ctx\<lparr>ctx_topstat := (ctx_topstat ctx)\<lparr>indeg := indeg (ctx_topstat ctx) + 1\<rparr>\<rparr>;
          ctx = upd_stat (the (vert_global (vertH ctx f))) (\<lambda>s. s\<lparr>outdeg := outdeg s + 1\<rparr>) ctx;
          ctx = upd_stat (the (vert_global (vertH ctx t))) (\<lambda>s. s\<lparr>indeg := indeg s + 1\<rparr>) ctx;
          ctx = upd_vert f (\<lambda>v. v\<lparr>edgesOut := edgesOut v @ [edge]\<rparr>) ctx
      in upd_vert t (\<lambda>v. v\<lparr>edgesIn := edgesIn v @ [edge]\<rparr>) ctx)"

definition gddEdgeUnlinkFrom :: "nat \<Rightarrow> nat list option \<Rightarrow> GddCtx \<Rightarrow> GddCtx" where
  "gddEdgeUnlinkFrom edge fromiter ctx =
     (let f = edge_from (edgeH ctx edge);
          ctx = ctx\<lparr>ctx_topstat := (ctx_topstat ctx)\<lparr>outdeg := outdeg (ctx_topstat ctx) - 1\<rparr>\<rparr>;
          ctx = upd_stat (the (vert_global (vertH ctx f))) (\<lambda>s. s\<lparr>outdeg := outdeg s - 1\<rparr>) ctx
      in case fromiter of
           Some rest \<Rightarrow> upd_vert f (\<lambda>v. v\<lparr>edgesOut := rest\<rparr>) ctx
         | None \<Rightarrow> upd_vert f (\<lambda>v. v\<lparr>edgesOut := remove1 edge (edgesOut v)\<rparr>) ctx)"

definition gddEdgeUnlinkTo :: "nat \<Rightarrow> nat list option \<Rightarrow> GddCtx \<Rightarrow> GddCtx" where
  "gddEdgeUnlinkTo edge toiter ctx =
     (let t = edge_to (edgeH ctx edge);
          ctx = ctx\<lparr>ctx_topstat := (ctx_topstat ctx)\<lparr>indeg := indeg (ctx_topstat ctx) - 1\<rparr>\<rparr>;
          ctx = upd_stat (the (vert_global (vertH ctx t))) (\<lambda>s. s\<lparr>indeg := indeg s - 1\<rparr>) ctx
      in case toiter of
           Some rest \<Rightarrow> upd_vert t (\<lambda>v. v\<lparr>edgesIn := rest\<rparr>) ctx
         | None \<Rightarrow> upd_vert t (\<lambda>v. v\<lparr>edgesIn := remove1 edge (edgesIn v)\<rparr>) ctx)"

definition gddEdgeUnlink :: "nat \<Rightarrow> nat list option \<Rightarrow> nat list option \<Rightarrow> GddCtx \<Rightarrow> GddCtx" where
  "gddEdgeUnlink edge fromiter toiter ctx =
     gddEdgeUnlinkTo edge toiter (gddEdgeUnlinkFrom edge fromiter ctx)"


subsection \<open>Reduction\<close>

text \<open>
  The two loops of \<^verbatim>\<open>gddVertUnlinkAll\<close>.  Every round deletes the current cell, so no
  cells ever stay before it.
\<close>

fun unlink_in_loop :: "nat list \<Rightarrow> bool \<Rightarrow> GddCtx \<Rightarrow> bool \<times> GddCtx" where
  "unlink_in_loop [] dirty ctx = (dirty, ctx)"
| "unlink_in_loop (edge # rest) dirty ctx =
     unlink_in_loop rest True (gddEdgeUnlink edge None (Some rest) ctx)"

fun unlink_out_loop :: "nat list \<Rightarrow> bool \<Rightarrow> GddCtx \<Rightarrow> bool \<times> GddCtx" where
  "unlink_out_loop [] dirty ctx = (dirty, ctx)"
| "unlink_out_loop (edge # rest) dirty ctx =
     unlink_out_loop rest True (gddEdgeUnlink edge (Some rest) None ctx)"

definition gddVertUnlinkAll :: "nat \<Rightarrow> GddCtx \<Rightarrow> bool \<times> GddCtx" where
  "gddVertUnlinkAll vert ctx =
     (let (dirty, ctx) = unlink_in_loop (edgesIn (vertH ctx vert)) False ctx
      in unlink_out_loop (edgesOut (vertH ctx vert)) dirty ctx)"

text \<open>The loop over the dotted in edges of \<^verbatim>\<open>gddVertReduce\<close>: solid edges stay before the cell.\<close>

fun unlink_dotted_loop :: "nat list \<Rightarrow> nat list \<Rightarrow> bool \<Rightarrow> GddCtx \<Rightarrow> bool \<times> GddCtx" where
  "unlink_dotted_loop before [] dirty ctx = (dirty, ctx)"
| "unlink_dotted_loop before (edge # rest) dirty ctx =
     (if edge_solid (edgeH ctx edge)
      then unlink_dotted_loop (before @ [edge]) rest dirty ctx
      else unlink_dotted_loop before rest True (gddEdgeUnlink edge None (Some (before @ rest)) ctx))"

definition gddVertReduce :: "nat \<Rightarrow> GddCtx \<Rightarrow> bool \<times> GddCtx" where
  "gddVertReduce vert ctx =
     (let global = statH ctx (the (vert_global (vertH ctx vert)))
      in if indeg global = 0 \<or> outdeg global = 0 then gddVertUnlinkAll vert ctx
         else if gddVertGetOutDegree vert ctx = 0
              then unlink_dotted_loop [] (edgesIn (vertH ctx vert)) False ctx
              else (False, ctx))"

text \<open>Unlinking edges leaves the graphs' vertex maps alone, which ends the loops over them.\<close>

lemma gddEdgeUnlink_frame [simp]:
  "graphH (gddEdgeUnlink e fi ti ctx) = graphH ctx"
  "ctx_graphs (gddEdgeUnlink e fi ti ctx) = ctx_graphs ctx"
  "ctx_globals (gddEdgeUnlink e fi ti ctx) = ctx_globals ctx"
  "edgeH (gddEdgeUnlink e fi ti ctx) = edgeH ctx"
  "next_addr (gddEdgeUnlink e fi ti ctx) = next_addr ctx"
  by (auto simp: gddEdgeUnlink_def gddEdgeUnlinkTo_def gddEdgeUnlinkFrom_def Let_def split: option.split)

lemma unlink_loops_graphH [simp]:
  "graphH (snd (unlink_in_loop es d ctx)) = graphH ctx"
  "graphH (snd (unlink_out_loop es d ctx)) = graphH ctx"
  "graphH (snd (unlink_dotted_loop bs es d ctx)) = graphH ctx"
  by (induction es arbitrary: d ctx bs) (auto simp del: unlink_dotted_loop.simps simp: unlink_dotted_loop.simps)

lemma gddVertReduce_graphH [simp]: "graphH (snd (gddVertReduce v ctx)) = graphH ctx"
  by (auto simp: gddVertReduce_def gddVertUnlinkAll_def Let_def split: prod.split)
    (metis snd_conv unlink_loops_graphH)+

text \<open>
  The body of \<^verbatim>\<open>gdd_ctx_foreach_vert\<close> in \<^verbatim>\<open>GddCtxReduce\<close>, over the vertices of one graph
  from position \<open>pos\<close> on.  Deleting the pair at the iterator steps the position back before
  the loop steps it forward.
\<close>

function reduce_verts :: "nat \<Rightarrow> nat \<Rightarrow> bool \<Rightarrow> GddCtx \<Rightarrow> bool \<times> GddCtx" where
  "reduce_verts graph pos dirty ctx =
     (if pos < length (map_pairs (graph_verts (graphH ctx graph)))
      then
        let vert = snd (map_pairs (graph_verts (graphH ctx graph)) ! pos);
            (d, ctx1) = gddVertReduce vert ctx;
            dirty1 = (if d then True else dirty)
        in if gddVertGetInDegree vert ctx1 = 0 \<and> gddVertGetOutDegree vert ctx1 = 0
           then reduce_verts graph pos dirty1
                  (upd_graph graph (\<lambda>g. g\<lparr>graph_verts := gdd_map_iter_delete (graph_verts g) pos\<rparr>) ctx1)
           else reduce_verts graph (pos + 1) dirty1 ctx1
      else (dirty, ctx))"
  by pat_completeness auto
termination
proof (relation "measure (\<lambda>(graph, pos, dirty, ctx).
    length (map_pairs (graph_verts (graphH ctx graph))) - pos)", goal_cases)
  case (2 graph pos dirty ctx x y d ctx1 z)
  then have "graphH ctx1 = graphH ctx" by (metis gddVertReduce_graphH snd_conv)
  then show ?case using 2 by (auto simp: gdd_map_iter_delete_def Let_def)
next
  case (3 graph pos dirty ctx x y d ctx1 z)
  then have "graphH ctx1 = graphH ctx" by (metis gddVertReduce_graphH snd_conv)
  then show ?case using 3 by auto
qed simp

declare reduce_verts.simps [simp del]

fun reduce_graphs :: "nat list \<Rightarrow> bool \<Rightarrow> GddCtx \<Rightarrow> bool \<times> GddCtx" where
  "reduce_graphs [] dirty ctx = (dirty, ctx)"
| "reduce_graphs (graph # rest) dirty ctx =
     (let (dirty, ctx) = reduce_verts graph 0 dirty ctx in reduce_graphs rest dirty ctx)"

text \<open>
  \<^verbatim>\<open>while (dirty)\<close>: one round is a pass over the vertices of all graphs.  The map of graphs
  is not changed by a pass.
\<close>

partial_function (option) GddCtxReduce :: "GddCtx \<Rightarrow> GddCtx option" where
  "GddCtxReduce ctx =
     (let (dirty, ctx) = reduce_graphs (map snd (map_pairs (ctx_graphs ctx))) False ctx
      in if dirty then GddCtxReduce ctx else Some ctx)"


subsection \<open>Building the context\<close>

definition GddCtxNew :: GddCtx where
  "GddCtxNew = \<lparr>ctx_topstat = gddStatInit 0, ctx_globals = gddMapInit, ctx_graphs = gddMapInit,
     statH = (\<lambda>_. gddStatInit 0),
     vertH = (\<lambda>_. \<lparr>vert_id = 0, vert_topstat = False, vert_global = None, edgesIn = [], edgesOut = []\<rparr>),
     edgeH = (\<lambda>_. \<lparr>edge_solid = False, edge_from = 0, edge_to = 0\<rparr>),
     graphH = (\<lambda>_. \<lparr>graph_id = 0, graph_verts = gddMapInit\<rparr>),
     next_addr = 0\<rparr>"

definition gddCtxGetGraph :: "int \<Rightarrow> GddCtx \<Rightarrow> nat \<times> GddCtx" where
  "gddCtxGetGraph segid ctx = (case gddMapGet (ctx_graphs ctx) segid of
     Some graph \<Rightarrow> (graph, ctx)
   | None \<Rightarrow> (let (graph, ctx) = gddGraphNew segid ctx
              in (graph, ctx\<lparr>ctx_graphs := gddMapSetUnsafe (ctx_graphs ctx) segid graph\<rparr>)))"

definition gddCtxGetGlobalStat :: "int \<Rightarrow> GddCtx \<Rightarrow> nat \<times> GddCtx" where
  "gddCtxGetGlobalStat vid ctx = (case gddMapGet (ctx_globals ctx) vid of
     Some global \<Rightarrow> (global, ctx)
   | None \<Rightarrow> (let (global, ctx) = gddStatNew vid ctx
              in (global, ctx\<lparr>ctx_globals := gddMapSetUnsafe (ctx_globals ctx) vid global\<rparr>)))"

definition gddGraphGetVert :: "nat \<Rightarrow> int \<Rightarrow> GddCtx \<Rightarrow> nat \<times> GddCtx" where
  "gddGraphGetVert graph vid ctx = (case gddMapGet (graph_verts (graphH ctx graph)) vid of
     Some vert \<Rightarrow> (vert, ctx)
   | None \<Rightarrow> (let (vert, ctx) = gddVertNew vid ctx
              in (vert, upd_graph graph
                   (\<lambda>g. g\<lparr>graph_verts := gddMapSetUnsafe (graph_verts g) vid vert\<rparr>) ctx)))"

definition gddGraphMakeEdge :: "nat \<Rightarrow> int \<Rightarrow> int \<Rightarrow> bool \<Rightarrow> GddCtx \<Rightarrow> nat \<times> GddCtx" where
  "gddGraphMakeEdge graph from to solid ctx =
     (let (vfrom, ctx) = gddGraphGetVert graph from ctx;
          (vto, ctx) = gddGraphGetVert graph to ctx
      in gddEdgeNew vfrom vto solid ctx)"

definition GddCtxAddEdge :: "int \<Rightarrow> int \<Rightarrow> int \<Rightarrow> bool \<Rightarrow> GddCtx \<Rightarrow> GddCtx" where
  "GddCtxAddEdge segid from to solid ctx =
     (let (graph, ctx) = gddCtxGetGraph segid ctx;
          (edge, ctx) = gddGraphMakeEdge graph from to solid ctx;
          (global, ctx) = gddCtxGetGlobalStat from ctx;
          ctx = gddVertBindStats (edge_from (edgeH ctx edge)) global ctx;
          (global, ctx) = gddCtxGetGlobalStat to ctx;
          ctx = gddVertBindStats (edge_to (edgeH ctx edge)) global ctx
      in gddEdgeLink edge ctx)"


subsection \<open>Breaking deadlocks\<close>

definition GddCtxEmpty :: "GddCtx \<Rightarrow> bool" where
  "GddCtxEmpty ctx \<longleftrightarrow> indeg (ctx_topstat ctx) = 0"

definition gddCtxGetMaxVid :: "GddCtx \<Rightarrow> int" where
  "gddCtxGetMaxVid ctx =
     fold (\<lambda>graph maxvid.
         fold (\<lambda>vert maxvid.
             if gddVertGetInDegree vert ctx \<noteq> 0 \<or> gddVertGetOutDegree vert ctx \<noteq> 0
             then max maxvid (vert_id (vertH ctx vert)) else maxvid)
           (map snd (map_pairs (graph_verts (graphH ctx graph)))) maxvid)
       (map snd (map_pairs (ctx_graphs ctx))) 0"

definition gddGraphRemoveVid :: "nat \<Rightarrow> int \<Rightarrow> GddCtx \<Rightarrow> GddCtx" where
  "gddGraphRemoveVid graph vid ctx =
     (let ps = map_pairs (graph_verts (graphH ctx graph))
      in case for_return 0 (length ps)
           (\<lambda>pos. if vert_id (vertH ctx (snd (ps ! pos))) \<noteq> vid then None else Some pos) of
           None \<Rightarrow> ctx
         | Some pos \<Rightarrow>
             (let (dirty, ctx) = gddVertUnlinkAll (snd (ps ! pos)) ctx
              in upd_graph graph (\<lambda>g. g\<lparr>graph_verts := gdd_map_iter_delete (graph_verts g) pos\<rparr>) ctx))"

definition gddCtxRemoveVid :: "int \<Rightarrow> GddCtx \<Rightarrow> GddCtx" where
  "gddCtxRemoveVid vid ctx =
     fold (\<lambda>graph ctx. gddGraphRemoveVid graph vid ctx) (map snd (map_pairs (ctx_graphs ctx))) ctx"

partial_function (option) GddCtxBreakDeadLock_loop ::
  "int list \<Rightarrow> GddCtx \<Rightarrow> (int list \<times> GddCtx) option" where
  "GddCtxBreakDeadLock_loop vids ctx =
     (if GddCtxEmpty ctx then Some (vids, ctx)
      else
        let maxvid = gddCtxGetMaxVid ctx
        in Option.bind (GddCtxReduce (gddCtxRemoveVid maxvid ctx))
             (\<lambda>ctx. GddCtxBreakDeadLock_loop (vids @ [maxvid]) ctx))"

definition GddCtxBreakDeadLock :: "GddCtx \<Rightarrow> (int list \<times> GddCtx) option" where
  "GddCtxBreakDeadLock ctx = GddCtxBreakDeadLock_loop [] ctx"

end
