(* ===== verification/Gdd_Invariant.thy ===== *)
theory Gdd_Invariant
  imports Gdd_Detector
begin

text \<open>
  The invariant of the detector's store and what each operation does to it.  An edge is live
  when it is linked from its source vertex.  The invariant says that the in and out lists of
  all vertices hold exactly the live edges, that the counters hold their numbers, that every
  vertex in a map is bound to the counter of its id, and that the maps have distinct keys and
  addresses.  Unlinking, reducing and building are shown to keep it.
\<close>

subsection \<open>Live edges and the store invariant\<close>

abbreviation efrom :: "GddCtx \<Rightarrow> nat \<Rightarrow> nat" where
  "efrom ctx e \<equiv> edge_from (edgeH ctx e)"

abbreviation eto :: "GddCtx \<Rightarrow> nat \<Rightarrow> nat" where
  "eto ctx e \<equiv> edge_to (edgeH ctx e)"

abbreviation vid :: "GddCtx \<Rightarrow> nat \<Rightarrow> int" where
  "vid ctx p \<equiv> vert_id (vertH ctx p)"

definition live :: "GddCtx \<Rightarrow> nat set" where
  "live ctx = {e. e \<in> set (edgesOut (vertH ctx (efrom ctx e)))}"

definition links :: "GddCtx \<Rightarrow> bool" where
  "links ctx \<longleftrightarrow>
     (\<forall>p. distinct (edgesOut (vertH ctx p)) \<and> set (edgesOut (vertH ctx p)) = {e \<in> live ctx. efrom ctx e = p}) \<and>
     (\<forall>p. distinct (edgesIn (vertH ctx p)) \<and> set (edgesIn (vertH ctx p)) = {e \<in> live ctx. eto ctx e = p})"

definition counts :: "GddCtx \<Rightarrow> bool" where
  "counts ctx \<longleftrightarrow> finite (live ctx) \<and>
     indeg (ctx_topstat ctx) = int (card (live ctx)) \<and>
     outdeg (ctx_topstat ctx) = int (card (live ctx)) \<and>
     (\<forall>(i, s) \<in> set (map_pairs (ctx_globals ctx)).
        indeg (statH ctx s) = int (card {e \<in> live ctx. vid ctx (eto ctx e) = i}) \<and>
        outdeg (statH ctx s) = int (card {e \<in> live ctx. vid ctx (efrom ctx e) = i}))"

definition graph_vertices :: "GddCtx \<Rightarrow> nat \<Rightarrow> nat set" where
  "graph_vertices ctx g = snd ` set (map_pairs (graph_verts (graphH ctx g)))"

definition graph_ptrs :: "GddCtx \<Rightarrow> nat set" where
  "graph_ptrs ctx = snd ` set (map_pairs (ctx_graphs ctx))"

definition vertices :: "GddCtx \<Rightarrow> nat set" where
  "vertices ctx = (\<Union>g \<in> graph_ptrs ctx. graph_vertices ctx g)"

definition bound :: "GddCtx \<Rightarrow> nat \<Rightarrow> bool" where
  "bound ctx p \<longleftrightarrow> (\<exists>s. vert_global (vertH ctx p) = Some s \<and> (vid ctx p, s) \<in> set (map_pairs (ctx_globals ctx)))"

definition globals_ok :: "GddCtx \<Rightarrow> bool" where
  "globals_ok ctx \<longleftrightarrow> distinct (map fst (map_pairs (ctx_globals ctx))) \<and>
     distinct (map snd (map_pairs (ctx_globals ctx)))"

definition bindings :: "GddCtx \<Rightarrow> bool" where
  "bindings ctx \<longleftrightarrow> globals_ok ctx \<and> (\<forall>p \<in> vertices ctx. bound ctx p) \<and>
     (\<forall>e \<in> live ctx. efrom ctx e \<in> vertices ctx \<and> eto ctx e \<in> vertices ctx)"

definition edges_inv :: "GddCtx \<Rightarrow> bool" where
  "edges_inv ctx \<longleftrightarrow> links ctx \<and> counts ctx \<and> bindings ctx"

lemma stat_ptr_unique:
  assumes "globals_ok ctx" "(i, s) \<in> set (map_pairs (ctx_globals ctx))" "(j, t) \<in> set (map_pairs (ctx_globals ctx))"
  shows "s = t \<longleftrightarrow> i = j"
  using assms unfolding globals_ok_def
  by (metis eq_key_imp_eq_value in_set_zip  distinct_map inj_onD fst_conv snd_conv)

lemma edges_inv_edgesOut: "edges_inv ctx \<Longrightarrow> set (edgesOut (vertH ctx p)) = {e \<in> live ctx. efrom ctx e = p}"
  by (simp add: edges_inv_def links_def)

lemma edges_inv_edgesIn: "edges_inv ctx \<Longrightarrow> set (edgesIn (vertH ctx p)) = {e \<in> live ctx. eto ctx e = p}"
  by (simp add: edges_inv_def links_def)

lemma edges_inv_distinct:
  "edges_inv ctx \<Longrightarrow> distinct (edgesOut (vertH ctx p)) \<and> distinct (edgesIn (vertH ctx p))"
  by (simp add: edges_inv_def links_def)

lemma edges_inv_finite: "edges_inv ctx \<Longrightarrow> finite (live ctx)"
  by (simp add: edges_inv_def counts_def)

lemma edges_inv_Empty: "edges_inv ctx \<Longrightarrow> GddCtxEmpty ctx \<longleftrightarrow> live ctx = {}"
  by (auto simp: edges_inv_def counts_def GddCtxEmpty_def)


subsection \<open>Unlinking one edge\<close>

lemma gddEdgeUnlink_vert:
  "vert_id (vertH (gddEdgeUnlink e fi ti ctx) p) = vert_id (vertH ctx p)"
  "vert_global (vertH (gddEdgeUnlink e fi ti ctx) p) = vert_global (vertH ctx p)"
  by (auto simp: gddEdgeUnlink_def gddEdgeUnlinkTo_def gddEdgeUnlinkFrom_def Let_def split: option.split)

lemma gddEdgeUnlink_lists:
  "edgesOut (vertH (gddEdgeUnlink e fi ti ctx) p) =
     (if p = efrom ctx e then (case fi of Some r \<Rightarrow> r | None \<Rightarrow> remove1 e (edgesOut (vertH ctx p)))
      else edgesOut (vertH ctx p))"
  "edgesIn (vertH (gddEdgeUnlink e fi ti ctx) p) =
     (if p = eto ctx e then (case ti of Some r \<Rightarrow> r | None \<Rightarrow> remove1 e (edgesIn (vertH ctx p)))
      else edgesIn (vertH ctx p))"
  by (auto simp: gddEdgeUnlink_def gddEdgeUnlinkTo_def gddEdgeUnlinkFrom_def Let_def split: option.split)

lemma gddEdgeUnlink_stats:
  "indeg (ctx_topstat (gddEdgeUnlink e fi ti ctx)) = indeg (ctx_topstat ctx) - 1"
  "outdeg (ctx_topstat (gddEdgeUnlink e fi ti ctx)) = outdeg (ctx_topstat ctx) - 1"
  "indeg (statH (gddEdgeUnlink e fi ti ctx) s) =
     indeg (statH ctx s) - (if s = the (vert_global (vertH ctx (eto ctx e))) then 1 else 0)"
  "outdeg (statH (gddEdgeUnlink e fi ti ctx) s) =
     outdeg (statH ctx s) - (if s = the (vert_global (vertH ctx (efrom ctx e))) then 1 else 0)"
  by (auto simp: gddEdgeUnlink_def gddEdgeUnlinkTo_def gddEdgeUnlinkFrom_def Let_def split: option.split)

lemmas unlink_simps = gddEdgeUnlink_vert gddEdgeUnlink_lists gddEdgeUnlink_stats

text \<open>Deleting at the iterator and deleting by a scan leave the same lists.\<close>

definition iter_ok :: "nat \<Rightarrow> nat list \<Rightarrow> nat list option \<Rightarrow> bool" where
  "iter_ok e es it \<longleftrightarrow> (case it of None \<Rightarrow> True | Some r \<Rightarrow> r = remove1 e es)"

lemma gddEdgeUnlink_edges_inv:
  assumes inv: "edges_inv ctx" and e: "e \<in> live ctx"
    and fi: "iter_ok e (edgesOut (vertH ctx (efrom ctx e))) fi"
    and ti: "iter_ok e (edgesIn (vertH ctx (eto ctx e))) ti"
  shows "live (gddEdgeUnlink e fi ti ctx) = live ctx - {e} \<and> edges_inv (gddEdgeUnlink e fi ti ctx)"
proof -
  let ?c = "gddEdgeUnlink e fi ti ctx"
  have out: "edgesOut (vertH ?c p) = (if p = efrom ctx e then remove1 e (edgesOut (vertH ctx p)) else edgesOut (vertH ctx p))" for p
    using fi by (auto simp: unlink_simps iter_ok_def split: option.split)
  have inn: "edgesIn (vertH ?c p) = (if p = eto ctx e then remove1 e (edgesIn (vertH ctx p)) else edgesIn (vertH ctx p))" for p
    using ti by (auto simp: unlink_simps iter_ok_def split: option.split)
  have dist: "distinct (edgesOut (vertH ctx p))" "distinct (edgesIn (vertH ctx p))" for p
    using edges_inv_distinct[OF inv] by blast+
  have live: "live ?c = live ctx - {e}"
    using dist by (auto simp: live_def out)
  have links: "links ?c"
    unfolding links_def live out inn
    using dist edges_inv_edgesOut[OF inv] edges_inv_edgesIn[OF inv] by auto
  have b: "bound ctx (efrom ctx e)" "bound ctx (eto ctx e)"
    using inv e by (auto simp: edges_inv_def bindings_def)
  then obtain s t where s: "vert_global (vertH ctx (efrom ctx e)) = Some s" "(vid ctx (efrom ctx e), s) \<in> set (map_pairs (ctx_globals ctx))"
    and t: "vert_global (vertH ctx (eto ctx e)) = Some t" "(vid ctx (eto ctx e), t) \<in> set (map_pairs (ctx_globals ctx))"
    by (auto simp: bound_def)
  have g: "globals_ok ctx" using inv by (auto simp: edges_inv_def bindings_def)
  have cc: "counts ctx" using inv by (simp add: edges_inv_def)
  have fin: "finite (live ctx)" using inv by (rule edges_inv_finite)
  note c1 = int_card_remove[OF fin e]
  have cd: "int (card (live ctx - {e})) = int (card (live ctx)) - 1"
    using card_Suc_Diff1[OF fin e] by simp
  have counts: "counts ?c"
    unfolding counts_def live
  proof (intro conjI ballI)
    show "indeg (ctx_topstat ?c) = int (card (live ctx - {e}))" "outdeg (ctx_topstat ?c) = int (card (live ctx - {e}))"
      using cd cc by (auto simp: unlink_simps counts_def)
    fix x assume x: "x \<in> set (map_pairs (ctx_globals ?c))"
    obtain i u where xi: "x = (i, u)" by (cases x)
    have iu: "(i, u) \<in> set (map_pairs (ctx_globals ctx))" using x xi by simp
    have "u = s \<longleftrightarrow> i = vid ctx (efrom ctx e)" "u = t \<longleftrightarrow> i = vid ctx (eto ctx e)"
      using stat_ptr_unique[OF g iu] s t by auto
    then show "case x of (i, s) \<Rightarrow> indeg (statH ?c s) = int (card {x \<in> live ctx - {e}. vid ?c (eto ?c x) = i}) \<and>
        outdeg (statH ?c s) = int (card {x \<in> live ctx - {e}. vid ?c (efrom ?c x) = i})"
      using cc iu s t by (auto simp: xi unlink_simps c1 counts_def)
  qed (use fin in simp)
  have "bindings ?c"
    using inv by (auto simp: edges_inv_def bindings_def live vertices_def graph_ptrs_def graph_vertices_def globals_ok_def bound_def unlink_simps)
  with links counts live show ?thesis by (simp add: edges_inv_def)
qed

subsection \<open>Unlinking the edges of a vertex\<close>

definition same_shape :: "GddCtx \<Rightarrow> GddCtx \<Rightarrow> bool" where
  "same_shape ctx ctx' \<longleftrightarrow> edgeH ctx' = edgeH ctx \<and> (\<forall>p. vid ctx' p = vid ctx p) \<and>
     (\<forall>p. vert_global (vertH ctx' p) = vert_global (vertH ctx p)) \<and>
     ctx_globals ctx' = ctx_globals ctx \<and> ctx_graphs ctx' = ctx_graphs ctx \<and> next_addr ctx' = next_addr ctx"

definition removed :: "nat set \<Rightarrow> GddCtx \<Rightarrow> GddCtx \<Rightarrow> bool" where
  "removed D ctx ctx' \<longleftrightarrow> same_shape ctx ctx' \<and> graphH ctx' = graphH ctx \<and> edges_inv ctx' \<and> live ctx' = live ctx - D"

lemma same_shape_trans: "same_shape a b \<Longrightarrow> same_shape b c \<Longrightarrow> same_shape a c"
  by (simp add: same_shape_def)

lemma same_shape_refl [simp]: "same_shape ctx ctx"
  by (simp add: same_shape_def)

lemma removed_trans: "removed D a b \<Longrightarrow> removed E b c \<Longrightarrow> removed (D \<union> E) a c"
  by (auto simp: removed_def intro: same_shape_trans)

lemma removed_empty: "edges_inv ctx \<Longrightarrow> removed {} ctx ctx"
  by (simp add: removed_def)

lemma removed_inv: "removed D ctx ctx' \<Longrightarrow> edges_inv ctx'"
  by (simp add: removed_def)

lemma removed_cong: "removed D a b \<Longrightarrow> D \<inter> live a = E \<inter> live a \<Longrightarrow> removed E a b"
  by (auto simp: removed_def)

lemma gddEdgeUnlink_removed:
  assumes "edges_inv ctx" "e \<in> live ctx" "iter_ok e (edgesOut (vertH ctx (efrom ctx e))) fi"
    "iter_ok e (edgesIn (vertH ctx (eto ctx e))) ti"
  shows "removed {e} ctx (gddEdgeUnlink e fi ti ctx)"
  using gddEdgeUnlink_edges_inv[OF assms] by (simp add: removed_def same_shape_def unlink_simps)

lemma unlink_in_loop_removed:
  assumes "edges_inv ctx" "edgesIn (vertH ctx p) = es"
  shows "fst (unlink_in_loop es d ctx) = (d \<or> es \<noteq> []) \<and> removed (set es) ctx (snd (unlink_in_loop es d ctx))"
  using assms
proof (induction es arbitrary: d ctx)
  case Nil
  then show ?case by (simp add: removed_empty)
next
  case (Cons e rest)
  have e: "e \<in> live ctx" "eto ctx e = p"
    using edges_inv_edgesIn[OF Cons.prems(1), of p] Cons.prems(2) by auto
  let ?c = "gddEdgeUnlink e None (Some rest) ctx"
  have r: "removed {e} ctx ?c"
    using Cons.prems e by (intro gddEdgeUnlink_removed) (auto simp: iter_ok_def)
  have "edgesIn (vertH ?c p) = rest" using e by (simp add: unlink_simps)
  then show ?case
    using Cons.IH[OF removed_inv[OF r], of True] removed_trans[OF r, of "set rest"] by simp
qed

lemma unlink_out_loop_removed:
  assumes "edges_inv ctx" "edgesOut (vertH ctx p) = es"
  shows "fst (unlink_out_loop es d ctx) = (d \<or> es \<noteq> []) \<and> removed (set es) ctx (snd (unlink_out_loop es d ctx))"
  using assms
proof (induction es arbitrary: d ctx)
  case Nil
  then show ?case by (simp add: removed_empty)
next
  case (Cons e rest)
  have e: "e \<in> live ctx" "efrom ctx e = p"
    using edges_inv_edgesOut[OF Cons.prems(1), of p] Cons.prems(2) by auto
  let ?c = "gddEdgeUnlink e (Some rest) None ctx"
  have r: "removed {e} ctx ?c"
    using Cons.prems e by (intro gddEdgeUnlink_removed) (auto simp: iter_ok_def)
  have "edgesOut (vertH ?c p) = rest" using e by (simp add: unlink_simps)
  then show ?case
    using Cons.IH[OF removed_inv[OF r], of True] removed_trans[OF r, of "set rest"] by simp
qed

lemma unlink_dotted_loop_removed:
  assumes "edges_inv ctx" "edgesIn (vertH ctx p) = before @ es"
  shows "fst (unlink_dotted_loop before es d ctx) = (d \<or> (\<exists>e \<in> set es. \<not> edge_solid (edgeH ctx e))) \<and>
    removed {e \<in> set es. \<not> edge_solid (edgeH ctx e)} ctx (snd (unlink_dotted_loop before es d ctx))"
  using assms
proof (induction es arbitrary: before d ctx)
  case Nil
  then show ?case by (simp add: removed_empty)
next
  case (Cons e rest)
  show ?case
  proof (cases "edge_solid (edgeH ctx e)")
    case True
    moreover have "{x \<in> set (e # rest). \<not> edge_solid (edgeH ctx x)} = {x \<in> set rest. \<not> edge_solid (edgeH ctx x)}"
      using True by auto
    ultimately show ?thesis using Cons.IH[of ctx "before @ [e]" d] Cons.prems by simp
  next
    case False
    have e: "e \<in> live ctx" "eto ctx e = p"
      using edges_inv_edgesIn[OF Cons.prems(1), of p] Cons.prems(2) by auto
    have "e \<notin> set before" using edges_inv_distinct[OF Cons.prems(1), of p] Cons.prems(2) by simp
    then have rm: "remove1 e (edgesIn (vertH ctx p)) = before @ rest"
      using Cons.prems(2) by (simp add: remove1_append)
    let ?c = "gddEdgeUnlink e None (Some (before @ rest)) ctx"
    have r: "removed {e} ctx ?c"
      using Cons.prems(1) e rm by (intro gddEdgeUnlink_removed) (auto simp: iter_ok_def)
    have "edgesIn (vertH ?c p) = before @ rest" using e by (simp add: unlink_simps)
    note ih = Cons.IH[OF removed_inv[OF r] this, of True]
    have eq: "{x \<in> set (e # rest). \<not> edge_solid (edgeH ctx x)} =
        {e} \<union> {x \<in> set rest. \<not> edge_solid (edgeH ?c x)}" using False by auto
    show ?thesis unfolding eq using ih removed_trans[OF r] False by simp
  qed
qed

lemma gddVertUnlinkAll_removed:
  assumes inv: "edges_inv ctx"
  shows "fst (gddVertUnlinkAll p ctx) \<longleftrightarrow> (\<exists>e \<in> live ctx. efrom ctx e = p \<or> eto ctx e = p)"
    and "removed {e. efrom ctx e = p \<or> eto ctx e = p} ctx (snd (gddVertUnlinkAll p ctx))"
proof -
  let ?in = "edgesIn (vertH ctx p)"
  obtain d1 c1 where 1: "unlink_in_loop ?in False ctx = (d1, c1)" by fastforce
  then have d1: "d1 \<longleftrightarrow> ?in \<noteq> []" and r1: "removed (set ?in) ctx c1"
    using unlink_in_loop_removed[OF inv, of p ?in False] by auto
  let ?out = "edgesOut (vertH c1 p)"
  obtain d2 c2 where 2: "unlink_out_loop ?out d1 c1 = (d2, c2)" by fastforce
  then have d2: "d2 \<longleftrightarrow> d1 \<or> ?out \<noteq> []" and r2: "removed (set ?out) c1 c2"
    using unlink_out_loop_removed[OF removed_inv[OF r1], of p ?out d1] by auto
  have res: "gddVertUnlinkAll p ctx = (d2, c2)" by (simp add: gddVertUnlinkAll_def 1 2)
  have ins: "set ?in = {e \<in> live ctx. eto ctx e = p}" by (rule edges_inv_edgesIn[OF inv])
  have outs: "set ?out = {e \<in> live ctx - set ?in. efrom ctx e = p}"
    using edges_inv_edgesOut[OF removed_inv[OF r1], of p] r1 by (simp add: removed_def same_shape_def)
  have "d2 \<longleftrightarrow> set ?in \<noteq> {} \<or> set ?out \<noteq> {}" using d1 d2 by simp
  then show "fst (gddVertUnlinkAll p ctx) \<longleftrightarrow> (\<exists>e \<in> live ctx. efrom ctx e = p \<or> eto ctx e = p)"
    unfolding res using ins outs by auto
  show "removed {e. efrom ctx e = p \<or> eto ctx e = p} ctx (snd (gddVertUnlinkAll p ctx))"
    unfolding res snd_conv using removed_trans[OF r1 r2] by (rule removed_cong) (auto simp: ins outs)
qed


subsection \<open>Reducing one vertex\<close>

text \<open>The edges that one visit of vertex \<open>p\<close> deletes.\<close>

definition reducible :: "GddCtx \<Rightarrow> nat \<Rightarrow> nat set" where
  "reducible ctx p = {e \<in> live ctx.
     (efrom ctx e = p \<or> eto ctx e = p) \<and>
       ((\<forall>x \<in> live ctx. vid ctx (eto ctx x) \<noteq> vid ctx p) \<or> (\<forall>x \<in> live ctx. vid ctx (efrom ctx x) \<noteq> vid ctx p)) \<or>
     eto ctx e = p \<and> \<not> edge_solid (edgeH ctx e) \<and> (\<forall>x \<in> live ctx. efrom ctx x \<noteq> p)}"

lemma edges_inv_degrees:
  assumes "edges_inv ctx" "p \<in> vertices ctx"
  shows "indeg (statH ctx (the (vert_global (vertH ctx p)))) = 0 \<longleftrightarrow> (\<forall>x \<in> live ctx. vid ctx (eto ctx x) \<noteq> vid ctx p)"
    and "outdeg (statH ctx (the (vert_global (vertH ctx p)))) = 0 \<longleftrightarrow> (\<forall>x \<in> live ctx. vid ctx (efrom ctx x) \<noteq> vid ctx p)"
proof -
  obtain s where s: "vert_global (vertH ctx p) = Some s" "(vid ctx p, s) \<in> set (map_pairs (ctx_globals ctx))"
    using assms unfolding edges_inv_def bindings_def bound_def by blast
  have fin: "finite (live ctx)" using assms(1) by (rule edges_inv_finite)
  have "counts ctx" using assms(1) by (simp add: edges_inv_def)
  then have "indeg (statH ctx s) = int (card {e \<in> live ctx. vid ctx (eto ctx e) = vid ctx p})"
    "outdeg (statH ctx s) = int (card {e \<in> live ctx. vid ctx (efrom ctx e) = vid ctx p})"
    using s(2) unfolding counts_def by fastforce+
  then show "indeg (statH ctx (the (vert_global (vertH ctx p)))) = 0 \<longleftrightarrow> (\<forall>x \<in> live ctx. vid ctx (eto ctx x) \<noteq> vid ctx p)"
    "outdeg (statH ctx (the (vert_global (vertH ctx p)))) = 0 \<longleftrightarrow> (\<forall>x \<in> live ctx. vid ctx (efrom ctx x) \<noteq> vid ctx p)"
    using fin s(1) by auto
qed

lemma edges_inv_local_degrees:
  assumes "edges_inv ctx"
  shows "gddVertGetOutDegree p ctx = 0 \<longleftrightarrow> (\<forall>x \<in> live ctx. efrom ctx x \<noteq> p)"
    and "gddVertGetInDegree p ctx = 0 \<longleftrightarrow> (\<forall>x \<in> live ctx. eto ctx x \<noteq> p)"
proof -
  have "gddVertGetOutDegree p ctx = 0 \<longleftrightarrow> set (edgesOut (vertH ctx p)) = {}"
    "gddVertGetInDegree p ctx = 0 \<longleftrightarrow> set (edgesIn (vertH ctx p)) = {}"
    by (auto simp: gddVertGetOutDegree_def gddVertGetInDegree_def)
  then show "gddVertGetOutDegree p ctx = 0 \<longleftrightarrow> (\<forall>x \<in> live ctx. efrom ctx x \<noteq> p)"
    "gddVertGetInDegree p ctx = 0 \<longleftrightarrow> (\<forall>x \<in> live ctx. eto ctx x \<noteq> p)"
    unfolding edges_inv_edgesOut[OF assms] edges_inv_edgesIn[OF assms] by auto
qed

lemma gddVertReduce_removed:
  assumes inv: "edges_inv ctx" and p: "p \<in> vertices ctx"
  shows "(fst (gddVertReduce p ctx) \<longleftrightarrow> reducible ctx p \<noteq> {}) \<and> removed (reducible ctx p) ctx (snd (gddVertReduce p ctx))"
proof -
  let ?s = "statH ctx (the (vert_global (vertH ctx p)))"
  note deg = edges_inv_degrees[OF inv p]
  note out = edges_inv_local_degrees(1)[OF inv, of p]
  consider (all) "indeg ?s = 0 \<or> outdeg ?s = 0"
    | (dotted) "\<not> (indeg ?s = 0 \<or> outdeg ?s = 0)" "gddVertGetOutDegree p ctx = 0"
    | (none) "\<not> (indeg ?s = 0 \<or> outdeg ?s = 0)" "gddVertGetOutDegree p ctx \<noteq> 0" by blast
  then show ?thesis
  proof cases
    case all
    then have "gddVertReduce p ctx = gddVertUnlinkAll p ctx" by (simp add: gddVertReduce_def Let_def)
    moreover have "reducible ctx p = {e \<in> live ctx. efrom ctx e = p \<or> eto ctx e = p}"
      using all unfolding deg by (auto simp: reducible_def)
    ultimately show ?thesis
      using gddVertUnlinkAll_removed[OF inv, of p] by (auto intro: removed_cong)
  next
    case dotted
    then have "gddVertReduce p ctx = unlink_dotted_loop [] (edgesIn (vertH ctx p)) False ctx"
      by (simp add: gddVertReduce_def Let_def)
    moreover have "reducible ctx p = {e \<in> set (edgesIn (vertH ctx p)). \<not> edge_solid (edgeH ctx e)}"
      using dotted unfolding deg out edges_inv_edgesIn[OF inv] by (auto simp: reducible_def)
    ultimately show ?thesis
      using unlink_dotted_loop_removed[OF inv, of p "[]" "edgesIn (vertH ctx p)" False] by auto
  next
    case none
    then have "gddVertReduce p ctx = (False, ctx)" by (simp add: gddVertReduce_def Let_def)
    moreover have "reducible ctx p = {}"
      using none unfolding deg out by (auto simp: reducible_def)
    ultimately show ?thesis using inv by (simp add: removed_empty)
  qed
qed

subsection \<open>Passes over the graphs\<close>

text \<open>
  A set of edges is irreducible when no rule of the algorithm deletes one of its edges: the
  waiting transaction of each edge is waited for, the holding transaction of each edge waits,
  and the holder of a dotted edge waits on the same segment.
\<close>

definition irreducible :: "GddCtx \<Rightarrow> nat set \<Rightarrow> bool" where
  "irreducible ctx S \<longleftrightarrow> (\<forall>e \<in> S.
     (\<exists>x \<in> S. vid ctx (eto ctx x) = vid ctx (efrom ctx e)) \<and>
     (\<exists>x \<in> S. vid ctx (efrom ctx x) = vid ctx (eto ctx e)) \<and>
     (edge_solid (edgeH ctx e) \<or> (\<exists>x \<in> S. efrom ctx x = eto ctx e)))"

lemma irreducible_shape: "same_shape ctx ctx' \<Longrightarrow> irreducible ctx' S = irreducible ctx S"
  by (simp add: irreducible_def same_shape_def)

lemma reducible_shape: "same_shape ctx ctx' \<Longrightarrow> live ctx' = live ctx \<Longrightarrow> reducible ctx' p = reducible ctx p"
  by (simp add: reducible_def same_shape_def)

lemma irreducible_not_reducible:
  assumes "irreducible ctx S" "S \<subseteq> live ctx"
  shows "S \<inter> reducible ctx p = {}"
proof (rule ccontr)
  assume "S \<inter> reducible ctx p \<noteq> {}"
  then obtain e where e: "e \<in> S" "e \<in> reducible ctx p" by blast
  have "(\<exists>x \<in> S. vid ctx (eto ctx x) = vid ctx (efrom ctx e)) \<and> (\<exists>x \<in> S. vid ctx (efrom ctx x) = vid ctx (eto ctx e)) \<and>
     (edge_solid (edgeH ctx e) \<or> (\<exists>x \<in> S. efrom ctx x = eto ctx e))"
    using assms(1) e(1) unfolding irreducible_def by blast
  then show False using e assms(2) unfolding reducible_def by fastforce
qed

lemma irreducible_live:
  assumes inv: "edges_inv ctx" and none: "\<forall>p \<in> vertices ctx. reducible ctx p = {}"
  shows "irreducible ctx (live ctx)"
  unfolding irreducible_def
proof
  fix e assume e: "e \<in> live ctx"
  then have v: "efrom ctx e \<in> vertices ctx" "eto ctx e \<in> vertices ctx"
    using inv by (auto simp: edges_inv_def bindings_def)
  have f: "e \<notin> reducible ctx (efrom ctx e)" "e \<notin> reducible ctx (eto ctx e)" using none v by auto
  show "(\<exists>x \<in> live ctx. vid ctx (eto ctx x) = vid ctx (efrom ctx e)) \<and>
     (\<exists>x \<in> live ctx. vid ctx (efrom ctx x) = vid ctx (eto ctx e)) \<and>
     (edge_solid (edgeH ctx e) \<or> (\<exists>x \<in> live ctx. efrom ctx x = eto ctx e))"
    using f e unfolding reducible_def by auto
qed

text \<open>Deleting a pair moves the last pair into its place.\<close>

lemma gdd_map_iter_delete_pairs:
  assumes "pos < length (map_pairs m)"
  shows "\<exists>xs x ys zs. map_pairs m = xs @ x # ys \<and> length xs = pos \<and>
    map_pairs (gdd_map_iter_delete m pos) = xs @ zs \<and> mset zs = mset ys"
proof -
  obtain xs x ys where ps: "map_pairs m = xs @ x # ys" "length xs = pos"
    using id_take_nth_drop[OF assms] assms by (metis length_take min.absorb4)
  show ?thesis
  proof (cases ys rule: rev_cases)
    case Nil
    then have "map_pairs (gdd_map_iter_delete m pos) = xs @ []"
      using ps by (auto simp: gdd_map_iter_delete_def Let_def)
    then show ?thesis using ps Nil by (metis mset.simps(1))
  next
    case (snoc zs z)
    then have "map_pairs (gdd_map_iter_delete m pos) = xs @ (z # zs)"
      using ps by (auto simp: gdd_map_iter_delete_def Let_def nth_append list_update_append)
    moreover have "mset (z # zs) = mset ys" using snoc by simp
    ultimately show ?thesis using ps by blast
  qed
qed

lemma gdd_map_iter_delete_mset:
  assumes "pos < length (map_pairs m)"
  shows "add_mset (map_pairs m ! pos) (mset (map_pairs (gdd_map_iter_delete m pos))) = mset (map_pairs m)"
  using gdd_map_iter_delete_pairs[OF assms] by (auto simp: nth_append)

lemma gdd_map_iter_delete_drop:
  assumes "pos < length (map_pairs m)"
  shows "set (drop pos (map_pairs (gdd_map_iter_delete m pos))) = set (drop (Suc pos) (map_pairs m))"
  using gdd_map_iter_delete_pairs[OF assms] by (auto dest: mset_eq_setD)

text \<open>
  What a part of a pass does: it keeps the invariant, deletes no edge of an irreducible set,
  and takes out of the maps only vertices without edges.
\<close>

abbreviation idle :: "GddCtx \<Rightarrow> nat \<Rightarrow> bool" where
  "idle ctx p \<equiv> \<forall>e \<in> live ctx. efrom ctx e \<noteq> p \<and> eto ctx e \<noteq> p"

definition reduces :: "GddCtx \<Rightarrow> GddCtx \<Rightarrow> bool" where
  "reduces ctx ctx' \<longleftrightarrow> same_shape ctx ctx' \<and> edges_inv ctx' \<and> live ctx' \<subseteq> live ctx \<and>
     (\<forall>S. irreducible ctx S \<longrightarrow> S \<subseteq> live ctx \<longrightarrow> S \<subseteq> live ctx') \<and>
     (\<forall>g. mset (map_pairs (graph_verts (graphH ctx' g))) \<subseteq># mset (map_pairs (graph_verts (graphH ctx g)))) \<and>
     (\<forall>g. \<forall>p \<in> graph_vertices ctx g. p \<in> graph_vertices ctx' g \<or> idle ctx' p)"

lemma reduces_refl: "edges_inv ctx \<Longrightarrow> reduces ctx ctx"
  by (auto simp: reduces_def)

lemma reduces_inv: "reduces ctx ctx' \<Longrightarrow> edges_inv ctx'"
  by (simp add: reduces_def)

lemma reduces_trans:
  assumes "reduces a b" "reduces b c"
  shows "reduces a c"
  unfolding reduces_def
proof (intro conjI allI impI ballI)
  show "same_shape a c" using assms by (auto simp: reduces_def intro: same_shape_trans)
  show "edges_inv c" "live c \<subseteq> live a" using assms by (auto simp: reduces_def)
  show "S \<subseteq> live c" if "irreducible a S" "S \<subseteq> live a" for S
    using assms that irreducible_shape[of a b S] by (auto simp: reduces_def)
  show "mset (map_pairs (graph_verts (graphH c g))) \<subseteq># mset (map_pairs (graph_verts (graphH a g)))" for g
    using assms by (meson reduces_def subset_mset.order_trans)
  fix g p assume p: "p \<in> graph_vertices a g"
  have "p \<in> graph_vertices b g \<or> idle b p" using p assms(1) by (simp add: reduces_def)
  then show "p \<in> graph_vertices c g \<or> idle c p"
  proof
    assume "p \<in> graph_vertices b g"
    then show ?thesis using assms(2) by (simp add: reduces_def)
  next
    assume "idle b p"
    then show ?thesis using assms(2) by (auto simp: reduces_def same_shape_def)
  qed
qed

lemma gddVertReduce_reduces:
  assumes "edges_inv ctx" "p \<in> vertices ctx"
  shows "reduces ctx (snd (gddVertReduce p ctx))"
proof -
  have r: "removed (reducible ctx p) ctx (snd (gddVertReduce p ctx))"
    using gddVertReduce_removed[OF assms] by blast
  then have g: "graphH (snd (gddVertReduce p ctx)) = graphH ctx" by (simp add: removed_def)
  show ?thesis
    using r irreducible_not_reducible[of ctx _ p]
    by (auto simp: reduces_def removed_def graph_vertices_def)
qed

lemma delete_vert_reduces:
  assumes inv: "edges_inv ctx" and pos: "pos < length (map_pairs (graph_verts (graphH ctx graph)))"
    and idle: "idle ctx (snd (map_pairs (graph_verts (graphH ctx graph)) ! pos))"
  shows "reduces ctx (upd_graph graph (\<lambda>g. g\<lparr>graph_verts := gdd_map_iter_delete (graph_verts g) pos\<rparr>) ctx)"
    (is "reduces ctx ?c")
proof -
  let ?ps = "map_pairs (graph_verts (graphH ctx graph))"
  have m: "add_mset (?ps ! pos) (mset (map_pairs (gdd_map_iter_delete (graph_verts (graphH ctx graph)) pos))) = mset ?ps"
    by (rule gdd_map_iter_delete_mset[OF pos])
  have s: "insert (?ps ! pos) (set (map_pairs (gdd_map_iter_delete (graph_verts (graphH ctx graph)) pos))) = set ?ps"
    using arg_cong[OF m, of set_mset] by simp
  have gv: "graph_vertices ?c g \<subseteq> graph_vertices ctx g" for g
    using s by (auto simp: graph_vertices_def)
  have gv': "p \<in> graph_vertices ?c g \<or> idle ctx p" if "p \<in> graph_vertices ctx g" for g p
  proof (cases "g = graph")
    case True
    have "insert (snd (?ps ! pos)) (graph_vertices ?c graph) = graph_vertices ctx graph"
      using arg_cong[OF s, of "image snd"] by (simp add: graph_vertices_def)
    then have "p = snd (?ps ! pos) \<or> p \<in> graph_vertices ?c graph" using that True by blast
    then show ?thesis using True idle by blast
  next
    case False
    then show ?thesis using that by (simp add: graph_vertices_def)
  qed
  have shape: "same_shape ctx ?c" and live: "live ?c = live ctx" by (auto simp: same_shape_def live_def)
  have gp: "graph_ptrs ?c = graph_ptrs ctx" by (simp add: graph_ptrs_def)
  have v: "vertices ?c \<subseteq> vertices ctx" using gv gp unfolding vertices_def by blast
  have v': "p \<in> vertices ?c \<or> idle ctx p" if "p \<in> vertices ctx" for p
    using that gv' gp unfolding vertices_def by blast
  have "links ?c" "counts ?c" using inv live by (auto simp: edges_inv_def links_def counts_def)
  moreover have "bindings ?c"
    using inv v v' by (fastforce simp: edges_inv_def bindings_def live globals_ok_def bound_def)
  ultimately have "edges_inv ?c" by (simp add: edges_inv_def)
  moreover have "mset (map_pairs (graph_verts (graphH ?c g))) \<subseteq># mset (map_pairs (graph_verts (graphH ctx g)))" for g
    by (simp add: m[symmetric])
  ultimately show ?thesis
    unfolding reduces_def live using shape gv' by auto
qed

definition pass_ok :: "bool \<Rightarrow> nat set \<Rightarrow> GddCtx \<Rightarrow> bool \<times> GddCtx \<Rightarrow> bool" where
  "pass_ok dirty V ctx r \<longleftrightarrow> reduces ctx (snd r) \<and> (fst r \<longleftrightarrow> dirty \<or> live (snd r) \<noteq> live ctx) \<and>
     (live (snd r) = live ctx \<longrightarrow> (\<forall>p \<in> V. reducible ctx p = {}))"

lemma pass_ok_empty: "edges_inv ctx \<Longrightarrow> pass_ok dirty {} ctx (dirty, ctx)"
  by (simp add: pass_ok_def reduces_refl)

lemma pass_ok_trans:
  assumes 1: "pass_ok d V a (d1, b)" and 2: "pass_ok d1 W b r"
    and W: "\<forall>p \<in> U. p \<in> V \<or> p \<in> W \<or> idle b p"
  shows "pass_ok d U a r"
proof -
  have ra: "reduces a b" and rb: "reduces b (snd r)" using 1 2 by (auto simp: pass_ok_def)
  have sub: "live (snd r) \<subseteq> live b" "live b \<subseteq> live a" using ra rb by (auto simp: reduces_def)
  have "reducible a p = {}" if same: "live (snd r) = live a" and p: "p \<in> U" for p
  proof -
    have lb: "live b = live a" "live (snd r) = live b" using same sub by auto
    have eq: "reducible b p = reducible a p"
      using ra lb by (intro reducible_shape) (auto simp: reduces_def)
    consider "p \<in> V" | "p \<in> W" | "idle b p" using W p by blast
    then show ?thesis
    proof cases
      case 1
      then show ?thesis using assms(1) lb by (simp add: pass_ok_def)
    next
      case 2
      then show ?thesis using assms(2) lb eq by (simp add: pass_ok_def)
    next
      case 3
      then have "reducible b p = {}" unfolding reducible_def by blast
      then show ?thesis using eq by simp
    qed
  qed
  moreover have "fst r \<longleftrightarrow> d \<or> live (snd r) \<noteq> live a"
    using 1 2 sub by (auto simp: pass_ok_def)
  ultimately show ?thesis using reduces_trans[OF ra rb] by (simp add: pass_ok_def)
qed

lemma gddVertReduce_pass:
  assumes "edges_inv ctx" "p \<in> vertices ctx"
  shows "pass_ok dirty {p} ctx (if fst (gddVertReduce p ctx) then True else dirty, snd (gddVertReduce p ctx))"
proof -
  have r: "fst (gddVertReduce p ctx) \<longleftrightarrow> reducible ctx p \<noteq> {}"
    "live (snd (gddVertReduce p ctx)) = live ctx - reducible ctx p"
    using gddVertReduce_removed[OF assms] by (auto simp: removed_def)
  have "reducible ctx p \<subseteq> live ctx" by (auto simp: reducible_def)
  then have "live (snd (gddVertReduce p ctx)) = live ctx \<longleftrightarrow> reducible ctx p = {}" using r(2) by auto
  then show ?thesis using r(1) gddVertReduce_reduces[OF assms] by (auto simp: pass_ok_def)
qed

lemma delete_vert_pass:
  assumes "edges_inv ctx" "pos < length (map_pairs (graph_verts (graphH ctx graph)))"
    and "idle ctx (snd (map_pairs (graph_verts (graphH ctx graph)) ! pos))"
  shows "pass_ok dirty {} ctx
    (dirty, upd_graph graph (\<lambda>g. g\<lparr>graph_verts := gdd_map_iter_delete (graph_verts g) pos\<rparr>) ctx)"
  using delete_vert_reduces[OF assms] by (simp add: pass_ok_def live_def)

lemma reduce_verts_pass:
  assumes "edges_inv ctx" "graph \<in> graph_ptrs ctx"
  shows "pass_ok dirty (snd ` set (drop pos (map_pairs (graph_verts (graphH ctx graph))))) ctx
    (reduce_verts graph pos dirty ctx)"
  using assms
proof (induction graph pos dirty ctx rule: reduce_verts.induct)
  case (1 graph pos dirty ctx)
  let ?ps = "map_pairs (graph_verts (graphH ctx graph))"
  show ?case
  proof (cases "pos < length ?ps")
    case False
    then show ?thesis using 1(3) by (simp add: reduce_verts.simps pass_ok_empty)
  next
    case True
    define p where "p = snd (?ps ! pos)"
    define c1 where "c1 = snd (gddVertReduce p ctx)"
    define d1 where "d1 = (if fst (gddVertReduce p ctx) then True else dirty)"
    have pair: "gddVertReduce p ctx = (fst (gddVertReduce p ctx), c1)" by (simp add: c1_def)
    have "p \<in> graph_vertices ctx graph" using True by (auto simp: p_def graph_vertices_def)
    then have "p \<in> vertices ctx" using 1(4) by (auto simp: vertices_def)
    then have pass1: "pass_ok dirty {p} ctx (d1, c1)"
      unfolding d1_def c1_def by (rule gddVertReduce_pass[OF 1(3)])
    have g1: "graphH c1 = graphH ctx" by (simp add: c1_def)
    have inv1: "edges_inv c1" and gr1: "graph_ptrs c1 = graph_ptrs ctx"
      using pass1 by (auto simp: pass_ok_def reduces_def same_shape_def graph_ptrs_def)
    have dr: "drop pos ?ps = ?ps ! pos # drop (Suc pos) ?ps" using True by (simp add: Cons_nth_drop_Suc)
    have step: "reduce_verts graph pos dirty ctx =
      (if gddVertGetInDegree p c1 = 0 \<and> gddVertGetOutDegree p c1 = 0
       then reduce_verts graph pos d1
              (upd_graph graph (\<lambda>g. g\<lparr>graph_verts := gdd_map_iter_delete (graph_verts g) pos\<rparr>) c1)
       else reduce_verts graph (pos + 1) d1 c1)"
      using True unfolding reduce_verts.simps[of graph pos dirty ctx] p_def[symmetric] Let_def d1_def
      by (subst pair) simp
    show ?thesis
    proof (cases "gddVertGetInDegree p c1 = 0 \<and> gddVertGetOutDegree p c1 = 0")
      case idle: True
      define c2 where "c2 = upd_graph graph (\<lambda>g. g\<lparr>graph_verts := gdd_map_iter_delete (graph_verts g) pos\<rparr>) c1"
      have "idle c1 p" using idle edges_inv_local_degrees[OF inv1, of p] by blast
      then have pass2: "pass_ok d1 {} c1 (d1, c2)"
        unfolding c2_def using delete_vert_pass[OF inv1, of pos graph d1] True by (simp add: g1 p_def)
      have pass12: "pass_ok dirty {p} ctx (d1, c2)"
        using pass1 pass2 by (rule pass_ok_trans) simp
      have inv2: "edges_inv c2" "graph_ptrs c2 = graph_ptrs ctx"
        using pass12 by (auto simp: pass_ok_def reduces_def same_shape_def graph_ptrs_def)
      have dr2: "set (drop pos (map_pairs (graph_verts (graphH c2 graph)))) = set (drop (Suc pos) ?ps)"
        using gdd_map_iter_delete_drop[OF True] by (simp add: c2_def g1)
      have res: "reduce_verts graph pos dirty ctx = reduce_verts graph pos d1 c2"
        using True idle step unfolding c2_def by simp
      have "pass_ok d1 (snd ` set (drop (Suc pos) ?ps)) c2 (reduce_verts graph pos d1 c2)"
        unfolding dr2[symmetric] using 1(1)[OF True p_def pair[symmetric] refl d1_def idle] inv2 1(4) unfolding c2_def by simp
      from pass_ok_trans[OF pass12 this] show ?thesis unfolding res dr by (simp add: p_def)
    next
      case busy: False
      have res: "reduce_verts graph pos dirty ctx = reduce_verts graph (pos + 1) d1 c1"
        unfolding step if_not_P[OF busy] ..
      have "pass_ok d1 (snd ` set (drop (Suc pos) ?ps)) c1 (reduce_verts graph (pos + 1) d1 c1)"
        using 1(2)[OF True p_def pair[symmetric] refl d1_def busy inv1] 1(4) gr1 g1 by simp
      from pass_ok_trans[OF pass1 this] show ?thesis unfolding res dr by (simp add: p_def)
    qed
  qed
qed

lemma reduce_graphs_pass:
  assumes "edges_inv ctx" "set gs \<subseteq> graph_ptrs ctx"
  shows "pass_ok dirty (\<Union>g \<in> set gs. graph_vertices ctx g) ctx (reduce_graphs gs dirty ctx)"
  using assms
proof (induction gs arbitrary: dirty ctx)
  case Nil
  then show ?case by (simp add: pass_ok_empty)
next
  case (Cons g gs)
  obtain d1 c1 where r: "reduce_verts g 0 dirty ctx = (d1, c1)" by fastforce
  have pass1: "pass_ok dirty (graph_vertices ctx g) ctx (d1, c1)"
    using reduce_verts_pass[OF Cons.prems(1), of g dirty 0] Cons.prems(2) r by (simp add: graph_vertices_def)
  then have red: "reduces ctx c1" by (simp add: pass_ok_def)
  then have inv1: "edges_inv c1" "graph_ptrs c1 = graph_ptrs ctx"
    by (auto simp: reduces_def same_shape_def graph_ptrs_def)
  have "pass_ok d1 (\<Union>g \<in> set gs. graph_vertices c1 g) c1 (reduce_graphs gs d1 c1)"
    using Cons inv1 by auto
  with pass1 have "pass_ok dirty (\<Union>g \<in> set (g # gs). graph_vertices ctx g) ctx (reduce_graphs gs d1 c1)"
  proof (rule pass_ok_trans)
    have "p \<in> (\<Union>g \<in> set gs. graph_vertices c1 g) \<or> idle c1 p" if "h \<in> set gs" "p \<in> graph_vertices ctx h" for h p
      using red that by (force simp: reduces_def)
    then show "\<forall>p \<in> \<Union> (graph_vertices ctx ` set (g # gs)).
       p \<in> graph_vertices ctx g \<or> p \<in> \<Union> (graph_vertices c1 ` set gs) \<or> idle c1 p" by auto
  qed
  then show ?case by (simp add: r)
qed

lemma GddCtxReduce_pass:
  assumes "edges_inv ctx"
  shows "pass_ok False (vertices ctx) ctx (reduce_graphs (map snd (map_pairs (ctx_graphs ctx))) False ctx)"
  using reduce_graphs_pass[OF assms, of "map snd (map_pairs (ctx_graphs ctx))" False] by (simp add: vertices_def graph_ptrs_def)

text \<open>The reduction always comes to an end, in a context whose edges are irreducible.\<close>

lemma GddCtxReduce_correct:
  assumes "edges_inv ctx"
  shows "\<exists>ctx'. GddCtxReduce ctx = Some ctx' \<and> reduces ctx ctx' \<and> irreducible ctx' (live ctx')"
  using assms
proof (induction "card (live ctx)" arbitrary: ctx rule: less_induct)
  case less
  obtain d c where r: "reduce_graphs (map snd (map_pairs (ctx_graphs ctx))) False ctx = (d, c)" by fastforce
  have pass: "pass_ok False (vertices ctx) ctx (d, c)"
    using GddCtxReduce_pass[OF less.prems] r by simp
  then have red: "reduces ctx c" by (simp add: pass_ok_def)
  note step = GddCtxReduce.simps[of ctx, unfolded r]
  show ?case
  proof (cases d)
    case False
    then have "live c = live ctx" using pass by (simp add: pass_ok_def)
    then have "\<forall>p \<in> vertices ctx. reducible ctx p = {}" using pass by (simp add: pass_ok_def)
    then have "irreducible ctx (live ctx)" using less.prems irreducible_live by blast
    then have "irreducible c (live c)" using red irreducible_shape[of ctx c] \<open>live c = live ctx\<close> by (simp add: reduces_def)
    then show ?thesis using step False red by simp
  next
    case True
    then have "live c \<subset> live ctx" using pass red by (auto simp: pass_ok_def reduces_def)
    then have "card (live c) < card (live ctx)" using edges_inv_finite[OF less.prems] by (rule psubset_card_mono[rotated])
    then obtain c' where "GddCtxReduce c = Some c'" "reduces c c'" "irreducible c' (live c')"
      using less.hyps[of c] reduces_inv[OF red] by blast
    then show ?thesis using step True reduces_trans[OF red] by auto
  qed
qed

subsection \<open>Building the graphs\<close>

definition maps_inv :: "GddCtx \<Rightarrow> bool" where
  "maps_inv ctx \<longleftrightarrow>
     distinct (map fst (map_pairs (ctx_graphs ctx))) \<and> distinct (map snd (map_pairs (ctx_graphs ctx))) \<and>
     (\<forall>g \<in> graph_ptrs ctx. distinct (map fst (map_pairs (graph_verts (graphH ctx g)))) \<and>
        (\<forall>(k, p) \<in> set (map_pairs (graph_verts (graphH ctx g))). vid ctx p = k)) \<and>
     (\<forall>g \<in> graph_ptrs ctx. \<forall>h \<in> graph_ptrs ctx. g \<noteq> h \<longrightarrow> graph_vertices ctx g \<inter> graph_vertices ctx h = {}) \<and>
     (\<forall>e \<in> live ctx. \<exists>g \<in> graph_ptrs ctx. efrom ctx e \<in> graph_vertices ctx g \<and> eto ctx e \<in> graph_vertices ctx g)"

definition fresh_inv :: "GddCtx \<Rightarrow> bool" where
  "fresh_inv ctx \<longleftrightarrow> (\<forall>g \<in> graph_ptrs ctx. g < next_addr ctx) \<and> (\<forall>p \<in> vertices ctx. p < next_addr ctx) \<and>
     (\<forall>s \<in> snd ` set (map_pairs (ctx_globals ctx)). s < next_addr ctx) \<and> (\<forall>e \<in> live ctx. e < next_addr ctx)"

text \<open>The invariant while an edge is being added: the vertices of \<open>X\<close> may not be bound yet.\<close>

definition build_inv :: "nat set \<Rightarrow> GddCtx \<Rightarrow> bool" where
  "build_inv X ctx \<longleftrightarrow> links ctx \<and> counts ctx \<and> globals_ok ctx \<and>
     (\<forall>p \<in> vertices ctx. bound ctx p \<or> p \<in> X) \<and>
     (\<forall>e \<in> live ctx. bound ctx (efrom ctx e) \<and> bound ctx (eto ctx e)) \<and> maps_inv ctx \<and> fresh_inv ctx"

definition gdd_inv :: "GddCtx \<Rightarrow> bool" where
  "gdd_inv ctx \<longleftrightarrow> edges_inv ctx \<and> maps_inv ctx \<and> fresh_inv ctx"

lemma maps_inv_endpoints:
  "maps_inv ctx \<Longrightarrow> e \<in> live ctx \<Longrightarrow> efrom ctx e \<in> vertices ctx \<and> eto ctx e \<in> vertices ctx"
  by (fastforce simp: maps_inv_def vertices_def)

lemma gdd_inv_build_inv: "gdd_inv ctx \<longleftrightarrow> build_inv {} ctx"
  using maps_inv_endpoints[of ctx]
  by (auto simp: gdd_inv_def build_inv_def edges_inv_def bindings_def)

lemma gdd_inv_edges_inv: "gdd_inv ctx \<Longrightarrow> edges_inv ctx"
  by (simp add: gdd_inv_def)

text \<open>What an addition keeps of the part of the context that is there already.\<close>

definition extends :: "GddCtx \<Rightarrow> GddCtx \<Rightarrow> bool" where
  "extends a b \<longleftrightarrow> (\<forall>x < next_addr a. edgeH b x = edgeH a x) \<and> (\<forall>p < next_addr a. vid b p = vid a p) \<and>
     set (map_pairs (ctx_graphs a)) \<subseteq> set (map_pairs (ctx_graphs b)) \<and>
     (\<forall>g \<in> graph_ptrs a. graph_vertices a g \<subseteq> graph_vertices b g) \<and> next_addr a \<le> next_addr b"

lemma extends_refl [simp]: "extends a a"
  by (simp add: extends_def)

lemma extends_trans:
  assumes "extends a b" "extends b c"
  shows "extends a c"
  unfolding extends_def
proof (intro conjI ballI allI impI)
  have n: "next_addr a \<le> next_addr b" using assms(1) by (simp add: extends_def)
  show "edgeH c x = edgeH a x" "vid c x = vid a x" if "x < next_addr a" for x
    using assms that n by (auto simp: extends_def)
  show "set (map_pairs (ctx_graphs a)) \<subseteq> set (map_pairs (ctx_graphs c))" "next_addr a \<le> next_addr c"
    using assms by (auto simp: extends_def)
  show "graph_vertices a g \<subseteq> graph_vertices c g" if g: "g \<in> graph_ptrs a" for g
  proof -
    have "g \<in> graph_ptrs b" using assms(1) g by (auto simp: extends_def graph_ptrs_def)
    then show ?thesis using assms g unfolding extends_def by blast
  qed
qed

lemma gddMapGetPair_Some: "gddMapGetPair m key = Some pr \<Longrightarrow> pr \<in> set (map_pairs m) \<and> fst pr = key"
  by (auto simp: gddMapGetPair_def for_return_Some_iff Let_def split: if_splits)

lemma gddMapGetPair_None: "gddMapGetPair m key = None \<longleftrightarrow> key \<notin> fst ` set (map_pairs m)"
proof -
  have "gddMapGetPair m key = None \<longleftrightarrow> (\<forall>i < length (map_pairs m). fst (map_pairs m ! i) \<noteq> key)"
    by (auto simp: gddMapGetPair_def for_return_None_iff Let_def split: if_splits)
  also have "\<dots> \<longleftrightarrow> (\<forall>x \<in> set (map_pairs m). fst x \<noteq> key)" by (simp add: all_set_conv_all_nth)
  finally show ?thesis by auto
qed

lemma gddMapGet_Some: "gddMapGet m key = Some p \<Longrightarrow> (key, p) \<in> set (map_pairs m)"
  using gddMapGetPair_Some[of m key] by (auto simp: gddMapGet_def split: option.splits)

lemma gddMapGet_None: "gddMapGet m key = None \<longleftrightarrow> key \<notin> fst ` set (map_pairs m)"
  using gddMapGetPair_None[of m key] by (auto simp: gddMapGet_def split: option.splits)

lemma gddMapSetUnsafe_pairs [simp]: "map_pairs (gddMapSetUnsafe m k p) = map_pairs m @ [(k, p)]"
  by (simp add: gddMapSetUnsafe_def gddMapEnsureCapacity_def Let_def)

lemma gddMapInit_pairs [simp]: "map_pairs gddMapInit = []"
  by (simp add: gddMapInit_def)

lemma gddCtxGetGraph_build:
  assumes inv: "build_inv X ctx"
  shows "build_inv X (snd (gddCtxGetGraph segid ctx)) \<and> extends ctx (snd (gddCtxGetGraph segid ctx)) \<and>
    live (snd (gddCtxGetGraph segid ctx)) = live ctx \<and>
    (segid, fst (gddCtxGetGraph segid ctx)) \<in> set (map_pairs (ctx_graphs (snd (gddCtxGetGraph segid ctx))))"
proof (cases "gddMapGet (ctx_graphs ctx) segid")
  case (Some g)
  then show ?thesis using inv gddMapGet_Some[OF Some] by (simp add: gddCtxGetGraph_def)
next
  case None
  let ?n = "next_addr ctx"
  define c where "c = snd (gddCtxGetGraph segid ctx)"
  have c: "gddCtxGetGraph segid ctx = (?n, c)"
    using None by (simp add: c_def gddCtxGetGraph_def gddGraphNew_def)
  have f: "statH c = statH ctx" "vertH c = vertH ctx" "edgeH c = edgeH ctx" "ctx_globals c = ctx_globals ctx"
    "ctx_topstat c = ctx_topstat ctx" "next_addr c = Suc ?n" "map_pairs (ctx_graphs c) = map_pairs (ctx_graphs ctx) @ [(segid, ?n)]"
    "graphH c = (graphH ctx)(?n := \<lparr>graph_id = segid, graph_verts = gddMapInit\<rparr>)"
    using None by (auto simp: c_def gddCtxGetGraph_def gddGraphNew_def)
  have new: "segid \<notin> fst ` set (map_pairs (ctx_graphs ctx))" using None by (simp add: gddMapGet_None)
  have fr: "\<forall>g \<in> graph_ptrs ctx. g < ?n" using inv by (simp add: build_inv_def fresh_inv_def)
  have gv: "graph_vertices c g = (if g = ?n then {} else graph_vertices ctx g)" for g
    by (simp add: graph_vertices_def f)
  have nn: "?n \<notin> graph_ptrs ctx" using fr by blast
  have gp: "graph_ptrs c = insert ?n (graph_ptrs ctx)" by (simp add: graph_ptrs_def f)
  have gv': "graph_vertices c ?n = {}" "g \<in> graph_ptrs ctx \<Longrightarrow> graph_vertices c g = graph_vertices ctx g" for g
    using nn by (auto simp: gv)
  have vs: "vertices c = vertices ctx" unfolding vertices_def gp using gv' by simp
  have lv: "live c = live ctx" by (simp add: live_def f)
  have "links c" "counts c" "globals_ok c" using inv by (auto simp: build_inv_def links_def counts_def globals_ok_def lv f)
  moreover have bd: "bound c p = bound ctx p" for p by (simp add: bound_def f)
  moreover have "maps_inv c"
  proof -
    have m: "maps_inv ctx" using inv by (simp add: build_inv_def)
    have d: "distinct (map fst (map_pairs (ctx_graphs c)))" "distinct (map snd (map_pairs (ctx_graphs c)))"
      using m new nn by (auto simp: maps_inv_def graph_ptrs_def f)
    have "\<exists>g \<in> graph_ptrs c. efrom ctx e \<in> graph_vertices c g \<and> eto ctx e \<in> graph_vertices c g" if "e \<in> live ctx" for e
      using m that gv'(2) gp unfolding maps_inv_def by (metis insertCI)
    moreover have "graph_vertices c g \<inter> graph_vertices c h = {}" if "g \<in> graph_ptrs c" "h \<in> graph_ptrs c" "g \<noteq> h" for g h
    proof (cases "g = ?n \<or> h = ?n")
      case False
      then have gh: "g \<in> graph_ptrs ctx" "h \<in> graph_ptrs ctx" using that gp by auto
      then have "graph_vertices ctx g \<inter> graph_vertices ctx h = {}" using m that unfolding maps_inv_def by blast
      then show ?thesis using gv'(2)[OF gh(1)] gv'(2)[OF gh(2)] by simp
    qed (use gv'(1) in auto)
    moreover have "distinct (map fst (map_pairs (graph_verts (graphH c g)))) \<and>
        (\<forall>(k, p) \<in> set (map_pairs (graph_verts (graphH c g))). vid c p = k)" if "g \<in> graph_ptrs c" for g
      using m that nn unfolding maps_inv_def gp by (auto simp: f)
    ultimately show ?thesis using d unfolding maps_inv_def lv f(3) by blast
  qed
  moreover have "fresh_inv c"
    using inv unfolding build_inv_def fresh_inv_def lv vs gp by (auto simp: f less_Suc_eq)
  ultimately have "build_inv X c" using inv by (simp add: build_inv_def lv vs f)
  moreover have "extends ctx c" using gv'(2) by (auto simp: extends_def f)
  ultimately show ?thesis by (simp add: c lv f)
qed

lemma gddGraphGetVert_build:
  assumes inv: "build_inv X ctx" and graph: "graph \<in> graph_ptrs ctx"
    and r: "gddGraphGetVert graph i ctx = (p, c)"
  shows "build_inv (insert p X) c \<and> extends ctx c \<and> live c = live ctx \<and> p \<in> graph_vertices c graph \<and>
    vid c p = i \<and> graph_ptrs c = graph_ptrs ctx"
proof (cases "gddMapGet (graph_verts (graphH ctx graph)) i")
  case (Some q)
  then have "c = ctx" "p = q" using r by (auto simp: gddGraphGetVert_def)
  moreover have "(i, q) \<in> set (map_pairs (graph_verts (graphH ctx graph)))" by (rule gddMapGet_Some[OF Some])
  moreover have "vid ctx q = i"
    using calculation(3) inv graph unfolding build_inv_def maps_inv_def by fastforce
  moreover have "build_inv (insert q X) ctx" using inv by (auto simp: build_inv_def)
  ultimately show ?thesis by (force simp: graph_vertices_def)
next
  case None
  let ?n = "next_addr ctx"
  let ?vp = "\<lambda>g. map_pairs (graph_verts (graphH ctx g))"
  have p: "p = ?n" using r None by (simp add: gddGraphGetVert_def gddVertNew_def)
  have f: "statH c = statH ctx" "edgeH c = edgeH ctx" "ctx_globals c = ctx_globals ctx" "ctx_graphs c = ctx_graphs ctx"
    "ctx_topstat c = ctx_topstat ctx" "next_addr c = Suc ?n"
    "vertH c = (vertH ctx)(?n := \<lparr>vert_id = i, vert_topstat = False, vert_global = None, edgesIn = [], edgesOut = []\<rparr>)"
    using r None by (auto simp: gddGraphGetVert_def gddVertNew_def)
  have vp: "map_pairs (graph_verts (graphH c g)) = (if g = graph then ?vp g @ [(i, ?n)] else ?vp g)" for g
    using r None by (auto simp: gddGraphGetVert_def gddVertNew_def)
  have new: "i \<notin> fst ` set (?vp graph)" using None by (simp add: gddMapGet_None)
  have m: "maps_inv ctx" and fr: "fresh_inv ctx" and l: "links ctx" using inv by (auto simp: build_inv_def)
  have vn: "?n \<notin> vertices ctx" using fr by (auto simp: fresh_inv_def)
  have ends: "efrom ctx e \<noteq> ?n \<and> eto ctx e \<noteq> ?n" if "e \<in> live ctx" for e
    using maps_inv_endpoints[OF m that] vn by auto
  have gv: "graph_vertices c g = (if g = graph then insert ?n (graph_vertices ctx g) else graph_vertices ctx g)" for g
    by (simp add: graph_vertices_def vp)
  have gp: "graph_ptrs c = graph_ptrs ctx" by (simp add: graph_ptrs_def f)
  have vs: "vertices c = insert ?n (vertices ctx)" unfolding vertices_def gp gv using graph by auto
  have out0: "edgesOut (vertH ctx ?n) = []" "edgesIn (vertH ctx ?n) = []"
    using l ends unfolding links_def by (metis (mono_tags, lifting) empty_Collect_eq set_empty)+
  have lv: "live c = live ctx" by (auto simp: live_def f out0)
  have "links c" using l ends unfolding links_def lv f by (auto simp: out0)
  moreover have "counts c"
  proof -
    have "{e \<in> live ctx. vid c (eto ctx e) = j} = {e \<in> live ctx. vid ctx (eto ctx e) = j}"
      "{e \<in> live ctx. vid c (efrom ctx e) = j} = {e \<in> live ctx. vid ctx (efrom ctx e) = j}" for j
      using ends by (auto simp: f)
    then show ?thesis using inv unfolding build_inv_def counts_def lv f(1-6) by simp
  qed
  moreover have "globals_ok c" using inv by (simp add: build_inv_def globals_ok_def f)
  moreover have bd: "bound c q = bound ctx q" if "q \<noteq> ?n" for q using that by (simp add: bound_def f)
  moreover have "maps_inv c"
  proof -
    have ptr: "q \<noteq> ?n" if "g \<in> graph_ptrs ctx" "(k, q) \<in> set (?vp g)" for g k q
      using that vn by (force simp: vertices_def graph_vertices_def)
    have dj: "?n \<notin> graph_vertices ctx g" if "g \<in> graph_ptrs ctx" for g
      using that vn by (auto simp: vertices_def)
    have "distinct (map fst (map_pairs (graph_verts (graphH c g)))) \<and>
        (\<forall>(k, p) \<in> set (map_pairs (graph_verts (graphH c g))). vid c p = k)" if g: "g \<in> graph_ptrs ctx" for g
      using m g ptr[OF g] new unfolding maps_inv_def vp by (auto simp: f)
    moreover have "graph_vertices c g \<inter> graph_vertices c h = {}"
      if "g \<in> graph_ptrs ctx" "h \<in> graph_ptrs ctx" "g \<noteq> h" for g h
    proof -
      have "graph_vertices ctx g \<inter> graph_vertices ctx h = {}" using m that unfolding maps_inv_def by blast
      then show ?thesis using that dj unfolding gv by auto
    qed
    moreover have "\<exists>g \<in> graph_ptrs ctx. efrom ctx e \<in> graph_vertices c g \<and> eto ctx e \<in> graph_vertices c g"
      if "e \<in> live ctx" for e
    proof -
      obtain g where "g \<in> graph_ptrs ctx" "efrom ctx e \<in> graph_vertices ctx g" "eto ctx e \<in> graph_vertices ctx g"
        using m \<open>e \<in> live ctx\<close> unfolding maps_inv_def by blast
      then show ?thesis unfolding gv by auto
    qed
    moreover have "distinct (map fst (map_pairs (ctx_graphs ctx)))" "distinct (map snd (map_pairs (ctx_graphs ctx)))"
      using m by (simp_all add: maps_inv_def)
    ultimately show ?thesis unfolding maps_inv_def lv gp f(2,4) by simp
  qed
  moreover have "fresh_inv c" using fr unfolding fresh_inv_def lv vs gp f(3,4,6) by (auto simp: less_Suc_eq)
  moreover have "\<forall>e \<in> live ctx. bound c (efrom ctx e) \<and> bound c (eto ctx e)"
    using inv ends bd by (auto simp: build_inv_def)
  moreover have "\<forall>q \<in> vertices c. bound c q \<or> q \<in> insert p X"
    using inv bd vs p vn by (auto simp: build_inv_def)
  ultimately have "build_inv (insert p X) c" unfolding build_inv_def lv f(2) by blast
  moreover have "extends ctx c" by (auto simp: extends_def f gv)
  ultimately show ?thesis by (simp add: lv gv p gp f)
qed

lemma build_inv_live: "build_inv X ctx \<Longrightarrow> e \<in> live ctx \<Longrightarrow> e < next_addr ctx"
  by (simp add: build_inv_def fresh_inv_def)

lemma build_inv_edgesOut: "build_inv X ctx \<Longrightarrow> set (edgesOut (vertH ctx p)) = {e \<in> live ctx. efrom ctx e = p}"
  by (simp add: build_inv_def links_def)

lemma build_inv_vert:
  assumes "build_inv X ctx" "graph \<in> graph_ptrs ctx" "p \<in> graph_vertices ctx graph"
  shows "p < next_addr ctx"
  using assms by (auto simp: build_inv_def fresh_inv_def vertices_def)

text \<open>Changes of the store that leave the linked edges, the vertex maps and the degrees alone.\<close>

lemma build_inv_frame:
  assumes inv: "build_inv X ctx"
    and same: "vertH c = vertH ctx" "ctx_topstat c = ctx_topstat ctx" "ctx_graphs c = ctx_graphs ctx"
      "graphH c = graphH ctx" "next_addr c \<ge> next_addr ctx" "statH c = statH ctx" "ctx_globals c = ctx_globals ctx"
    and lv: "live c = live ctx" and ed: "\<And>e. e \<in> live ctx \<Longrightarrow> edgeH c e = edgeH ctx e"
  shows "build_inv X c"
proof -
  have sets: "{e \<in> live ctx. P (edgeH c e)} = {e \<in> live ctx. P (edgeH ctx e)}" for P using ed by auto
  have gv: "graph_vertices c = graph_vertices ctx" "graph_ptrs c = graph_ptrs ctx"
    by (auto simp: graph_vertices_def graph_ptrs_def same fun_eq_iff)
  then have vs: "vertices c = vertices ctx" by (simp add: vertices_def)
  have "links c" using inv unfolding build_inv_def links_def lv same
    using sets[of "\<lambda>x. edge_from x = _"] sets[of "\<lambda>x. edge_to x = _"] by simp
  moreover have "counts c" using inv unfolding build_inv_def counts_def lv same
    using sets[of "\<lambda>x. vid ctx (edge_to x) = _"] sets[of "\<lambda>x. vid ctx (edge_from x) = _"] by simp
  moreover have "globals_ok c" using inv by (simp add: build_inv_def globals_ok_def same)
  moreover have b: "bound c p = bound ctx p" for p by (simp add: bound_def same)
  moreover have "maps_inv c" using inv ed unfolding build_inv_def maps_inv_def lv same gv by simp
  moreover have "fresh_inv c" using inv same(5) unfolding build_inv_def fresh_inv_def lv same gv vs by fastforce
  ultimately show ?thesis using inv ed unfolding build_inv_def lv vs by simp
qed

lemma gddEdgeNew_build:
  assumes inv: "build_inv X ctx" and r: "gddEdgeNew vfrom vto solid ctx = (e, c)"
  shows "build_inv X c \<and> extends ctx c \<and> live c = live ctx \<and> e \<notin> live c \<and> e < next_addr c \<and>
    edgeH c e = \<lparr>edge_solid = solid, edge_from = vfrom, edge_to = vto\<rparr> \<and> vertH c = vertH ctx \<and>
    ctx_graphs c = ctx_graphs ctx \<and> graphH c = graphH ctx"
proof -
  have e: "e = next_addr ctx" and c: "c = ctx\<lparr>edgeH := (edgeH ctx)(next_addr ctx := \<lparr>edge_solid = solid, edge_from = vfrom, edge_to = vto\<rparr>),
          next_addr := next_addr ctx + 1\<rparr>" using r by (auto simp: gddEdgeNew_def)
  have n: "next_addr ctx \<notin> live ctx" using build_inv_live[OF inv] by blast
  have "next_addr ctx \<notin> set (edgesOut (vertH ctx vfrom))" using n build_inv_edgesOut[OF inv] by simp
  then have lv: "live c = live ctx" using n by (auto simp: live_def c)
  have "build_inv X c" by (rule build_inv_frame[OF inv]) (use n lv in \<open>auto simp: c\<close>)
  then show ?thesis using n lv by (simp add: e c extends_def graph_vertices_def)
qed

lemma gddCtxGetGlobalStat_build:
  assumes inv: "build_inv X ctx" and r: "gddCtxGetGlobalStat i ctx = (s, c)"
  shows "build_inv X c \<and> extends ctx c \<and> live c = live ctx \<and> (i, s) \<in> set (map_pairs (ctx_globals c)) \<and>
    edgeH c = edgeH ctx \<and> vertH c = vertH ctx \<and> ctx_graphs c = ctx_graphs ctx \<and> graphH c = graphH ctx \<and>
    next_addr ctx \<le> next_addr c \<and> (\<forall>q. bound ctx q \<longrightarrow> bound c q)"
proof (cases "gddMapGet (ctx_globals ctx) i")
  case (Some s')
  then show ?thesis using inv r gddMapGet_Some[OF Some] by (simp add: gddCtxGetGlobalStat_def)
next
  case None
  let ?n = "next_addr ctx"
  have s: "s = ?n" and c: "c = ctx\<lparr>statH := (statH ctx)(?n := gddStatInit i), next_addr := ?n + 1,
      ctx_globals := gddMapSetUnsafe (ctx_globals ctx) i ?n\<rparr>"
    using r None by (auto simp: gddCtxGetGlobalStat_def gddStatNew_def)
  have new: "i \<notin> fst ` set (map_pairs (ctx_globals ctx))" using None by (simp add: gddMapGet_None)
  have fr: "\<forall>s \<in> snd ` set (map_pairs (ctx_globals ctx)). s < ?n" using inv by (simp add: build_inv_def fresh_inv_def)
  have lv: "live c = live ctx" by (simp add: live_def c)
  have gv: "graph_vertices c = graph_vertices ctx" "graph_ptrs c = graph_ptrs ctx"
    by (auto simp: graph_vertices_def graph_ptrs_def c fun_eq_iff)
  then have vs: "vertices c = vertices ctx" by (simp add: vertices_def)
  have ends: "vid ctx (efrom ctx e) \<noteq> i \<and> vid ctx (eto ctx e) \<noteq> i" if "e \<in> live ctx" for e
    using inv that new unfolding build_inv_def bound_def by force
  then have zero: "card {e \<in> live ctx. vid ctx (eto ctx e) = i} = 0" "card {e \<in> live ctx. vid ctx (efrom ctx e) = i} = 0"
    by (auto simp: card_eq_0_iff)
  have old: "t \<noteq> ?n" if "(j, t) \<in> set (map_pairs (ctx_globals ctx))" for j t using fr that by force
  have "counts ctx" using inv by (simp add: build_inv_def)
  then have "counts c" unfolding counts_def lv using zero old by (auto simp: c gddStatInit_def)
  moreover have "links c" using inv unfolding build_inv_def links_def lv by (simp add: c)
  moreover have "globals_ok c" using inv new fr by (auto simp: build_inv_def globals_ok_def c)
  moreover have b: "\<forall>p. bound ctx p \<longrightarrow> bound c p" by (auto simp: bound_def c)
  moreover have "maps_inv c" using inv unfolding build_inv_def maps_inv_def lv gv by (simp add: c)
  moreover have "fresh_inv c" using inv unfolding build_inv_def fresh_inv_def lv vs gv by (auto simp: c less_Suc_eq)
  moreover have "edgeH c = edgeH ctx" by (simp add: c)
  ultimately have "build_inv X c" using inv unfolding build_inv_def lv vs by auto
  then show ?thesis using lv b by (simp add: s c extends_def graph_vertices_def)
qed

lemma gddVertBindStats_build:
  assumes inv: "build_inv X ctx" and g: "(vid ctx p, s) \<in> set (map_pairs (ctx_globals ctx))"
  shows "build_inv (X - {p}) (gddVertBindStats p s ctx) \<and> extends ctx (gddVertBindStats p s ctx) \<and>
    live (gddVertBindStats p s ctx) = live ctx \<and> bound (gddVertBindStats p s ctx) p \<and>
    edgeH (gddVertBindStats p s ctx) = edgeH ctx \<and> (\<forall>q. vid (gddVertBindStats p s ctx) q = vid ctx q) \<and>
    ctx_globals (gddVertBindStats p s ctx) = ctx_globals ctx \<and>
    ctx_graphs (gddVertBindStats p s ctx) = ctx_graphs ctx \<and> graphH (gddVertBindStats p s ctx) = graphH ctx \<and>
    next_addr (gddVertBindStats p s ctx) = next_addr ctx \<and> (\<forall>q. bound ctx q \<longrightarrow> bound (gddVertBindStats p s ctx) q)"
proof -
  define c where "c = gddVertBindStats p s ctx"
  have c: "c = upd_vert p (\<lambda>v. v\<lparr>vert_global := Some s, vert_topstat := True\<rparr>) ctx"
    by (simp add: c_def gddVertBindStats_def)
  have v: "vid c q = vid ctx q" "edgesOut (vertH c q) = edgesOut (vertH ctx q)" "edgesIn (vertH c q) = edgesIn (vertH ctx q)" for q
    by (auto simp: c)
  have f: "statH c = statH ctx" "edgeH c = edgeH ctx" "ctx_globals c = ctx_globals ctx" "ctx_graphs c = ctx_graphs ctx"
    "ctx_topstat c = ctx_topstat ctx" "next_addr c = next_addr ctx" "graphH c = graphH ctx"
    by (auto simp: c)
  have lv: "live c = live ctx" by (simp add: live_def v f)
  have gv: "graph_vertices c = graph_vertices ctx" "graph_ptrs c = graph_ptrs ctx"
    by (auto simp: graph_vertices_def graph_ptrs_def f fun_eq_iff)
  then have vs: "vertices c = vertices ctx" by (simp add: vertices_def)
  have bp: "bound c p" using g by (simp add: bound_def c)
  have b: "bound c q" if "bound ctx q" for q using that g by (auto simp: bound_def c)
  have "links c" "counts c" "globals_ok c" "maps_inv c" "fresh_inv c"
    using inv unfolding build_inv_def links_def counts_def globals_ok_def maps_inv_def fresh_inv_def lv v f vs gv by simp_all
  then have "build_inv (X - {p}) c" using inv b bp unfolding build_inv_def lv vs f by auto
  moreover have "extends ctx c" by (simp add: extends_def f v gv)
  ultimately show ?thesis using lv bp b f v unfolding c_def by simp
qed

lemma gddEdgeLink_fields:
  "edgesOut (vertH (gddEdgeLink e ctx) q) = edgesOut (vertH ctx q) @ (if q = efrom ctx e then [e] else [])"
  "edgesIn (vertH (gddEdgeLink e ctx) q) = edgesIn (vertH ctx q) @ (if q = eto ctx e then [e] else [])"
  "vid (gddEdgeLink e ctx) q = vid ctx q" "vert_global (vertH (gddEdgeLink e ctx) q) = vert_global (vertH ctx q)"
  "edgeH (gddEdgeLink e ctx) = edgeH ctx" "ctx_globals (gddEdgeLink e ctx) = ctx_globals ctx"
  "ctx_graphs (gddEdgeLink e ctx) = ctx_graphs ctx" "graphH (gddEdgeLink e ctx) = graphH ctx"
  "next_addr (gddEdgeLink e ctx) = next_addr ctx"
  "indeg (ctx_topstat (gddEdgeLink e ctx)) = indeg (ctx_topstat ctx) + 1"
  "outdeg (ctx_topstat (gddEdgeLink e ctx)) = outdeg (ctx_topstat ctx) + 1"
  "indeg (statH (gddEdgeLink e ctx) s) =
     indeg (statH ctx s) + (if s = the (vert_global (vertH ctx (eto ctx e))) then 1 else 0)"
  "outdeg (statH (gddEdgeLink e ctx) s) =
     outdeg (statH ctx s) + (if s = the (vert_global (vertH ctx (efrom ctx e))) then 1 else 0)"
  by (auto simp: gddEdgeLink_def Let_def)

lemma gddEdgeLink_build:
  assumes inv: "build_inv X ctx" and e: "e \<notin> live ctx" "e < next_addr ctx"
    and g: "g \<in> graph_ptrs ctx" "efrom ctx e \<in> graph_vertices ctx g" "eto ctx e \<in> graph_vertices ctx g"
    and b: "bound ctx (efrom ctx e)" "bound ctx (eto ctx e)"
  shows "build_inv X (gddEdgeLink e ctx) \<and> live (gddEdgeLink e ctx) = insert e (live ctx)"
proof -
  let ?c = "gddEdgeLink e ctx"
  note f = gddEdgeLink_fields[of e ctx]
  have lv: "live ?c = insert e (live ctx)"
    unfolding live_def f(1,5) by auto
  have gv: "graph_vertices ?c = graph_vertices ctx" "graph_ptrs ?c = graph_ptrs ctx"
    by (auto simp: graph_vertices_def graph_ptrs_def f fun_eq_iff)
  then have vs: "vertices ?c = vertices ctx" by (simp add: vertices_def)
  have bd: "bound ?c q = bound ctx q" for q by (simp add: bound_def f)
  have l: "links ctx" and cc: "counts ctx" and go: "globals_ok ctx" using inv by (auto simp: build_inv_def)
  have fin: "finite (live ctx)" using cc by (simp add: counts_def)
  have "links ?c" using l e unfolding links_def lv f by auto
  moreover have "counts ?c"
    unfolding counts_def lv f(5,6)
  proof (intro conjI ballI)
    show "finite (insert e (live ctx))" using fin by simp
    show "indeg (ctx_topstat ?c) = int (card (insert e (live ctx)))" "outdeg (ctx_topstat ?c) = int (card (insert e (live ctx)))"
      using fin e cc by (auto simp: f counts_def)
    fix x assume x: "x \<in> set (map_pairs (ctx_globals ctx))"
    obtain i u where xi: "x = (i, u)" by (cases x)
    obtain s t where s: "vert_global (vertH ctx (efrom ctx e)) = Some s" "(vid ctx (efrom ctx e), s) \<in> set (map_pairs (ctx_globals ctx))"
      and t: "vert_global (vertH ctx (eto ctx e)) = Some t" "(vid ctx (eto ctx e), t) \<in> set (map_pairs (ctx_globals ctx))"
      using b by (auto simp: bound_def)
    have "u = s \<longleftrightarrow> i = vid ctx (efrom ctx e)" "u = t \<longleftrightarrow> i = vid ctx (eto ctx e)"
      using stat_ptr_unique[OF go x[unfolded xi]] s t by auto
    then show "case x of (i, s) \<Rightarrow> indeg (statH ?c s) = int (card {y \<in> insert e (live ctx). vid ?c (eto ctx y) = i}) \<and>
        outdeg (statH ?c s) = int (card {y \<in> insert e (live ctx). vid ?c (efrom ctx y) = i})"
      using cc x s t unfolding xi f(3) int_card_insert[OF fin e(1)] by (auto simp: f counts_def)
  qed
  moreover have "globals_ok ?c" using go by (simp add: globals_ok_def f)
  moreover have "maps_inv ?c" using inv g unfolding build_inv_def maps_inv_def lv gv f by auto
  moreover have "fresh_inv ?c" using inv e unfolding build_inv_def fresh_inv_def lv gv vs f by auto
  ultimately have "build_inv X ?c" using inv b unfolding build_inv_def lv vs bd f(5) by auto
  then show ?thesis using lv by blast
qed

end
