(* ===== verification/Gdd_Correctness.thy ===== *)
theory Gdd_Correctness
  imports Gdd_Invariant
begin

text \<open>
  The detector against a specification over plain lists of waits.  A wait is a row (segment,
  waiting transaction, holding transaction, solid).  A set of waits is irreducible when no
  rule of the algorithm deletes one of its members, and \<open>survivors\<close> is the greatest such set.
  The contexts that the code goes through are shown to hold exactly the waits of the
  specification (\<open>tracks\<close>), from which the properties of detection and of breaking follow.
\<close>

subsection \<open>Adding the waits\<close>

type_synonym wait = "int \<times> int \<times> int \<times> bool"

definition edge_row :: "GddCtx \<Rightarrow> nat \<Rightarrow> wait \<Rightarrow> bool" where
  "edge_row ctx e = (\<lambda>(segid, from, to, solid). \<exists>g. (segid, g) \<in> set (map_pairs (ctx_graphs ctx)) \<and>
     efrom ctx e \<in> graph_vertices ctx g \<and> eto ctx e \<in> graph_vertices ctx g \<and>
     vid ctx (efrom ctx e) = from \<and> vid ctx (eto ctx e) = to \<and> edge_solid (edgeH ctx e) = solid)"

lemma graph_ptrsI: "(k, g) \<in> set (map_pairs (ctx_graphs ctx)) \<Longrightarrow> g \<in> graph_ptrs ctx"
  by (force simp: graph_ptrs_def)

lemma extends_edge_row:
  assumes "extends a b" "build_inv X a" "e < next_addr a" "edge_row a e r"
  shows "edge_row b e r"
proof -
  obtain seg f t sd where r: "r = (seg, f, t, sd)" by (cases r)
  obtain g where g: "(seg, g) \<in> set (map_pairs (ctx_graphs a))" "efrom a e \<in> graph_vertices a g" "eto a e \<in> graph_vertices a g"
    "vid a (efrom a e) = f" "vid a (eto a e) = t" "edge_solid (edgeH a e) = sd"
    using assms(4) unfolding edge_row_def r by auto
  note gp = graph_ptrsI[OF g(1)]
  have "edgeH b e = edgeH a e" using assms(1,3) by (simp add: extends_def)
  moreover have "vid b (efrom a e) = f" "vid b (eto a e) = t"
    using assms(1) g build_inv_vert[OF assms(2) gp] by (auto simp: extends_def)
  moreover have "graph_vertices a g \<subseteq> graph_vertices b g" "(seg, g) \<in> set (map_pairs (ctx_graphs b))"
    using assms(1) gp g(1) by (auto simp: extends_def)
  ultimately show ?thesis unfolding edge_row_def r using g by auto
qed

lemma gddGraphMakeEdge_build:
  assumes inv: "build_inv {} ctx" and g: "(segid, g) \<in> set (map_pairs (ctx_graphs ctx))"
    and r: "gddGraphMakeEdge g from to solid ctx = (e, c)"
  shows "build_inv {efrom c e, eto c e} c \<and> extends ctx c \<and> live c = live ctx \<and> e \<notin> live c \<and>
    e < next_addr c \<and> edge_row c e (segid, from, to, solid)"
proof -
  note gp = graph_ptrsI[OF g]
  obtain p c1 where 1: "gddGraphGetVert g from ctx = (p, c1)" by fastforce
  obtain q c2 where 2: "gddGraphGetVert g to c1 = (q, c2)" by fastforce
  have 3: "gddEdgeNew p q solid c2 = (e, c)" using r by (simp add: gddGraphMakeEdge_def 1 2)
  note a1 = gddGraphGetVert_build[OF inv gp 1]
  have a2: "build_inv (insert q {p}) c2 \<and> extends c1 c2 \<and> live c2 = live c1 \<and> q \<in> graph_vertices c2 g \<and>
    vid c2 q = to \<and> graph_ptrs c2 = graph_ptrs c1"
    using gddGraphGetVert_build[OF _ _ 2, of "{p}"] a1 gp by simp
  note a3 = gddEdgeNew_build[OF conjunct1[OF a2] 3]
  have e12: "extends ctx c2" using a1 a2 extends_trans by blast
  have gp1: "g \<in> graph_ptrs c1" using a1 gp by simp
  have "p < next_addr c1" using a1 build_inv_vert[OF _ gp1] by blast
  then have p2: "vid c2 p = from" "p \<in> graph_vertices c2 g" using a1 a2 gp1 by (auto simp: extends_def)
  have s2: "(segid, g) \<in> set (map_pairs (ctx_graphs c2))" using e12 g by (auto simp: extends_def)
  have ef: "efrom c e = p" "eto c e = q" using a3 by auto
  have "edge_row c e (segid, from, to, solid)"
    using a2 a3 p2 s2 unfolding edge_row_def prod.case by (intro exI[of _ g]) (simp add: graph_vertices_def)
  moreover have "build_inv {efrom c e, eto c e} c" using a3 ef by (simp add: insert_commute)
  moreover have "live c = live ctx" "e \<notin> live c" "e < next_addr c" "extends c2 c" using a1 a2 a3 by auto
  ultimately show ?thesis using extends_trans[OF e12] by blast
qed

text \<open>Adding an edge links exactly that edge and keeps the invariant and the other edges.\<close>

definition adds :: "wait \<Rightarrow> GddCtx \<Rightarrow> GddCtx \<Rightarrow> bool" where
  "adds r ctx c \<longleftrightarrow> gdd_inv c \<and> (\<exists>e. e \<notin> live ctx \<and> live c = insert e (live ctx) \<and> edge_row c e r) \<and>
     (\<forall>x \<in> live ctx. \<forall>s. edge_row ctx x s \<longrightarrow> edge_row c x s)"

lemma gddVertBindStats_rows:
  "edge_row (gddVertBindStats p s ctx) e r = edge_row ctx e r"
  by (cases r) (simp add: gddVertBindStats_def edge_row_def graph_vertices_def)

lemma gddEdgeLink_rows: "edge_row (gddEdgeLink d ctx) e r = edge_row ctx e r"
  by (cases r) (simp add: gddEdgeLink_fields edge_row_def graph_vertices_def)

lemma GddCtxAddEdge_adds:
  assumes "gdd_inv ctx"
  shows "adds (segid, from, to, solid) ctx (GddCtxAddEdge segid from to solid ctx)"
proof -
  obtain g c1 where 1: "gddCtxGetGraph segid ctx = (g, c1)" by fastforce
  obtain e c2 where 2: "gddGraphMakeEdge g from to solid c1 = (e, c2)" by fastforce
  obtain s c3 where 3: "gddCtxGetGlobalStat from c2 = (s, c3)" by fastforce
  define c4 where "c4 = gddVertBindStats (efrom c2 e) s c3"
  obtain t c5 where 5: "gddCtxGetGlobalStat to c4 = (t, c5)" by fastforce
  define c6 where "c6 = gddVertBindStats (eto c2 e) t c5"
  have inv: "build_inv {} ctx" using assms by (simp add: gdd_inv_build_inv)
  have a1: "build_inv {} c1" "extends ctx c1" "live c1 = live ctx" "(segid, g) \<in> set (map_pairs (ctx_graphs c1))"
    using gddCtxGetGraph_build[OF inv, of segid] 1 by auto
  have a2: "build_inv {efrom c2 e, eto c2 e} c2" "extends c1 c2" "live c2 = live c1" "e \<notin> live c2" "e < next_addr c2"
    "edge_row c2 e (segid, from, to, solid)"
    using gddGraphMakeEdge_build[OF a1(1,4) 2] by auto
  note a3 = gddCtxGetGlobalStat_build[OF a2(1) 3]
  have v2: "vid c2 (efrom c2 e) = from" "vid c2 (eto c2 e) = to" using a2(6) by (auto simp: edge_row_def)
  have a4: "build_inv ({efrom c2 e, eto c2 e} - {efrom c2 e}) c4 \<and> extends c3 c4 \<and> live c4 = live c3 \<and> bound c4 (efrom c2 e) \<and>
    edgeH c4 = edgeH c3 \<and> (\<forall>q. vid c4 q = vid c3 q) \<and> ctx_globals c4 = ctx_globals c3 \<and> ctx_graphs c4 = ctx_graphs c3 \<and>
    graphH c4 = graphH c3 \<and> next_addr c4 = next_addr c3 \<and> (\<forall>q. bound c3 q \<longrightarrow> bound c4 q)"
    unfolding c4_def using a3 v2 by (intro gddVertBindStats_build) auto
  note a5 = gddCtxGetGlobalStat_build[OF conjunct1[OF a4] 5]
  have "build_inv ({efrom c2 e, eto c2 e} - {efrom c2 e} - {eto c2 e}) c6 \<and> extends c5 c6 \<and> live c6 = live c5 \<and> bound c6 (eto c2 e) \<and>
    edgeH c6 = edgeH c5 \<and> (\<forall>q. vid c6 q = vid c5 q) \<and> ctx_globals c6 = ctx_globals c5 \<and> ctx_graphs c6 = ctx_graphs c5 \<and>
    graphH c6 = graphH c5 \<and> next_addr c6 = next_addr c5 \<and> (\<forall>q. bound c5 q \<longrightarrow> bound c6 q)"
    unfolding c6_def using a5 a4 a3 v2 by (intro gddVertBindStats_build) auto
  moreover have empty: "{efrom c2 e, eto c2 e} - {efrom c2 e} - {eto c2 e} = {}" by auto
  ultimately have a6: "build_inv {} c6" "extends c5 c6" "live c6 = live c5" "bound c6 (eto c2 e)" "edgeH c6 = edgeH c5"
    "ctx_graphs c6 = ctx_graphs c5" "next_addr c6 = next_addr c5" "\<forall>q. bound c5 q \<longrightarrow> bound c6 q"
    unfolding empty by blast+
  have ext: "extends c2 c6" using a3 a4 a5 a6(2) extends_trans by metis
  have row: "edge_row c6 e (segid, from, to, solid)" by (rule extends_edge_row[OF ext a2(1,5,6)])
  have lv: "live c6 = live ctx" using a1 a2 a3 a4 a5 a6 by simp
  have eH: "edgeH c6 = edgeH c2" using a3 a4 a5 a6 by simp
  have "bound c5 (efrom c2 e)" using a4 a5 by blast
  then have bd: "bound c6 (efrom c6 e)" "bound c6 (eto c6 e)" using a6 eH by auto
  obtain h where h: "(segid, h) \<in> set (map_pairs (ctx_graphs c6))" "efrom c6 e \<in> graph_vertices c6 h" "eto c6 e \<in> graph_vertices c6 h"
    using row by (auto simp: edge_row_def)
  have "e \<notin> live c6" "e < next_addr c6" using a1 a2 a3 a4 a5 a6 by auto
  note link = gddEdgeLink_build[OF a6(1) this graph_ptrsI[OF h(1)] h(2,3) bd]
  have res: "GddCtxAddEdge segid from to solid ctx = gddEdgeLink e c6"
    using a3 a4 a5 by (simp add: GddCtxAddEdge_def 1 2 3 5 Let_def c4_def[symmetric] c6_def[symmetric])
  have "edge_row c6 x r" if "x \<in> live ctx" "edge_row ctx x r" for x r
    using extends_edge_row[OF extends_trans[OF a1(2) extends_trans[OF a2(2) ext]] inv build_inv_live[OF inv that(1)] that(2)] .
  then show ?thesis unfolding res adds_def gddEdgeLink_rows
    using link lv row a2(3,4) a1(3) by (auto simp: gdd_inv_build_inv)
qed

definition gdd_build :: "wait list \<Rightarrow> GddCtx" where
  "gdd_build rows = fold (\<lambda>(segid, from, to, solid) ctx. GddCtxAddEdge segid from to solid ctx) rows GddCtxNew"

lemma GddCtxNew_inv: "gdd_inv GddCtxNew" "live GddCtxNew = {}"
  by (auto simp: gdd_inv_def edges_inv_def links_def counts_def bindings_def globals_ok_def maps_inv_def fresh_inv_def
    GddCtxNew_def live_def vertices_def graph_ptrs_def gddStatInit_def)

text \<open>The context holds the rows at the indexes \<open>I\<close>; the edge of row \<open>i\<close> is at address \<open>es ! i\<close>.\<close>

definition tracks :: "nat list \<Rightarrow> wait list \<Rightarrow> nat set \<Rightarrow> GddCtx \<Rightarrow> bool" where
  "tracks es rows I ctx \<longleftrightarrow> gdd_inv ctx \<and> distinct es \<and> length es = length rows \<and> I \<subseteq> {..<length rows} \<and>
     live ctx = (!) es ` I \<and> (\<forall>i \<in> I. edge_row ctx (es ! i) (rows ! i))"

lemma gdd_build_tracks: "\<exists>es. tracks es rows {..<length rows} (gdd_build rows)"
proof (induction rows rule: rev_induct)
  case Nil
  then show ?case by (simp add: tracks_def gdd_build_def GddCtxNew_inv)
next
  case (snoc r rows)
  then obtain es where es: "tracks es rows {..<length rows} (gdd_build rows)" by blast
  have nths: "(!) xs ` {..<length xs} = set xs" for xs :: "nat list" by (auto simp: in_set_conv_nth)
  have live: "live (gdd_build rows) = set es" using es nths[of es] by (simp add: tracks_def)
  obtain segid a b solid where r: "r = (segid, a, b, solid)" by (cases r)
  have step: "gdd_build (rows @ [r]) = GddCtxAddEdge segid a b solid (gdd_build rows)"
    by (simp add: gdd_build_def r)
  have ad: "adds r (gdd_build rows) (gdd_build (rows @ [r]))"
    unfolding step using GddCtxAddEdge_adds[of "gdd_build rows" segid a b solid] es by (simp add: tracks_def r)
  then obtain e where e: "e \<notin> set es" "live (gdd_build (rows @ [r])) = insert e (set es)" "edge_row (gdd_build (rows @ [r])) e r"
    using live unfolding adds_def by metis
  have "edge_row (gdd_build (rows @ [r])) ((es @ [e]) ! i) ((rows @ [r]) ! i)" if "i < length (rows @ [r])" for i
  proof (cases "i < length rows")
    case True
    then have "edge_row (gdd_build rows) (es ! i) (rows ! i)" "es ! i \<in> live (gdd_build rows)"
      using es live by (auto simp: tracks_def)
    then have "edge_row (gdd_build (rows @ [r])) (es ! i) (rows ! i)" using ad unfolding adds_def by blast
    then show ?thesis using True es by (simp add: nth_append tracks_def)
  next
    case False
    then show ?thesis using that e(3) es by (auto simp: nth_append tracks_def less_Suc_eq)
  qed
  then have "tracks (es @ [e]) (rows @ [r]) {..<length (rows @ [r])} (gdd_build (rows @ [r]))"
    using ad e es nths[of "es @ [e]"] by (simp add: tracks_def adds_def)
  then show ?case by blast
qed


subsection \<open>The specification over the waits\<close>

abbreviation w_seg :: "wait \<Rightarrow> int" where "w_seg r \<equiv> fst r"
abbreviation w_from :: "wait \<Rightarrow> int" where "w_from r \<equiv> fst (snd r)"
abbreviation w_to :: "wait \<Rightarrow> int" where "w_to r \<equiv> fst (snd (snd r))"
abbreviation w_solid :: "wait \<Rightarrow> bool" where "w_solid r \<equiv> snd (snd (snd r))"

definition irreducible_waits :: "wait list \<Rightarrow> nat set \<Rightarrow> bool" where
  "irreducible_waits rows I \<longleftrightarrow> (\<forall>i \<in> I.
     (\<exists>j \<in> I. w_to (rows ! j) = w_from (rows ! i)) \<and>
     (\<exists>j \<in> I. w_from (rows ! j) = w_to (rows ! i)) \<and>
     (w_solid (rows ! i) \<or> (\<exists>j \<in> I. w_seg (rows ! j) = w_seg (rows ! i) \<and> w_from (rows ! j) = w_to (rows ! i))))"

definition survivors :: "wait list \<Rightarrow> nat set \<Rightarrow> nat set" where
  "survivors rows I = \<Union> {J. J \<subseteq> I \<and> irreducible_waits rows J}"

lemma survivors_greatest:
  "irreducible_waits rows (survivors rows I)" "survivors rows I \<subseteq> I"
  "J \<subseteq> I \<Longrightarrow> irreducible_waits rows J \<Longrightarrow> J \<subseteq> survivors rows I"
proof -
  show "irreducible_waits rows (survivors rows I)"
    unfolding irreducible_waits_def
  proof
    fix i assume "i \<in> survivors rows I"
    then obtain J where J: "i \<in> J" "J \<subseteq> survivors rows I" "irreducible_waits rows J" by (auto simp: survivors_def)
    from J(1,3) have "(\<exists>j \<in> J. w_to (rows ! j) = w_from (rows ! i)) \<and> (\<exists>j \<in> J. w_from (rows ! j) = w_to (rows ! i)) \<and>
       (w_solid (rows ! i) \<or> (\<exists>j \<in> J. w_seg (rows ! j) = w_seg (rows ! i) \<and> w_from (rows ! j) = w_to (rows ! i)))"
      unfolding irreducible_waits_def by blast
    with J(2) show "(\<exists>j \<in> survivors rows I. w_to (rows ! j) = w_from (rows ! i)) \<and>
       (\<exists>j \<in> survivors rows I. w_from (rows ! j) = w_to (rows ! i)) \<and>
       (w_solid (rows ! i) \<or> (\<exists>j \<in> survivors rows I. w_seg (rows ! j) = w_seg (rows ! i) \<and> w_from (rows ! j) = w_to (rows ! i)))"
      by blast
  qed
qed (auto simp: survivors_def)

lemma same_graph:
  assumes "maps_inv ctx" "(k, g) \<in> set (map_pairs (ctx_graphs ctx))" "(l, h) \<in> set (map_pairs (ctx_graphs ctx))"
    and "p \<in> graph_vertices ctx g" "q \<in> graph_vertices ctx h"
  shows "p = q \<longleftrightarrow> k = l \<and> vid ctx p = vid ctx q"
proof
  assume "p = q"
  then have "g = h" using assms graph_ptrsI[OF assms(2)] graph_ptrsI[OF assms(3)] unfolding maps_inv_def by blast
  moreover have "inj_on snd (set (map_pairs (ctx_graphs ctx)))" using assms(1) by (simp add: maps_inv_def distinct_map)
  ultimately show "k = l \<and> vid ctx p = vid ctx q" using assms(2,3) \<open>p = q\<close> inj_onD[of snd _ "(k, g)" "(l, h)"] by auto
next
  assume kl: "k = l \<and> vid ctx p = vid ctx q"
  have "distinct (map fst (map_pairs (ctx_graphs ctx)))" using assms(1) by (simp add: maps_inv_def)
  then have gh: "g = h" using kl assms(2,3) by (metis eq_key_imp_eq_value)
  have d: "distinct (map fst (map_pairs (graph_verts (graphH ctx g)))) \<and>
      (\<forall>(k, p) \<in> set (map_pairs (graph_verts (graphH ctx g))). vid ctx p = k)"
    using assms(1) graph_ptrsI[OF assms(2)] by (simp add: maps_inv_def)
  obtain i j where "(i, p) \<in> set (map_pairs (graph_verts (graphH ctx g)))" "(j, q) \<in> set (map_pairs (graph_verts (graphH ctx g)))"
    using assms(4,5) gh by (auto simp: graph_vertices_def)
  moreover from this have "vid ctx p = i" "vid ctx q = j" using d by auto
  ultimately show "p = q" using conjunct1[OF d] kl by (metis eq_key_imp_eq_value)
qed

lemma edge_row_fields:
  "edge_row ctx e r \<Longrightarrow> vid ctx (efrom ctx e) = w_from r \<and> vid ctx (eto ctx e) = w_to r \<and> edge_solid (edgeH ctx e) = w_solid r"
  by (auto simp: edge_row_def)

lemma edge_row_endpoints:
  assumes "maps_inv ctx" "edge_row ctx e r" "edge_row ctx d s"
  shows "efrom ctx d = eto ctx e \<longleftrightarrow> w_seg s = w_seg r \<and> w_from s = w_to r"
proof -
  obtain g h where "(w_seg r, g) \<in> set (map_pairs (ctx_graphs ctx))" "eto ctx e \<in> graph_vertices ctx g"
    "(w_seg s, h) \<in> set (map_pairs (ctx_graphs ctx))" "efrom ctx d \<in> graph_vertices ctx h"
    using assms(2,3) by (auto simp: edge_row_def)
  then show ?thesis using same_graph[OF assms(1)] edge_row_fields[OF assms(2)] edge_row_fields[OF assms(3)] by auto
qed

lemma irreducible_iff:
  assumes tr: "tracks es rows I ctx" and J: "J \<subseteq> I"
  shows "irreducible ctx ((!) es ` J) \<longleftrightarrow> irreducible_waits rows J"
proof -
  have m: "maps_inv ctx" using tr by (simp add: tracks_def gdd_inv_def)
  have row: "edge_row ctx (es ! i) (rows ! i)" if "i \<in> J" for i using tr J that by (auto simp: tracks_def)
  have f: "vid ctx (efrom ctx (es ! i)) = w_from (rows ! i)" "vid ctx (eto ctx (es ! i)) = w_to (rows ! i)"
    "edge_solid (edgeH ctx (es ! i)) = w_solid (rows ! i)" if "i \<in> J" for i
    using edge_row_fields[OF row[OF that]] by auto
  have p: "efrom ctx (es ! j) = eto ctx (es ! i) \<longleftrightarrow> w_seg (rows ! j) = w_seg (rows ! i) \<and> w_from (rows ! j) = w_to (rows ! i)"
    if "i \<in> J" "j \<in> J" for i j
    by (rule edge_row_endpoints[OF m row[OF that(1)] row[OF that(2)]])
  show ?thesis unfolding irreducible_def irreducible_waits_def by (simp add: f p cong: bex_cong ball_cong)
qed

subsection \<open>Removing edges and vertices\<close>

definition shrinks :: "GddCtx \<Rightarrow> GddCtx \<Rightarrow> bool" where
  "shrinks ctx c \<longleftrightarrow> same_shape ctx c \<and> edges_inv c \<and> live c \<subseteq> live ctx \<and>
     (\<forall>g. mset (map_pairs (graph_verts (graphH c g))) \<subseteq># mset (map_pairs (graph_verts (graphH ctx g)))) \<and>
     (\<forall>g. \<forall>p \<in> graph_vertices ctx g. p \<in> graph_vertices c g \<or> idle c p)"

lemma reduces_shrinks: "reduces ctx c \<Longrightarrow> shrinks ctx c"
  by (simp add: reduces_def shrinks_def)

lemma removed_shrinks: "removed D ctx c \<Longrightarrow> shrinks ctx c"
  by (auto simp: removed_def shrinks_def graph_vertices_def)

lemma shrinks_vertices: "shrinks ctx c \<Longrightarrow> graph_vertices c g \<subseteq> graph_vertices ctx g"
  by (auto simp: shrinks_def graph_vertices_def dest!: spec[of _ g] dest: set_mset_mono)
    (metis (no_types, lifting) image_iff set_mset_mono set_mset_mset snd_conv subsetD)

lemma shrinks_graph_ptrs: "shrinks ctx c \<Longrightarrow> graph_ptrs c = graph_ptrs ctx"
  by (simp add: shrinks_def same_shape_def graph_ptrs_def)

lemma shrinks_endpoint:
  assumes "shrinks ctx c" "e \<in> live c" "p = efrom c e \<or> p = eto c e"
  shows "p \<in> graph_vertices c g \<longleftrightarrow> p \<in> graph_vertices ctx g"
  using assms shrinks_vertices[OF assms(1), of g] unfolding shrinks_def by blast

lemma shrinks_trans:
  assumes "shrinks a b" "shrinks b c"
  shows "shrinks a c"
  unfolding shrinks_def
proof (intro conjI allI ballI)
  show "same_shape a c" using assms by (auto simp: shrinks_def intro: same_shape_trans)
  show "edges_inv c" "live c \<subseteq> live a" using assms by (auto simp: shrinks_def)
  show "mset (map_pairs (graph_verts (graphH c g))) \<subseteq># mset (map_pairs (graph_verts (graphH a g)))" for g
    using assms by (meson shrinks_def subset_mset.order_trans)
  fix g p assume p: "p \<in> graph_vertices a g"
  have "p \<in> graph_vertices b g \<or> idle b p" using p assms(1) by (simp add: shrinks_def)
  then show "p \<in> graph_vertices c g \<or> idle c p"
  proof
    assume "p \<in> graph_vertices b g"
    then show ?thesis using assms(2) by (simp add: shrinks_def)
  next
    assume "idle b p"
    then show ?thesis using assms(2) by (auto simp: shrinks_def same_shape_def)
  qed
qed

lemma shrinks_edge_row:
  assumes sh: "shrinks ctx c" and e: "e \<in> live c"
  shows "edge_row ctx e r \<Longrightarrow> edge_row c e r"
proof -
  have s: "edgeH c = edgeH ctx" "\<And>p. vid c p = vid ctx p" "ctx_graphs c = ctx_graphs ctx"
    using sh by (auto simp: shrinks_def same_shape_def)
  assume "edge_row ctx e r"
  then show "edge_row c e r"
    using shrinks_endpoint[OF sh e] by (auto simp: edge_row_def s)
qed

lemma shrinks_gdd_inv:
  assumes sh: "shrinks ctx c" and inv: "gdd_inv ctx"
  shows "gdd_inv c"
proof -
  have s: "edgeH c = edgeH ctx" "\<And>p. vid c p = vid ctx p" "ctx_graphs c = ctx_graphs ctx" "ctx_globals c = ctx_globals ctx"
    "next_addr c = next_addr ctx" and lv: "live c \<subseteq> live ctx"
    and ms: "\<And>g. mset (map_pairs (graph_verts (graphH c g))) \<subseteq># mset (map_pairs (graph_verts (graphH ctx g)))"
    using sh by (auto simp: shrinks_def same_shape_def)
  note gp = shrinks_graph_ptrs[OF sh] and gv = shrinks_vertices[OF sh]
  have m: "maps_inv ctx" using inv by (simp add: gdd_inv_def)
  have vs: "vertices c \<subseteq> vertices ctx" unfolding vertices_def gp using gv by blast
  have sub: "set (map_pairs (graph_verts (graphH c g))) \<subseteq> set (map_pairs (graph_verts (graphH ctx g)))" for g
    using set_mset_mono[OF ms[of g]] by simp
  have "maps_inv c"
    unfolding maps_inv_def gp
  proof (intro conjI ballI impI)
    show "distinct (map fst (map_pairs (ctx_graphs c)))" "distinct (map snd (map_pairs (ctx_graphs c)))"
      using m by (auto simp: maps_inv_def s)
    fix g assume g: "g \<in> graph_ptrs ctx"
    then show "distinct (map fst (map_pairs (graph_verts (graphH c g))))"
      using m by (intro distinct_map_submset[OF ms]) (simp add: maps_inv_def)
    show "case x of (k, p) \<Rightarrow> vid c p = k" if "x \<in> set (map_pairs (graph_verts (graphH c g)))" for x
      using m g sub[of g] that unfolding maps_inv_def s by blast
    show "graph_vertices c g \<inter> graph_vertices c h = {}" if h: "h \<in> graph_ptrs ctx" "g \<noteq> h" for h
    proof -
      have "graph_vertices ctx g \<inter> graph_vertices ctx h = {}" using m g h unfolding maps_inv_def by blast
      then show ?thesis using gv[of g] gv[of h] by blast
    qed
  next
    fix e assume e: "e \<in> live c"
    then obtain g where "g \<in> graph_ptrs ctx" "efrom ctx e \<in> graph_vertices ctx g" "eto ctx e \<in> graph_vertices ctx g"
      using m lv unfolding maps_inv_def by blast
    then show "\<exists>g \<in> graph_ptrs ctx. efrom c e \<in> graph_vertices c g \<and> eto c e \<in> graph_vertices c g"
      using shrinks_endpoint[OF sh e] by (auto simp: s)
  qed
  moreover have "fresh_inv c"
    using inv lv vs unfolding gdd_inv_def fresh_inv_def gp s by auto
  ultimately show ?thesis using sh by (simp add: gdd_inv_def shrinks_def)
qed

definition at_vid :: "GddCtx \<Rightarrow> int \<Rightarrow> nat \<Rightarrow> nat \<Rightarrow> bool" where
  "at_vid ctx v g e \<longleftrightarrow> (efrom ctx e \<in> graph_vertices ctx g \<and> vid ctx (efrom ctx e) = v) \<or>
     (eto ctx e \<in> graph_vertices ctx g \<and> vid ctx (eto ctx e) = v)"

lemma gddGraphRemoveVid_shrinks:
  assumes inv: "gdd_inv ctx" and g: "g \<in> graph_ptrs ctx"
  shows "shrinks ctx (gddGraphRemoveVid g v ctx) \<and>
    live (gddGraphRemoveVid g v ctx) = {e \<in> live ctx. \<not> at_vid ctx v g e}"
proof -
  let ?ps = "map_pairs (graph_verts (graphH ctx g))"
  let ?f = "for_return 0 (length ?ps) (\<lambda>pos. if vid ctx (snd (?ps ! pos)) \<noteq> v then None else Some pos)"
  have ei: "edges_inv ctx" using inv by (rule gdd_inv_edges_inv)
  show ?thesis
  proof (cases ?f)
    case None
    then have no: "vid ctx (snd (?ps ! i)) \<noteq> v" if "i < length ?ps" for i
      using that by (auto simp: for_return_None_iff split: if_splits)
    have "vid ctx p \<noteq> v" if "p \<in> graph_vertices ctx g" for p
      using that no unfolding graph_vertices_def image_iff by (metis in_set_conv_nth)
    then have "live ctx = {e \<in> live ctx. \<not> at_vid ctx v g e}" by (auto simp: at_vid_def)
    then show ?thesis using None reduces_shrinks[OF reduces_refl[OF ei]] by (simp add: gddGraphRemoveVid_def Let_def)
  next
    case (Some pos)
    then have pos: "pos < length ?ps" "vid ctx (snd (?ps ! pos)) = v"
      by (auto simp: for_return_Some_iff split: if_splits)
    define p where "p = snd (?ps ! pos)"
    define c where "c = snd (gddVertUnlinkAll p ctx)"
    have r: "removed {e. efrom ctx e = p \<or> eto ctx e = p} ctx c"
      unfolding c_def by (rule gddVertUnlinkAll_removed(2)[OF ei])
    have gc: "graphH c = graphH ctx" and ec: "edgeH c = edgeH ctx" and lc: "live c = live ctx - {e. efrom ctx e = p \<or> eto ctx e = p}"
      using r by (auto simp: removed_def same_shape_def)
    let ?c = "upd_graph g (\<lambda>g. g\<lparr>graph_verts := gdd_map_iter_delete (graph_verts g) pos\<rparr>) c"
    have res: "gddGraphRemoveVid g v ctx = ?c"
      using Some by (simp add: gddGraphRemoveVid_def Let_def c_def p_def split: prod.split)
    have "shrinks c ?c"
      using pos(1) lc by (intro reduces_shrinks delete_vert_reduces[OF removed_inv[OF r]]) (auto simp: gc ec p_def)
    then have "shrinks ctx ?c" using removed_shrinks[OF r] shrinks_trans by blast
    moreover have "live ?c = live c" by (simp add: live_def)
    moreover have "at_vid ctx v g e \<longleftrightarrow> efrom ctx e = p \<or> eto ctx e = p" for e
    proof -
      obtain k where "(k, g) \<in> set (map_pairs (ctx_graphs ctx))" using g by (auto simp: graph_ptrs_def)
      moreover have "p \<in> graph_vertices ctx g" "vid ctx p = v" using pos by (auto simp: p_def graph_vertices_def)
      ultimately have "q \<in> graph_vertices ctx g \<and> vid ctx q = v \<longleftrightarrow> q = p" for q
        using same_graph[of ctx k g k g q p] inv unfolding gdd_inv_def by metis
      then show ?thesis by (simp add: at_vid_def)
    qed
    ultimately show ?thesis unfolding res using lc by auto
  qed
qed

lemma gddCtxRemoveVid_fold:
  assumes "gdd_inv ctx" "set gs \<subseteq> graph_ptrs ctx"
  shows "shrinks ctx (fold (\<lambda>g c. gddGraphRemoveVid g v c) gs ctx) \<and>
    live (fold (\<lambda>g c. gddGraphRemoveVid g v c) gs ctx) = {e \<in> live ctx. \<forall>g \<in> set gs. \<not> at_vid ctx v g e}"
  using assms
proof (induction gs arbitrary: ctx)
  case Nil
  then show ?case using reduces_shrinks[OF reduces_refl] by (simp add: gdd_inv_edges_inv)
next
  case (Cons g gs)
  define c where "c = gddGraphRemoveVid g v ctx"
  have sh: "shrinks ctx c" and lv: "live c = {e \<in> live ctx. \<not> at_vid ctx v g e}"
    using gddGraphRemoveVid_shrinks[OF Cons.prems(1), of g v] Cons.prems(2) by (auto simp: c_def)
  let ?r = "fold (\<lambda>g c. gddGraphRemoveVid g v c) gs c"
  have ih: "shrinks c ?r" "live ?r = {e \<in> live c. \<forall>g \<in> set gs. \<not> at_vid c v g e}"
    using Cons.IH[OF shrinks_gdd_inv[OF sh Cons.prems(1)]] Cons.prems(2) shrinks_graph_ptrs[OF sh] by auto
  have "at_vid c v h e = at_vid ctx v h e" if "e \<in> live c" for h e
    using shrinks_endpoint[OF sh that, of _ h] sh by (auto simp: at_vid_def shrinks_def same_shape_def)
  then have "live ?r = {e \<in> live ctx. \<forall>g \<in> set (g # gs). \<not> at_vid ctx v g e}" using ih(2) lv by auto
  then show ?case using shrinks_trans[OF sh ih(1)] by (simp add: c_def)
qed

lemma gddCtxRemoveVid_shrinks:
  assumes inv: "gdd_inv ctx"
  shows "shrinks ctx (gddCtxRemoveVid v ctx) \<and>
    live (gddCtxRemoveVid v ctx) = {e \<in> live ctx. vid ctx (efrom ctx e) \<noteq> v \<and> vid ctx (eto ctx e) \<noteq> v}"
proof -
  let ?gs = "map snd (map_pairs (ctx_graphs ctx))"
  have gs: "set ?gs = graph_ptrs ctx" by (simp add: graph_ptrs_def)
  have "(\<forall>g \<in> graph_ptrs ctx. \<not> at_vid ctx v g e) \<longleftrightarrow> vid ctx (efrom ctx e) \<noteq> v \<and> vid ctx (eto ctx e) \<noteq> v"
    if e: "e \<in> live ctx" for e
  proof -
    obtain g where "g \<in> graph_ptrs ctx" "efrom ctx e \<in> graph_vertices ctx g" "eto ctx e \<in> graph_vertices ctx g"
      using inv e unfolding gdd_inv_def maps_inv_def by blast
    then show ?thesis by (auto simp: at_vid_def)
  qed
  then have "{e \<in> live ctx. \<forall>g \<in> set ?gs. \<not> at_vid ctx v g e} =
      {e \<in> live ctx. vid ctx (efrom ctx e) \<noteq> v \<and> vid ctx (eto ctx e) \<noteq> v}" unfolding gs by blast
  then show ?thesis using gddCtxRemoveVid_fold[OF inv, of ?gs v] gs by (simp add: gddCtxRemoveVid_def)
qed

text \<open>The greatest vertex id: the initial 0 takes part in the maximum.\<close>

lemma fold_max:
  "finite A \<Longrightarrow> fold (\<lambda>x m. if P x then max m (f x) else m) xs (Max (insert 0 A)) =
     Max (insert (0::int) (A \<union> f ` {x \<in> set xs. P x}))"
proof (induction xs arbitrary: A)
  case (Cons x xs)
  have "max (Max (insert 0 A)) (f x) = Max (insert 0 (insert (f x) A))" 
    using Cons.prems Max_insert[of "insert 0 A" "f x"] by (simp only: insert_commute[of 0] max.commute) simp
  moreover have "A \<union> f ` {y \<in> set (x # xs). P y} = (if P x then insert (f x) A else A) \<union> f ` {y \<in> set xs. P y}" by auto
  ultimately show ?case
    using Cons.IH[of A] Cons.IH[of "insert (f x) A"] Cons.prems by (simp del: Max_insert list.set)
qed simp

lemma gddCtxGetMaxVid_Max:
  "gddCtxGetMaxVid ctx = Max (insert 0 (vid ctx ` {p \<in> vertices ctx. gddVertGetInDegree p ctx \<noteq> 0 \<or> gddVertGetOutDegree p ctx \<noteq> 0}))"
proof -
  let ?P = "\<lambda>p. gddVertGetInDegree p ctx \<noteq> 0 \<or> gddVertGetOutDegree p ctx \<noteq> 0"
  let ?vs = "\<lambda>g. map snd (map_pairs (graph_verts (graphH ctx g)))"
  have outer: "fold (\<lambda>g m. fold (\<lambda>p m. if ?P p then max m (vid ctx p) else m) (?vs g) m) gs (Max (insert 0 A)) =
      Max (insert 0 (A \<union> (\<Union>g \<in> set gs. vid ctx ` {p \<in> set (?vs g). ?P p})))" if "finite A" for gs A
    using that
  proof (induction gs arbitrary: A)
    case (Cons g gs)
    have fin: "finite (A \<union> vid ctx ` {p \<in> set (?vs g). ?P p})" using Cons.prems by simp
    show ?case using Cons.IH[OF fin] fold_max[OF Cons.prems, of ?P "vid ctx" "?vs g"] by (simp add: Un_assoc)
  qed simp
  have "(\<Union>g \<in> set (map snd (map_pairs (ctx_graphs ctx))). vid ctx ` {p \<in> set (?vs g). ?P p}) = vid ctx ` {p \<in> vertices ctx. ?P p}"
    by (auto simp: vertices_def graph_ptrs_def graph_vertices_def)
  then show ?thesis using outer[of "{}" "map snd (map_pairs (ctx_graphs ctx))"] by (simp add: gddCtxGetMaxVid_def)
qed

lemma gddCtxGetMaxVid_live:
  assumes inv: "edges_inv ctx"
  shows "gddCtxGetMaxVid ctx = Max (insert 0 ((\<lambda>e. vid ctx (efrom ctx e)) ` live ctx \<union> (\<lambda>e. vid ctx (eto ctx e)) ` live ctx))"
proof -
  have "\<forall>e \<in> live ctx. efrom ctx e \<in> vertices ctx \<and> eto ctx e \<in> vertices ctx"
    using inv by (simp add: edges_inv_def bindings_def)
  then have "{p \<in> vertices ctx. gddVertGetInDegree p ctx \<noteq> 0 \<or> gddVertGetOutDegree p ctx \<noteq> 0} = efrom ctx ` live ctx \<union> eto ctx ` live ctx"
    unfolding edges_inv_local_degrees[OF inv] by auto
  then show ?thesis unfolding gddCtxGetMaxVid_Max by (simp add: image_Un image_image)
qed


subsection \<open>The context follows the specification\<close>

definition waits_at :: "wait list \<Rightarrow> nat set \<Rightarrow> int set" where
  "waits_at rows I = (\<lambda>i. w_from (rows ! i)) ` I \<union> (\<lambda>i. w_to (rows ! i)) ` I"

lemma tracks_fields:
  assumes "tracks es rows I ctx" "i \<in> I"
  shows "vid ctx (efrom ctx (es ! i)) = w_from (rows ! i)" "vid ctx (eto ctx (es ! i)) = w_to (rows ! i)"
  using assms edge_row_fields[of ctx "es ! i" "rows ! i"] by (auto simp: tracks_def)

lemma tracks_inj:
  assumes "tracks es rows I ctx"
  shows "inj_on ((!) es) I"
  using assms unfolding tracks_def by (intro inj_on_nth) auto

lemma tracks_shrinks:
  assumes tr: "tracks es rows I ctx" and sh: "shrinks ctx c" and J: "J \<subseteq> I" "live c = (!) es ` J"
  shows "tracks es rows J c"
proof -
  have "edge_row c (es ! i) (rows ! i)" if "i \<in> J" for i
    using shrinks_edge_row[OF sh, of "es ! i" "rows ! i"] tr J that by (auto simp: tracks_def)
  then show ?thesis using tr J shrinks_gdd_inv[OF sh] by (auto simp: tracks_def)
qed

lemma tracks_reduce:
  assumes tr: "tracks es rows I ctx"
  shows "\<exists>c. GddCtxReduce ctx = Some c \<and> tracks es rows (survivors rows I) c"
proof -
  have inv: "edges_inv ctx" using tr by (simp add: tracks_def gdd_inv_def)
  have lv: "live ctx = (!) es ` I" using tr by (simp add: tracks_def)
  obtain c where c: "GddCtxReduce ctx = Some c" "reduces ctx c" "irreducible c (live c)"
    using GddCtxReduce_correct[OF inv] by blast
  have irr: "irreducible ctx (live c)" using c irreducible_shape[of ctx c] by (simp add: reduces_def)
  have "live c \<subseteq> (!) es ` I" using c(2) lv by (simp add: reduces_def)
  then obtain J where J: "J \<subseteq> I" "live c = (!) es ` J" by (metis subset_imageE)
  then have "J \<subseteq> survivors rows I"
    using irr irreducible_iff[OF tr J(1)] survivors_greatest(3) by simp
  moreover have "(!) es ` survivors rows I \<subseteq> live c"
  proof -
    have "irreducible ctx ((!) es ` survivors rows I)"
      using irreducible_iff[OF tr survivors_greatest(2)] survivors_greatest(1) by blast
    moreover have "(!) es ` survivors rows I \<subseteq> live ctx" using survivors_greatest(2)[of rows I] lv by auto
    ultimately show ?thesis using c(2) by (simp add: reduces_def)
  qed
  ultimately have "live c = (!) es ` survivors rows I" using J(2) by auto
  then have "tracks es rows (survivors rows I) c"
    using tracks_shrinks[OF tr reduces_shrinks[OF c(2)] survivors_greatest(2)] by blast
  then show ?thesis using c(1) by blast
qed

lemma tracks_remove:
  assumes tr: "tracks es rows I ctx"
  shows "tracks es rows {i \<in> I. w_from (rows ! i) \<noteq> v \<and> w_to (rows ! i) \<noteq> v} (gddCtxRemoveVid v ctx)"
proof (rule tracks_shrinks[OF tr])
  have inv: "gdd_inv ctx" and lv: "live ctx = (!) es ` I" using tr by (auto simp: tracks_def)
  show "shrinks ctx (gddCtxRemoveVid v ctx)" using gddCtxRemoveVid_shrinks[OF inv] by blast
  have "{e \<in> (!) es ` I. vid ctx (efrom ctx e) \<noteq> v \<and> vid ctx (eto ctx e) \<noteq> v} =
      (!) es ` {i \<in> I. w_from (rows ! i) \<noteq> v \<and> w_to (rows ! i) \<noteq> v}"
    using tracks_fields[OF tr] by auto
  then show "live (gddCtxRemoveVid v ctx) = (!) es ` {i \<in> I. w_from (rows ! i) \<noteq> v \<and> w_to (rows ! i) \<noteq> v}"
    using gddCtxRemoveVid_shrinks[OF inv, of v] lv by simp
qed blast

lemma tracks_max:
  assumes tr: "tracks es rows I ctx"
  shows "gddCtxGetMaxVid ctx = Max (insert 0 (waits_at rows I))"
proof -
  have inv: "edges_inv ctx" and lv: "live ctx = (!) es ` I" using tr by (auto simp: tracks_def gdd_inv_def)
  have "(\<lambda>e. vid ctx (efrom ctx e)) ` live ctx \<union> (\<lambda>e. vid ctx (eto ctx e)) ` live ctx = waits_at rows I"
    unfolding lv waits_at_def image_image using tracks_fields[OF tr] by (simp cong: image_cong)
  then show ?thesis using gddCtxGetMaxVid_live[OF inv] by simp
qed

lemma tracks_empty: "tracks es rows I ctx \<Longrightarrow> GddCtxEmpty ctx \<longleftrightarrow> I = {}"
  using edges_inv_Empty[of ctx] by (auto simp: tracks_def gdd_inv_def)

subsection \<open>Cancelling transactions\<close>

definition without :: "wait list \<Rightarrow> int \<Rightarrow> nat set \<Rightarrow> nat set" where
  "without rows v I = {i \<in> I. w_from (rows ! i) \<noteq> v \<and> w_to (rows ! i) \<noteq> v}"

lemma waits_at_Max:
  assumes "finite I" "I \<noteq> {}"
  shows "Max (waits_at rows I) \<in> waits_at rows I"
  using assms by (intro Max_in) (auto simp: waits_at_def)

lemma without_psubset: "v \<in> waits_at rows I \<Longrightarrow> without rows v I \<subset> I"
  by (auto simp: waits_at_def without_def)

text \<open>
  The specification of the cancellation: as long as waits survive, the youngest transaction
  that takes part in one is cancelled and the rest is reduced again.
\<close>

function cancel_waits :: "wait list \<Rightarrow> nat set \<Rightarrow> int list" where
  "cancel_waits rows I =
     (if I = {} \<or> infinite I then []
      else Max (waits_at rows I) # cancel_waits rows (survivors rows (without rows (Max (waits_at rows I)) I)))"
  by pat_completeness auto
termination
proof (relation "measure (\<lambda>(rows, I). card I)", goal_cases)
  case (2 rows I)
  let ?J = "without rows (Max (waits_at rows I)) I"
  have "survivors rows ?J \<subset> I"
    using without_psubset[OF waits_at_Max[of I rows]] 2 survivors_greatest(2)[of rows ?J] by auto
  then show ?case using 2 psubset_card_mono[of I] by simp
qed simp

declare cancel_waits.simps [simp del]

lemma tracks_break:
  assumes "tracks es rows I ctx" "\<forall>v \<in> waits_at rows I. 0 \<le> v"
  shows "\<exists>c. GddCtxBreakDeadLock_loop vids ctx = Some (vids @ cancel_waits rows I, c) \<and> tracks es rows {} c"
  using assms
proof (induction rows I arbitrary: ctx vids rule: cancel_waits.induct)
  case (1 rows I)
  have fin: "finite I" using 1(2) finite_subset by (auto simp: tracks_def)
  show ?case
  proof (cases "I = {}")
    case True
    then show ?thesis
      using 1(2) tracks_empty[OF 1(2)] by (auto simp: GddCtxBreakDeadLock_loop.simps cancel_waits.simps)
  next
    case False
    let ?m = "Max (waits_at rows I)"
    have m: "?m \<in> waits_at rows I" using waits_at_Max[OF fin False] .
    have finw: "finite (waits_at rows I)" using fin by (simp add: waits_at_def)
    have max: "gddCtxGetMaxVid ctx = ?m"
      using tracks_max[OF 1(2)] finw m 1(3) by (simp add: Max_insert2 Max_insert max_absorb2 split: if_splits) (metis Max.insert_not_elem Max_insert emptyE max.absorb2)
    let ?J = "survivors rows (without rows ?m I)"
    have tr: "tracks es rows (without rows ?m I) (gddCtxRemoveVid ?m ctx)"
      unfolding without_def by (rule tracks_remove[OF 1(2)])
    obtain c where c: "GddCtxReduce (gddCtxRemoveVid ?m ctx) = Some c" "tracks es rows ?J c"
      using tracks_reduce[OF tr] by blast
    have sub: "waits_at rows ?J \<subseteq> waits_at rows I"
      using survivors_greatest(2)[of rows "without rows ?m I"] by (auto simp: waits_at_def without_def)
    obtain c' where c': "GddCtxBreakDeadLock_loop (vids @ [?m]) c = Some ((vids @ [?m]) @ cancel_waits rows ?J, c')"
      "tracks es rows {} c'"
      using 1(1)[OF _ c(2), of "vids @ [?m]"] False fin sub 1(3) by blast
    have "cancel_waits rows I = ?m # cancel_waits rows ?J" using False fin by (simp add: cancel_waits.simps[of rows I])
    then have "GddCtxBreakDeadLock_loop vids ctx = Some (vids @ cancel_waits rows I, c')"
      unfolding GddCtxBreakDeadLock_loop.simps[of vids ctx] Let_def max c(1)
      using False tracks_empty[OF 1(2)] c'(1) by simp
    then show ?thesis using c'(2) by blast
  qed
qed

lemma survivors_mono: "I \<subseteq> J \<Longrightarrow> survivors rows I \<subseteq> survivors rows J"
  by (auto simp: survivors_def)

lemma cancel_waits_resolves:
  "finite I \<Longrightarrow> J \<subseteq> I \<Longrightarrow> irreducible_waits rows J \<Longrightarrow> waits_at rows J \<inter> set (cancel_waits rows I) = {} \<Longrightarrow> J = {}"
proof (induction rows I rule: cancel_waits.induct)
  case (1 rows I)
  show ?case
  proof (cases "I = {}")
    case False
    let ?m = "Max (waits_at rows I)"
    have c: "cancel_waits rows I = ?m # cancel_waits rows (survivors rows (without rows ?m I))"
      using False 1(2) by (simp add: cancel_waits.simps[of rows I])
    have "?m \<notin> waits_at rows J" using 1(5) unfolding c by auto
    then have "J \<subseteq> without rows ?m I" using 1(3) by (force simp: without_def waits_at_def[of rows J])
    then have "J \<subseteq> survivors rows (without rows ?m I)" using survivors_greatest(3) 1(4) by blast
    moreover have "finite (survivors rows (without rows ?m I))"
      using finite_subset[OF survivors_greatest(2)] 1(2) by (simp add: without_def)
    ultimately show ?thesis using 1(1) False 1(2,4,5) unfolding c by simp
  qed (use 1(3) in simp)
qed

lemma cancel_waits_distinct:
  "finite I \<Longrightarrow> distinct (cancel_waits rows I) \<and> set (cancel_waits rows I) \<subseteq> waits_at rows I"
proof (induction rows I rule: cancel_waits.induct)
  case (1 rows I)
  show ?case
  proof (cases "I = {}")
    case False
    let ?m = "Max (waits_at rows I)" and ?J = "survivors rows (without rows (Max (waits_at rows I)) I)"
    have c: "cancel_waits rows I = ?m # cancel_waits rows ?J"
      using False 1(2) by (simp add: cancel_waits.simps[of rows I])
    have J: "?J \<subseteq> without rows ?m I" by (rule survivors_greatest(2))
    then have "finite ?J" using finite_subset 1(2) by (fastforce simp: without_def)
    then have ih: "distinct (cancel_waits rows ?J)" "set (cancel_waits rows ?J) \<subseteq> waits_at rows ?J"
      using 1(1) False 1(2) by auto
    have "waits_at rows ?J \<subseteq> waits_at rows I - {?m}" using J by (auto simp: waits_at_def without_def)
    then show ?thesis unfolding c using ih waits_at_Max[OF 1(2) False, of rows] by auto
  qed (simp add: cancel_waits.simps)
qed


subsection \<open>The waits held by a context\<close>

text \<open>The edges of a context as waits, in the order in which \<^verbatim>\<open>GddCtxDump\<close> visits them.\<close>

definition gdd_edges :: "GddCtx \<Rightarrow> (int \<times> nat) list" where
  "gdd_edges ctx = concat (map (\<lambda>graph.
     concat (map (\<lambda>vert. map (Pair (fst graph)) (edgesOut (vertH ctx (snd vert))))
       (map_pairs (graph_verts (graphH ctx (snd graph))))))
     (map_pairs (ctx_graphs ctx)))"

definition gdd_rows :: "GddCtx \<Rightarrow> wait list" where
  "gdd_rows ctx = map (\<lambda>(segid, e).
     (segid, vid ctx (efrom ctx e), vid ctx (eto ctx e), edge_solid (edgeH ctx e))) (gdd_edges ctx)"

lemma gdd_edges_set:
  assumes inv: "gdd_inv ctx"
  shows "(k, e) \<in> set (gdd_edges ctx) \<longleftrightarrow>
    e \<in> live ctx \<and> (\<exists>g. (k, g) \<in> set (map_pairs (ctx_graphs ctx)) \<and> efrom ctx e \<in> graph_vertices ctx g)"
proof -
  have "(k, e) \<in> set (gdd_edges ctx) \<longleftrightarrow> (\<exists>g. (k, g) \<in> set (map_pairs (ctx_graphs ctx)) \<and>
      (\<exists>p \<in> graph_vertices ctx g. e \<in> set (edgesOut (vertH ctx p))))"
    by (force simp: gdd_edges_def graph_vertices_def)
  then show ?thesis unfolding edges_inv_edgesOut[OF gdd_inv_edges_inv[OF inv]] by auto
qed

lemma gdd_edges_distinct:
  assumes inv: "gdd_inv ctx"
  shows "distinct (map snd (gdd_edges ctx))"
proof -
  let ?vs = "\<lambda>g. map_pairs (graph_verts (graphH ctx g))"
  let ?es = "\<lambda>g. concat (map (\<lambda>vert. edgesOut (vertH ctx (snd vert))) (?vs g))"
  have m: "maps_inv ctx" and ei: "edges_inv ctx" using inv by (auto simp: gdd_inv_def)
  have eq: "map snd (gdd_edges ctx) = concat (map (\<lambda>graph. ?es (snd graph)) (map_pairs (ctx_graphs ctx)))"
    by (simp add: gdd_edges_def map_concat comp_def)
  have out: "set (edgesOut (vertH ctx p)) \<inter> set (edgesOut (vertH ctx q)) = {}" if "p \<noteq> q" for p q
    using that unfolding edges_inv_edgesOut[OF ei] by auto
  have dv: "distinct (?es g)" if g: "g \<in> graph_ptrs ctx" for g
  proof (rule distinct_concat_map[where g = snd])
    have d: "distinct (map fst (?vs g))" "\<forall>(k, p) \<in> set (?vs g). vid ctx p = k"
      using m g by (auto simp: maps_inv_def)
    have "x = (vid ctx (snd x), snd x)" if "x \<in> set (?vs g)" for x using d(2) that by (cases x) auto
    then have "inj_on snd (set (?vs g))" by (metis inj_onI)
    then show "distinct (map snd (?vs g))" using d(1) by (simp add: distinct_map)
  qed (use edges_inv_distinct[OF ei] out in auto)
  have sub: "efrom ctx e \<in> graph_vertices ctx g" if "e \<in> set (?es g)" for e g
    using that edges_inv_edgesOut[OF ei] by (force simp: graph_vertices_def)
  have dj: "set (?es g) \<inter> set (?es h) = {}" if "g \<in> graph_ptrs ctx" "h \<in> graph_ptrs ctx" "g \<noteq> h" for g h
  proof -
    have "graph_vertices ctx g \<inter> graph_vertices ctx h = {}" using m that unfolding maps_inv_def by blast
    then show ?thesis using sub[of _ g] sub[of _ h] by blast
  qed
  show ?thesis unfolding eq
  proof (rule distinct_concat_map[where g = snd])
    show "distinct (map snd (map_pairs (ctx_graphs ctx)))" using m by (simp add: maps_inv_def)
  next
    fix x assume "x \<in> set (map_pairs (ctx_graphs ctx))"
    then show "distinct (?es (snd x))" by (intro dv) (simp add: graph_ptrs_def)
  next
    fix x y assume "x \<in> set (map_pairs (ctx_graphs ctx))" "y \<in> set (map_pairs (ctx_graphs ctx))" "snd x \<noteq> snd y"
    then show "set (?es (snd x)) \<inter> set (?es (snd y)) = {}" by (intro dj) (auto simp: graph_ptrs_def)
  qed
qed

lemma gdd_edges_row:
  assumes inv: "gdd_inv ctx" and x: "(k, e) \<in> set (gdd_edges ctx)" and r: "edge_row ctx e r"
  shows "(k, vid ctx (efrom ctx e), vid ctx (eto ctx e), edge_solid (edgeH ctx e)) = r"
proof -
  obtain g h where "(k, g) \<in> set (map_pairs (ctx_graphs ctx))" "efrom ctx e \<in> graph_vertices ctx g"
    "(w_seg r, h) \<in> set (map_pairs (ctx_graphs ctx))" "efrom ctx e \<in> graph_vertices ctx h"
    using gdd_edges_set[OF inv, of k e] x r by (auto simp: edge_row_def)
  then have "k = w_seg r" using same_graph[of ctx k g "w_seg r" h] inv by (auto simp: gdd_inv_def)
  then show ?thesis using edge_row_fields[OF r] by (cases r) auto
qed

lemma tracks_rows:
  assumes tr: "tracks es rows I ctx"
  shows "mset (gdd_rows ctx) = image_mset ((!) rows) (mset_set I)"
proof -
  have inv: "gdd_inv ctx" and lv: "live ctx = (!) es ` I" using tr by (auto simp: tracks_def)
  define r where "r = (\<lambda>e. rows ! the_inv_into I ((!) es) e)"
  have ri: "r (es ! i) = rows ! i" if "i \<in> I" for i
    using the_inv_into_f_f[OF tracks_inj[OF tr] that] by (simp add: r_def)
  have "gdd_rows ctx = map (r \<circ> snd) (gdd_edges ctx)"
    unfolding gdd_rows_def
  proof (rule map_cong[OF refl])
    fix x assume x: "x \<in> set (gdd_edges ctx)"
    obtain k e where ke: "x = (k, e)" by (cases x)
    have "e \<in> (!) es ` I" using x gdd_edges_set[OF inv, of k e] lv by (simp add: ke)
    then obtain i where i: "e = es ! i" "i \<in> I" by blast
    then have "edge_row ctx e (rows ! i)" using tr by (auto simp: tracks_def)
    then show "(case x of (segid, e) \<Rightarrow> (segid, vid ctx (efrom ctx e), vid ctx (eto ctx e), edge_solid (edgeH ctx e))) = (r \<circ> snd) x"
      using gdd_edges_row[OF inv x[unfolded ke]] ri[OF i(2)] i(1) by (simp add: ke)
  qed
  then have "mset (gdd_rows ctx) = image_mset r (mset (map snd (gdd_edges ctx)))" by (simp add: multiset.map_comp)
  moreover have "set (map snd (gdd_edges ctx)) = (!) es ` I"
  proof -
    have "e \<in> snd ` set (gdd_edges ctx)" if "e \<in> live ctx" for e
    proof -
      have "efrom ctx e \<in> vertices ctx" using maps_inv_endpoints[of ctx e] inv that by (simp add: gdd_inv_def)
      then obtain k g where "(k, g) \<in> set (map_pairs (ctx_graphs ctx))" "efrom ctx e \<in> graph_vertices ctx g"
        by (auto simp: vertices_def graph_ptrs_def)
      then have "(k, e) \<in> set (gdd_edges ctx)" using gdd_edges_set[OF inv, of k e] that by blast
      then show ?thesis by force
    qed
    moreover have "e \<in> live ctx" if "e \<in> snd ` set (gdd_edges ctx)" for e
      using that gdd_edges_set[OF inv, of _ e] by auto
    ultimately show ?thesis unfolding lv[symmetric] by auto
  qed
  then have ms: "mset (map snd (gdd_edges ctx)) = image_mset ((!) es) (mset_set I)"
    using mset_set_set[OF gdd_edges_distinct[OF inv]] image_mset_mset_set[OF tracks_inj[OF tr]] by simp
  ultimately have "mset (gdd_rows ctx) = image_mset (\<lambda>i. r (es ! i)) (mset_set I)"
    unfolding ms by (simp add: multiset.map_comp comp_def)
  also have "\<dots> = image_mset ((!) rows) (mset_set I)"
  proof (rule image_mset_cong)
    fix i assume "i \<in># mset_set I"
    then have "i \<in> I" by (metis elem_mset_set empty_iff infinite_set_mset_mset_set mset_set.infinite set_mset_empty)
    then show "r (es ! i) = rows ! i" by (rule ri)
  qed
  finally show ?thesis .
qed

subsection \<open>Deadlocks and cycles of waits\<close>

text \<open>Surviving waits always contain a cycle; a closed set of waits survives when its dotted waits are closed on their segment.\<close>

lemma survivors_acyclic:
  assumes "acyclic ((\<lambda>i. (w_from (rows ! i), w_to (rows ! i))) ` I)" "finite I"
  shows "survivors rows I = {}"
proof (rule ccontr)
  let ?S = "survivors rows I"
  let ?r = "(\<lambda>i. (w_from (rows ! i), w_to (rows ! i))) ` ?S"
  assume ne: "?S \<noteq> {}"
  have sub: "?S \<subseteq> I" by (rule survivors_greatest(2))
  have "acyclic ?r" using assms(1) by (rule acyclic_subset) (use sub in blast)
  moreover have "finite ?r" using sub assms(2) finite_subset by blast
  ultimately have wf: "wf (?r\<inverse>)" by (simp add: finite_acyclic_wf_converse)
  obtain i where i: "i \<in> ?S" using ne by blast
  then have "w_to (rows ! i) \<in> (\<lambda>i. w_to (rows ! i)) ` ?S" by blast
  then obtain z where z: "z \<in> (\<lambda>i. w_to (rows ! i)) ` ?S" "\<And>y. (y, z) \<in> ?r\<inverse> \<Longrightarrow> y \<notin> (\<lambda>i. w_to (rows ! i)) ` ?S"
    by (rule wfE_min[OF wf]) blast
  then obtain k where k: "k \<in> ?S" "z = w_to (rows ! k)" by blast
  then obtain j where j: "j \<in> ?S" "w_from (rows ! j) = w_to (rows ! k)"
    using survivors_greatest(1)[of rows I] unfolding irreducible_waits_def by blast
  have "(z, w_to (rows ! j)) \<in> ?r" using j k(2) by (metis (mono_tags, lifting) image_eqI)
  then show False using z(2) j(1) by blast
qed

lemma survivors_closed:
  assumes "J \<subseteq> I"
    and "\<And>i. i \<in> J \<Longrightarrow> \<exists>j \<in> J. w_to (rows ! j) = w_from (rows ! i)"
    and "\<And>i. i \<in> J \<Longrightarrow> \<exists>j \<in> J. w_from (rows ! j) = w_to (rows ! i) \<and> (w_solid (rows ! i) \<or> w_seg (rows ! j) = w_seg (rows ! i))"
  shows "J \<subseteq> survivors rows I"
proof (rule survivors_greatest(3)[OF assms(1)])
  show "irreducible_waits rows J" unfolding irreducible_waits_def using assms(2,3) by blast
qed

lemma gdd_reduce_tracks:
  "\<exists>es c. GddCtxReduce (gdd_build rows) = Some c \<and> tracks es rows (survivors rows {..<length rows}) c"
proof -
  obtain es where "tracks es rows {..<length rows} (gdd_build rows)" using gdd_build_tracks by blast
  then show ?thesis using tracks_reduce by blast
qed

lemma tracks_degrees:
  assumes tr: "tracks es rows I ctx"
  shows "indeg (ctx_topstat ctx) = int (length (gdd_rows ctx)) \<and> outdeg (ctx_topstat ctx) = int (length (gdd_rows ctx)) \<and>
    (\<forall>(v, s) \<in> set (map_pairs (ctx_globals ctx)).
       indeg (statH ctx s) = int (length (filter (\<lambda>r. w_to r = v) (gdd_rows ctx))) \<and>
       outdeg (statH ctx s) = int (length (filter (\<lambda>r. w_from r = v) (gdd_rows ctx))))"
proof -
  have fin: "finite I" using tr finite_subset by (auto simp: tracks_def)
  have lv: "live ctx = (!) es ` I" and cc: "counts ctx" using tr by (auto simp: tracks_def gdd_inv_def edges_inv_def)
  have len: "length (filter P (gdd_rows ctx)) = card {i \<in> I. P (rows ! i)}" for P
  proof -
    have "length (filter P (gdd_rows ctx)) = size (filter_mset P (mset (gdd_rows ctx)))" by (simp flip: mset_filter)
    also have "\<dots> = card {i \<in> I. P (rows ! i)}"
      using fin by (simp add: tracks_rows[OF tr] filter_mset_image_mset filter_mset_mset_set)
    finally show ?thesis .
  qed
  have card: "card {e \<in> live ctx. Q e} = card {i \<in> I. Q (es ! i)}" for Q
  proof -
    have "{e \<in> live ctx. Q e} = (!) es ` {i \<in> I. Q (es ! i)}" using lv by auto
    moreover have "inj_on ((!) es) {i \<in> I. Q (es ! i)}" using tracks_inj[OF tr] by (rule inj_on_subset) blast
    ultimately show ?thesis by (simp add: card_image)
  qed
  have f: "{i \<in> I. vid ctx (eto ctx (es ! i)) = v} = {i \<in> I. w_to (rows ! i) = v}"
    "{i \<in> I. vid ctx (efrom ctx (es ! i)) = v} = {i \<in> I. w_from (rows ! i) = v}" for v
    using tracks_fields[OF tr] by auto
  have "int (length (gdd_rows ctx)) = int (card (live ctx))" using len[of "\<lambda>_. True"] card[of "\<lambda>_. True"] by simp
  then show ?thesis using cc unfolding counts_def len card f by simp
qed

lemma waits_at_rows:
  assumes "I \<subseteq> {..<length rows}"
  shows "waits_at rows I \<subseteq> w_from ` set rows \<union> w_to ` set rows"
proof -
  have "(!) rows ` I \<subseteq> set rows" using assms by auto
  then show ?thesis unfolding waits_at_def by blast
qed

text \<open>When only negative ids are left, the loop that breaks deadlocks makes no progress.\<close>

lemma tracks_break_negative:
  assumes "GddCtxBreakDeadLock_loop vids ctx = Some r"
  shows "\<not> (tracks es rows I ctx \<and> I \<noteq> {} \<and> irreducible_waits rows I \<and> (\<forall>v \<in> waits_at rows I. v < 0))"
proof (rule GddCtxBreakDeadLock_loop.raw_induct[OF _ assms], goal_cases)
  case (1 loop vids ctx r)
  show ?case
  proof
    assume "tracks es rows I ctx \<and> I \<noteq> {} \<and> irreducible_waits rows I \<and> (\<forall>v \<in> waits_at rows I. v < 0)"
  then have 3: "tracks es rows I ctx" and 4: "I \<noteq> {}" and 5: "irreducible_waits rows I" and 6: "\<forall>v \<in> waits_at rows I. v < 0"
    by auto
    have fin: "finite I" using 3 finite_subset by (auto simp: tracks_def)
    have ne: "\<not> GddCtxEmpty ctx" using tracks_empty[OF 3] 4 by blast
    have fw: "finite (waits_at rows I)" "waits_at rows I \<noteq> {}" using fin 4 by (auto simp: waits_at_def)
    have "Max (insert 0 (waits_at rows I)) = 0" using 6 fw by (intro Max_eqI) force+
    then have max: "gddCtxGetMaxVid ctx = 0" using tracks_max[OF 3] by simp
    have "{i \<in> I. w_from (rows ! i) \<noteq> 0 \<and> w_to (rows ! i) \<noteq> 0} = I" using 6 by (force simp: waits_at_def)
    then have tr: "tracks es rows I (gddCtxRemoveVid 0 ctx)" using tracks_remove[OF 3, of 0] by simp
    have "survivors rows I = I" using survivors_greatest(2,3)[of _ I] 5 by blast
    then obtain c where c: "GddCtxReduce (gddCtxRemoveVid 0 ctx) = Some c" "tracks es rows I c"
      using tracks_reduce[OF tr] by auto
    have "loop (vids @ [0]) c = Some r" using 1(2) ne c(1) by (simp add: max)
    then show False using 1(1) c(2) 4 5 6 by blast
  qed
qed

text \<open>
  So breaking deadlocks never comes to an end when waits survive and all their vertex ids are
  negative: the search for the youngest vertex starts at 0, and no vertex is ever removed.
\<close>

lemma gdd_break_negative_diverges:
  assumes "GddCtxReduce (gdd_build rows) = Some ctx" "\<not> GddCtxEmpty ctx"
    and "\<forall>r \<in> set rows. w_from r < 0 \<and> w_to r < 0"
  shows "GddCtxBreakDeadLock ctx = None"
proof (rule ccontr)
  let ?S = "survivors rows {..<length rows}"
  assume "GddCtxBreakDeadLock ctx \<noteq> None"
  then obtain r where r: "GddCtxBreakDeadLock_loop [] ctx = Some r" by (auto simp: GddCtxBreakDeadLock_def)
  obtain es where tr: "tracks es rows ?S ctx" using gdd_reduce_tracks[of rows] assms(1) by auto
  have neg: "\<forall>v \<in> waits_at rows ?S. v < 0"
    using assms(3) waits_at_rows[OF survivors_greatest(2)] by blast
  have "?S \<noteq> {}" using tracks_empty[OF tr] assms(2) by blast
  then show False using tracks_break_negative[OF r, of es rows ?S] tr neg survivors_greatest(1) by blast
qed


subsection \<open>Properties\<close>

text \<open>
  C1: Reducing the graphs built from any list of waits comes to an end, and what is left is
  exactly the greatest set of waits that none of the three rules can reduce, whatever the
  order in which the vertices are visited; the context is empty iff that set is.
\<close>

theorem gdd_reduce_refines_waits:
  "\<exists>ctx. GddCtxReduce (gdd_build rows) = Some ctx \<and>
     mset (gdd_rows ctx) = image_mset ((!) rows) (mset_set (survivors rows {..<length rows})) \<and>
     (GddCtxEmpty ctx \<longleftrightarrow> survivors rows {..<length rows} = {})"
  using gdd_reduce_tracks[of rows] tracks_rows tracks_empty by blast

text \<open>
  C3: No false deadlock: when the waits of all segments together form no cycle, the reduction
  deletes every edge.
\<close>

theorem gdd_no_false_deadlock:
  assumes "acyclic ((\<lambda>r. (w_from r, w_to r)) ` set rows)"
  shows "\<exists>ctx. GddCtxReduce (gdd_build rows) = Some ctx \<and> GddCtxEmpty ctx \<and> gdd_rows ctx = []"
proof -
  have "(\<lambda>i. (w_from (rows ! i), w_to (rows ! i))) ` {..<length rows} = (\<lambda>r. (w_from r, w_to r)) ` set rows"
    by (auto simp: set_conv_nth)
  then have none: "survivors rows {..<length rows} = {}" using assms by (intro survivors_acyclic) auto
  obtain es ctx where c: "GddCtxReduce (gdd_build rows) = Some ctx" "tracks es rows (survivors rows {..<length rows}) ctx"
    using gdd_reduce_tracks by blast
  then show ?thesis using tracks_empty[OF c(2)] tracks_rows[OF c(2)] none by auto
qed

theorem gdd_no_false_deadlock_witness:
  "acyclic ((\<lambda>r. (w_from r, w_to r)) ` set [(0, 1, 2, True), (1, 2, 3, False)]) \<and>
   (\<exists>ctx. GddCtxReduce (gdd_build [(0, 1, 2, True), (1, 2, 3, False)]) = Some ctx \<and> GddCtxEmpty ctx \<and> gdd_rows ctx = [])"
proof -
  have "acyclic ((\<lambda>r. (w_from r, w_to r)) ` set [(0::int, 1, 2, True), (1, 2, 3, False)])"
    by (rule acyclicI_order[of _ uminus]) auto
  then show ?thesis using gdd_no_false_deadlock by blast
qed

text \<open>
  C4: No missed deadlock: a set of waits in which every waiter is waited for and every holder
  waits - on the same segment if the wait is dotted - survives the reduction.
\<close>

theorem gdd_no_missed_deadlock:
  assumes "J \<subseteq> {..<length rows}" "J \<noteq> {}"
    and "\<And>i. i \<in> J \<Longrightarrow> \<exists>j \<in> J. w_to (rows ! j) = w_from (rows ! i)"
    and "\<And>i. i \<in> J \<Longrightarrow> \<exists>j \<in> J. w_from (rows ! j) = w_to (rows ! i) \<and>
           (w_solid (rows ! i) \<or> w_seg (rows ! j) = w_seg (rows ! i))"
  shows "\<exists>ctx. GddCtxReduce (gdd_build rows) = Some ctx \<and> \<not> GddCtxEmpty ctx \<and>
    image_mset ((!) rows) (mset_set J) \<subseteq># mset (gdd_rows ctx)"
proof -
  let ?S = "survivors rows {..<length rows}"
  have sub: "J \<subseteq> ?S" by (rule survivors_closed[OF assms(1)]) (use assms(3,4) in auto)
  have fin: "finite ?S" by (rule finite_subset[OF survivors_greatest(2) finite_lessThan])
  obtain es ctx where c: "GddCtxReduce (gdd_build rows) = Some ctx" "tracks es rows ?S ctx"
    using gdd_reduce_tracks by blast
  have "image_mset ((!) rows) (mset_set J) \<subseteq># image_mset ((!) rows) (mset_set ?S)"
    using sub fin by (intro image_mset_subseteq_mono) (simp add: finite_subset msubset_mset_set_iff)
  then show ?thesis using c tracks_empty[OF c(2)] tracks_rows[OF c(2)] sub assms(2) by auto
qed

theorem gdd_no_missed_deadlock_witness:
  "\<exists>ctx. GddCtxReduce (gdd_build [(0, 1, 2, True), (1, 2, 1, False), (1, 1, 2, True)]) = Some ctx \<and> \<not> GddCtxEmpty ctx \<and>
    image_mset ((!) [(0, 1, 2, True), (1, 2, 1, False), (1, 1, 2, True)]) (mset_set {0, 1, 2}) \<subseteq># mset (gdd_rows ctx)"
  by (rule gdd_no_missed_deadlock) auto

text \<open>
  C2: Breaking deadlocks comes to an end when no vertex id is negative: the transactions it
  returns are distinct and take part in surviving waits, the first is the youngest of them,
  the context left is empty, and without the cancelled transactions no waits survive.
\<close>

theorem gdd_break_deadlock:
  assumes "\<forall>r \<in> set rows. 0 \<le> w_from r \<and> 0 \<le> w_to r"
  shows "\<exists>ctx vids ctx'. GddCtxReduce (gdd_build rows) = Some ctx \<and> GddCtxBreakDeadLock ctx = Some (vids, ctx') \<and>
    GddCtxEmpty ctx' \<and> distinct vids \<and> set vids \<subseteq> w_from ` set (gdd_rows ctx) \<union> w_to ` set (gdd_rows ctx) \<and>
    (gdd_rows ctx \<noteq> [] \<longrightarrow> hd vids = Max (w_from ` set (gdd_rows ctx) \<union> w_to ` set (gdd_rows ctx))) \<and>
    survivors rows {i. i < length rows \<and> w_from (rows ! i) \<notin> set vids \<and> w_to (rows ! i) \<notin> set vids} = {}"
proof -
  let ?S = "survivors rows {..<length rows}"
  let ?vids = "cancel_waits rows ?S"
  obtain es ctx where c: "GddCtxReduce (gdd_build rows) = Some ctx" "tracks es rows ?S ctx"
    using gdd_reduce_tracks by blast
  have S: "?S \<subseteq> {..<length rows}" by (rule survivors_greatest(2))
  then have fin: "finite ?S" by (rule finite_subset) simp
  have "\<forall>v \<in> waits_at rows ?S. 0 \<le> v" using waits_at_rows[OF S] assms by blast
  then obtain ctx' where b: "GddCtxBreakDeadLock_loop [] ctx = Some (?vids, ctx')" "tracks es rows {} ctx'"
    using tracks_break[OF c(2), of "[]"] by auto
  have set: "set (gdd_rows ctx) = (!) rows ` ?S"
    using arg_cong[OF tracks_rows[OF c(2)], of set_mset] fin by simp
  then have at: "w_from ` set (gdd_rows ctx) \<union> w_to ` set (gdd_rows ctx) = waits_at rows ?S"
    by (simp add: waits_at_def image_image)
  have hd: "hd ?vids = Max (waits_at rows ?S)" if "gdd_rows ctx \<noteq> []"
    using that set fin by (subst cancel_waits.simps) auto
  let ?J = "survivors rows {i. i < length rows \<and> w_from (rows ! i) \<notin> set ?vids \<and> w_to (rows ! i) \<notin> set ?vids}"
  have "?J \<subseteq> ?S" by (rule survivors_mono) auto
  moreover have "waits_at rows ?J \<inter> set ?vids = {}"
    using survivors_greatest(2)[of rows "{i. i < length rows \<and> w_from (rows ! i) \<notin> set ?vids \<and> w_to (rows ! i) \<notin> set ?vids}"]
    unfolding waits_at_def by blast
  ultimately have "?J = {}" using cancel_waits_resolves[OF fin _ survivors_greatest(1)] by blast
  then show ?thesis
    using c(1) b(1) tracks_empty[OF b(2)] cancel_waits_distinct[OF fin, of rows] hd at
    by (intro exI[of _ ctx] exI[of _ ?vids] exI[of _ ctx']) (simp add: GddCtxBreakDeadLock_def)
qed

theorem gdd_break_deadlock_witness:
  "\<exists>ctx vids ctx'. GddCtxReduce (gdd_build [(0, 1, 2, True), (1, 2, 1, True)]) = Some ctx \<and>
    GddCtxBreakDeadLock ctx = Some (vids, ctx') \<and> GddCtxEmpty ctx' \<and> distinct vids"
  using gdd_break_deadlock[of "[(0, 1, 2, True), (1, 2, 1, True)]"] by auto

text \<open>
  C5: The degree counters are exact after the reduction: the top counters are the number of
  edges left, and the counters of each transaction are the numbers of its waits on all segments.
\<close>

theorem gdd_degree_counters:
  assumes "GddCtxReduce (gdd_build rows) = Some ctx"
  shows "indeg (ctx_topstat ctx) = int (length (gdd_rows ctx)) \<and> outdeg (ctx_topstat ctx) = int (length (gdd_rows ctx)) \<and>
    (\<forall>(v, s) \<in> set (map_pairs (ctx_globals ctx)).
       indeg (statH ctx s) = int (length (filter (\<lambda>r. w_to r = v) (gdd_rows ctx))) \<and>
       outdeg (statH ctx s) = int (length (filter (\<lambda>r. w_from r = v) (gdd_rows ctx))))"
proof -
  obtain es where "tracks es rows (survivors rows {..<length rows}) ctx" using gdd_reduce_tracks[of rows] assms by auto
  then show ?thesis by (rule tracks_degrees)
qed

theorem gdd_degree_counters_witness:
  "\<exists>ctx. GddCtxReduce (gdd_build [(0, 1, 2, True), (1, 2, 1, True)]) = Some ctx \<and>
     outdeg (ctx_topstat ctx) = int (length (gdd_rows ctx))"
proof -
  obtain es c where "GddCtxReduce (gdd_build [(0, 1, 2, True), (1, 2, 1, True)]) = Some c"
    using gdd_reduce_tracks by blast
  then show ?thesis using gdd_degree_counters by blast
qed

end
