(* ===== verification/Gdd_Backend.thy ===== *)
theory Gdd_Backend
  imports Gdd_Correctness
begin

text \<open>
  The process around the detector: the wait relations that each segment reports
  (\<^verbatim>\<open>src/backend/utils/gdd/gddfuncs.c\<close>), the list of running distributed transactions
  (\<^verbatim>\<open>storage/ipc/procarray.c\<close>), and one round of the detector
  (\<^verbatim>\<open>src/backend/utils/gdd/gddbackend.c\<close>), which builds the graphs, reduces them and cancels
  transactions.

  Parameters of the model: the results of the query on the segments, the outcome of the
  internal query (an error or its rows) and the process array at the times it is read.
\<close>

subsection \<open>Wait relations\<close>

datatype GpRoleValue = GP_ROLE_UTILITY | GP_ROLE_DISPATCH | GP_ROLE_EXECUTE | GP_ROLE_UNDEFINED

record LOCKTAG =
  locktag_field1 :: "32 word"
  locktag_field2 :: "32 word"
  locktag_field3 :: "32 word"
  locktag_field4 :: "16 word"
  locktag_type :: "8 word"
  locktag_lockmethodid :: "8 word"

record LOCK =
  lock_tag :: LOCKTAG
  lock_persistent :: bool

record PROCLOCK =
  holdMask :: "32 word"

record PGPROC =
  proc_pid :: int
  gxact_gxid :: "32 word"
  distribXid :: "32 word"

record LockData =
  nelements :: nat
  proclocks :: "PROCLOCK list"
  locks :: "LOCK list"
  procs :: "PGPROC list"

record pg_result =
  resultStatus_tuples_ok :: bool
  nfields :: nat
  tuples :: "string list list"

record GddWaitStatusCtx =
  lockData :: LockData
  cdb_pgresults :: "pg_result list"
  ws_waiter :: nat
  ws_holder :: nat
  ws_seg :: nat
  ws_row :: nat

type_synonym wait_tuple = "int \<times> 32 word \<times> 32 word \<times> bool"

datatype wait_status_error = NoDataFromSegDBs | ResultStatusNotTuplesOk | UnexpectedNumberOfColumns

definition LOCKTAG_TRANSACTION :: "8 word" where
  "LOCKTAG_TRANSACTION = 4"

definition isGranted :: "PROCLOCK \<Rightarrow> bool" where
  "isGranted proclock \<longleftrightarrow> holdMask proclock \<noteq> 0"

text \<open>\<^verbatim>\<open>memcmp\<close> of two tags compares all their bytes: the fields leave no padding.\<close>

definition lockEqual :: "LOCK \<Rightarrow> LOCK \<Rightarrow> bool" where
  "lockEqual lock1 lock2 \<longleftrightarrow> lock_tag lock1 = lock_tag lock2"

definition lockIsPersistent :: "LOCK \<Rightarrow> bool" where
  "lockIsPersistent lock =
     (if lock_persistent lock then True
      else if locktag_type (lock_tag lock) = LOCKTAG_TRANSACTION then True
      else False)"

text \<open>The first call: the results of the segments are checked on the dispatcher.\<close>

definition pg_dist_wait_status_first ::
  "GpRoleValue \<Rightarrow> pg_result list \<Rightarrow> LockData \<Rightarrow> wait_status_error + GddWaitStatusCtx" where
  "pg_dist_wait_status_first role results data =
     (let ctx = \<lparr>lockData = data, cdb_pgresults = (if role = GP_ROLE_DISPATCH then results else []),
                 ws_waiter = 0, ws_holder = 0, ws_seg = 0, ws_row = 0\<rparr>
      in if role = GP_ROLE_DISPATCH then
           if length results = 0 then Inl NoDataFromSegDBs
           else
             (case for_return 0 (length results) (\<lambda>i.
                if \<not> resultStatus_tuples_ok (results ! i) then Some ResultStatusNotTuplesOk
                else if nfields (results ! i) \<noteq> 4 then Some UnexpectedNumberOfColumns
                else None) of
                Some e \<Rightarrow> Inl e
              | None \<Rightarrow> Inr ctx)
         else Inr ctx)"

definition proc_dxid :: "GpRoleValue \<Rightarrow> PGPROC \<Rightarrow> 32 word" where
  "proc_dxid role proc = (if role = GP_ROLE_DISPATCH then gxact_gxid proc else distribXid proc)"

text \<open>The inner loop over holders; the result is the next tuple and the stored holder index.\<close>

function holder_loop :: "GpRoleValue \<Rightarrow> int \<Rightarrow> LockData \<Rightarrow> nat \<Rightarrow> nat \<Rightarrow> wait_tuple option \<times> nat" where
  "holder_loop role segment data waiter holder =
     (if holder < nelements data then
        if holder = waiter then holder_loop role segment data waiter (Suc holder)
        else if \<not> isGranted (proclocks data ! holder) then holder_loop role segment data waiter (Suc holder)
        else if proc_pid (procs data ! waiter) = proc_pid (procs data ! holder)
        then holder_loop role segment data waiter (Suc holder)
        else if \<not> lockEqual (locks data ! waiter) (locks data ! holder)
        then holder_loop role segment data waiter (Suc holder)
        else (Some (segment, proc_dxid role (procs data ! waiter), proc_dxid role (procs data ! holder),
                    lockIsPersistent (locks data ! waiter)), Suc holder)
      else (None, holder))"
  by pat_completeness auto
termination by (relation "measure (\<lambda>(role, segment, data, waiter, holder). nelements data - holder)") auto

declare holder_loop.simps [simp del]

function waiter_loop :: "GpRoleValue \<Rightarrow> int \<Rightarrow> GddWaitStatusCtx \<Rightarrow> wait_tuple option \<times> GddWaitStatusCtx" where
  "waiter_loop role segment ctx =
     (let data = lockData ctx; waiter = ws_waiter ctx
      in if waiter < nelements data then
           if isGranted (proclocks data ! waiter)
           then waiter_loop role segment (ctx\<lparr>ws_waiter := Suc waiter, ws_holder := 0\<rparr>)
           else
             (case holder_loop role segment data waiter (ws_holder ctx) of
                (Some tuple, holder) \<Rightarrow> (Some tuple, ctx\<lparr>ws_holder := holder\<rparr>)
              | (None, holder) \<Rightarrow> waiter_loop role segment (ctx\<lparr>ws_waiter := Suc waiter, ws_holder := 0\<rparr>))
         else (None, ctx))"
  by pat_completeness auto
termination
  by (relation "measure (\<lambda>(role, segment, ctx). nelements (lockData ctx) - ws_waiter ctx)") (auto simp: Let_def)

declare waiter_loop.simps [simp del]

text \<open>
  \<^verbatim>\<open>atoi\<close>: white space, an optional sign and digits; the value is converted to 32 bits.
\<close>

fun atoi_digits :: "int \<Rightarrow> string \<Rightarrow> int" where
  "atoi_digits n [] = n"
| "atoi_digits n (c # cs) =
     (if 48 \<le> (of_char c :: int) \<and> (of_char c :: int) \<le> 57
      then atoi_digits (10 * n + (of_char c - 48)) cs else n)"

fun atoi :: "string \<Rightarrow> 32 word" where
  "atoi [] = 0"
| "atoi (c # cs) =
     (if c = CHR '' '' \<or> (9 \<le> (of_char c :: int) \<and> (of_char c :: int) \<le> 13) then atoi cs
      else if c = CHR ''-'' then word_of_int (- atoi_digits 0 cs)
      else if c = CHR ''+'' then word_of_int (atoi_digits 0 cs)
      else word_of_int (atoi_digits 0 (c # cs)))"

definition tuple_of_row :: "string list \<Rightarrow> wait_tuple" where
  "tuple_of_row row = (sint (atoi (row ! 0)), atoi (row ! 1), atoi (row ! 2), take 1 (row ! 3) = ''t'')"

function segs_loop :: "GddWaitStatusCtx \<Rightarrow> wait_tuple option \<times> GddWaitStatusCtx" where
  "segs_loop ctx =
     (if ws_seg ctx < length (cdb_pgresults ctx) then
        let result = cdb_pgresults ctx ! ws_seg ctx
        in if ws_row ctx < length (tuples result)
           then (Some (tuple_of_row (tuples result ! ws_row ctx)), ctx\<lparr>ws_row := Suc (ws_row ctx)\<rparr>)
           else segs_loop (ctx\<lparr>ws_seg := Suc (ws_seg ctx), ws_row := 0\<rparr>)
      else (None, ctx))"
  by pat_completeness auto
termination by (relation "measure (\<lambda>ctx. length (cdb_pgresults ctx) - ws_seg ctx)") auto

declare segs_loop.simps [simp del]

text \<open>One call of the set-returning function: the next tuple, or none when it is done.\<close>

definition pg_dist_wait_status ::
  "GpRoleValue \<Rightarrow> int \<Rightarrow> GddWaitStatusCtx \<Rightarrow> wait_tuple option \<times> GddWaitStatusCtx" where
  "pg_dist_wait_status role segment ctx =
     (case waiter_loop role segment ctx of
        (Some tuple, ctx) \<Rightarrow> (Some tuple, ctx)
      | (None, ctx) \<Rightarrow> (if role = GP_ROLE_DISPATCH then segs_loop ctx else (None, ctx)))"

text \<open>The executor calls the function until it is done.\<close>

primrec srf_calls :: "nat \<Rightarrow> GpRoleValue \<Rightarrow> int \<Rightarrow> GddWaitStatusCtx \<Rightarrow> wait_tuple option list" where
  "srf_calls 0 role segment ctx = []"
| "srf_calls (Suc n) role segment ctx =
     (let (r, ctx) = pg_dist_wait_status role segment ctx in r # srf_calls n role segment ctx)"


subsection \<open>Running transactions\<close>

text \<open>\<^verbatim>\<open>lappend_int\<close> and \<^verbatim>\<open>lfirst_int\<close> convert a 32-bit transaction id to a signed integer.\<close>

definition ListAllGxid :: "PGPROC list \<Rightarrow> int list" where
  "ListAllGxid arrayP = fold (\<lambda>proc gxids.
     if gxact_gxid proc = 0 then gxids else gxids @ [sint (gxact_gxid proc)]) arrayP []"

definition GetPidByGxid :: "PGPROC list \<Rightarrow> 32 word \<Rightarrow> int" where
  "GetPidByGxid arrayP gxid =
     (case for_return 0 (length arrayP)
        (\<lambda>i. if gxact_gxid (arrayP ! i) = gxid then Some (proc_pid (arrayP ! i)) else None) of
        Some pid \<Rightarrow> pid | None \<Rightarrow> 0)"


subsection \<open>Text of the log messages\<close>

fun digits_of :: "nat \<Rightarrow> string" where
  "digits_of n = (if n < 10 then [char_of (48 + n)] else digits_of (n div 10) @ [char_of (48 + n mod 10)])"

declare digits_of.simps [simp del]

definition format_d :: "int \<Rightarrow> string" where
  "format_d i = (if i < 0 then ''-'' @ digits_of (nat (- i)) else digits_of (nat i))"

definition gddEdgeDump :: "PGPROC list \<Rightarrow> GddCtx \<Rightarrow> nat \<Rightarrow> string \<Rightarrow> string" where
  "gddEdgeDump arrayP ctx edge str =
     (let f = vert_id (vertH ctx (edge_from (edgeH ctx edge)));
          t = vert_id (vertH ctx (edge_to (edgeH ctx edge)))
      in str @ [CHR 0x22] @ format_d f @ ''(Master Pid: '' @ format_d (GetPidByGxid arrayP (word_of_int f)) @ '')''
           @ (if edge_solid (edgeH ctx edge) then ''==>'' else ''~~>'')
           @ format_d t @ ''(Master Pid: '' @ format_d (GetPidByGxid arrayP (word_of_int t)) @ '')'' @ [CHR 0x22])"

definition gddGraphDump :: "PGPROC list \<Rightarrow> GddCtx \<Rightarrow> nat \<Rightarrow> string \<Rightarrow> string" where
  "gddGraphDump arrayP ctx graph str =
     (let str = str @ [CHR 0x22] @ ''seg'' @ format_d (graph_id (graphH ctx graph)) @ [CHR 0x22] @ '': ['';
          (str, first) = fold (\<lambda>pair s. fold (\<lambda>edge (str, first).
              (gddEdgeDump arrayP ctx edge (if first then str else str @ '',''), False))
              (edgesOut (vertH ctx (snd pair))) s)
            (map_pairs (graph_verts (graphH ctx graph))) (str, True)
      in str @ '']'')"

definition GddCtxDump :: "PGPROC list \<Rightarrow> GddCtx \<Rightarrow> string \<Rightarrow> string" where
  "GddCtxDump arrayP ctx str =
     (let ps = map_pairs (ctx_graphs ctx)
      in for_range 0 (length ps) (\<lambda>i str.
           gddGraphDump arrayP ctx (snd (ps ! i)) str @ (if i + 1 < length ps then '','' else []))
           (str @ ''{'') @ ''}'')"

fun dumpCancelResult :: "PGPROC list \<Rightarrow> string \<Rightarrow> int list \<Rightarrow> string" where
  "dumpCancelResult arrayP str [] = str"
| "dumpCancelResult arrayP str (xid # rest) =
     dumpCancelResult arrayP
       (str @ digits_of (unat (word_of_int xid :: 32 word)) @ ''(Master Pid: ''
            @ format_d (GetPidByGxid arrayP (word_of_int xid)) @ '')'' @ (if rest \<noteq> [] then '','' else [])) rest"


subsection \<open>One round of the detector\<close>

datatype spi_outcome = SPI_connect_failed | SPI_execute_error | SPI_no_tuptable | SPI_rows "wait_tuple list"

datatype gdd_status = STATUS_OK | STATUS_ERROR

definition buildWaitGraph :: "spi_outcome \<Rightarrow> PGPROC list \<Rightarrow> GddCtx \<Rightarrow> spi_outcome + GddCtx" where
  "buildWaitGraph spi arrayP ctx = (case spi of
     SPI_connect_failed \<Rightarrow> Inl SPI_connect_failed
   | SPI_execute_error \<Rightarrow> Inl SPI_execute_error
   | SPI_no_tuptable \<Rightarrow> Inr ctx
   | SPI_rows rows \<Rightarrow>
       (let gxids = ListAllGxid arrayP
        in Inr (fold (\<lambda>(segid, waiter_xid, holder_xid, solidedge) ctx.
             if sint waiter_xid \<notin> set gxids \<or> sint holder_xid \<notin> set gxids then ctx
             else GddCtxAddEdge segid (sint waiter_xid) (sint holder_xid) solidedge ctx) rows ctx)))"

text \<open>The processes that \<^verbatim>\<open>breakDeadLock\<close> cancels, in order; none if the loop does not end.\<close>

definition breakDeadLock :: "PGPROC list \<Rightarrow> GddCtx \<Rightarrow> int list option" where
  "breakDeadLock arrayP ctx =
     Option.bind (GddCtxBreakDeadLock ctx)
       (\<lambda>(xids, ctx). Some (map (\<lambda>xid. GetPidByGxid arrayP (word_of_int xid)) xids))"

definition doDeadLockCheck ::
  "spi_outcome \<Rightarrow> PGPROC list \<Rightarrow> PGPROC list \<Rightarrow> (gdd_status \<times> int list) option" where
  "doDeadLockCheck spi arrayP arrayP' = (case buildWaitGraph spi arrayP GddCtxNew of
     Inl e \<Rightarrow> Some (STATUS_ERROR, [])
   | Inr ctx \<Rightarrow> Option.bind (GddCtxReduce ctx) (\<lambda>ctx.
       if \<not> GddCtxEmpty ctx
       then Option.bind (breakDeadLock arrayP' ctx) (\<lambda>pids. Some (STATUS_OK, pids))
       else Some (STATUS_OK, [])))"


subsection \<open>The wait relations are those of the nested loops\<close>

definition is_relation :: "LockData \<Rightarrow> nat \<Rightarrow> nat \<Rightarrow> bool" where
  "is_relation data w h \<longleftrightarrow> h \<noteq> w \<and> isGranted (proclocks data ! h) \<and>
     proc_pid (procs data ! w) \<noteq> proc_pid (procs data ! h) \<and> lockEqual (locks data ! w) (locks data ! h)"

definition relation_tuple :: "GpRoleValue \<Rightarrow> int \<Rightarrow> LockData \<Rightarrow> nat \<Rightarrow> nat \<Rightarrow> wait_tuple" where
  "relation_tuple role segment data w h =
     (segment, proc_dxid role (procs data ! w), proc_dxid role (procs data ! h), lockIsPersistent (locks data ! w))"

definition holders_from :: "GpRoleValue \<Rightarrow> int \<Rightarrow> LockData \<Rightarrow> nat \<Rightarrow> nat \<Rightarrow> wait_tuple list" where
  "holders_from role segment data w h =
     map (relation_tuple role segment data w) (filter (is_relation data w) [h..<nelements data])"

definition waiters_from :: "GpRoleValue \<Rightarrow> int \<Rightarrow> LockData \<Rightarrow> nat \<Rightarrow> wait_tuple list" where
  "waiters_from role segment data w =
     concat (map (\<lambda>w. if isGranted (proclocks data ! w) then [] else holders_from role segment data w 0)
       [w..<nelements data])"

definition segs_from :: "pg_result list \<Rightarrow> nat \<Rightarrow> wait_tuple list" where
  "segs_from results seg = concat (map (\<lambda>r. map tuple_of_row (tuples r)) (drop seg results))"

definition waiting_now :: "GpRoleValue \<Rightarrow> int \<Rightarrow> GddWaitStatusCtx \<Rightarrow> wait_tuple list" where
  "waiting_now role segment ctx =
     (if ws_waiter ctx < nelements (lockData ctx) \<and> \<not> isGranted (proclocks (lockData ctx) ! ws_waiter ctx)
      then holders_from role segment (lockData ctx) (ws_waiter ctx) (ws_holder ctx) else [])
     @ waiters_from role segment (lockData ctx) (Suc (ws_waiter ctx))"

definition segs_now :: "GddWaitStatusCtx \<Rightarrow> wait_tuple list" where
  "segs_now ctx = (if ws_seg ctx < length (cdb_pgresults ctx)
     then map tuple_of_row (drop (ws_row ctx) (tuples (cdb_pgresults ctx ! ws_seg ctx))) @
          segs_from (cdb_pgresults ctx) (Suc (ws_seg ctx)) else [])"

lemma holder_loop_spec:
  "(case holders_from role segment data w h of
      [] \<Rightarrow> fst (holder_loop role segment data w h) = None
    | r # rs \<Rightarrow> fst (holder_loop role segment data w h) = Some r \<and>
        holders_from role segment data w (snd (holder_loop role segment data w h)) = rs)"
proof (induction role segment data w h rule: holder_loop.induct)
  case (1 role segment data w h)
  show ?case
  proof (cases "h < nelements data")
    case False
    then show ?thesis by (simp add: holder_loop.simps holders_from_def)
  next
    case True
    then have up: "[h..<nelements data] = h # [Suc h..<nelements data]" by (simp add: upt_conv_Cons)
    show ?thesis
    proof (cases "is_relation data w h")
      case rel: True
      then have "holder_loop role segment data w h = (Some (relation_tuple role segment data w h), Suc h)"
        using True by (subst holder_loop.simps) (simp add: is_relation_def relation_tuple_def)
      then show ?thesis using rel by (simp add: holders_from_def up)
    next
      case False
      then have step: "holder_loop role segment data w h = holder_loop role segment data w (Suc h)"
        using True by (subst holder_loop.simps) (auto simp: is_relation_def)
      have "holders_from role segment data w h = holders_from role segment data w (Suc h)"
        using False by (simp add: holders_from_def up)
      then show ?thesis unfolding step using 1 True False unfolding is_relation_def by auto
    qed
  qed
qed

lemma waiters_from_step:
  "w < nelements data \<Longrightarrow> waiters_from role segment data w =
     (if isGranted (proclocks data ! w) then [] else holders_from role segment data w 0) @
     waiters_from role segment data (Suc w)"
  by (simp add: waiters_from_def upt_conv_Cons)

lemma waiting_now_step:
  assumes "ws_waiter ctx < nelements (lockData ctx)"
  shows "waiting_now role segment (ctx\<lparr>ws_waiter := Suc (ws_waiter ctx), ws_holder := 0\<rparr>) =
    waiters_from role segment (lockData ctx) (Suc (ws_waiter ctx))"
proof (cases "Suc (ws_waiter ctx) < nelements (lockData ctx)")
  case True
  then show ?thesis by (simp add: waiting_now_def waiters_from_step)
next
  case False
  then show ?thesis by (simp add: waiting_now_def waiters_from_def)
qed

definition same_results :: "GddWaitStatusCtx \<Rightarrow> GddWaitStatusCtx \<Rightarrow> bool" where
  "same_results a b \<longleftrightarrow> cdb_pgresults a = cdb_pgresults b \<and> ws_seg a = ws_seg b \<and> ws_row a = ws_row b"

lemma waiter_loop_spec:
  "same_results (snd (waiter_loop role segment ctx)) ctx \<and>
   (case waiting_now role segment ctx of
      [] \<Rightarrow> fst (waiter_loop role segment ctx) = None \<and> waiting_now role segment (snd (waiter_loop role segment ctx)) = []
    | r # rs \<Rightarrow> fst (waiter_loop role segment ctx) = Some r \<and> waiting_now role segment (snd (waiter_loop role segment ctx)) = rs)"
proof (induction role segment ctx rule: waiter_loop.induct)
  case (1 role segment ctx)
  let ?next = "ctx\<lparr>ws_waiter := Suc (ws_waiter ctx), ws_holder := 0\<rparr>"
  let ?w = "ws_waiter ctx" and ?data = "lockData ctx"
  show ?case
  proof (cases "?w < nelements ?data")
    case False
    then show ?thesis by (simp add: waiter_loop.simps waiting_now_def waiters_from_def same_results_def)
  next
    case True
    have same: "same_results ?next ctx" by (simp add: same_results_def)
    obtain t h where th: "holder_loop role segment ?data ?w (ws_holder ctx) = (t, h)" by fastforce
    note hs = holder_loop_spec[of role segment ?data ?w "ws_holder ctx", unfolded th]
    show ?thesis
    proof (cases "isGranted (proclocks ?data ! ?w) \<or> t = None")
      case skip: True
      then have step: "waiter_loop role segment ctx = waiter_loop role segment ?next"
        using True th by (subst waiter_loop.simps) (auto simp: Let_def)
      have "waiting_now role segment ctx = waiting_now role segment ?next"
        unfolding waiting_now_step[OF True] using skip hs by (auto simp: waiting_now_def split: list.splits)
      moreover have "same_results (snd (waiter_loop role segment ?next)) ?next \<and>
         (case waiting_now role segment ?next of
            [] \<Rightarrow> fst (waiter_loop role segment ?next) = None \<and> waiting_now role segment (snd (waiter_loop role segment ?next)) = []
          | r # rs \<Rightarrow> fst (waiter_loop role segment ?next) = Some r \<and> waiting_now role segment (snd (waiter_loop role segment ?next)) = rs)"
        using 1(1)[OF refl refl True] 1(2)[OF refl refl True _ th[symmetric]] skip by auto
      ultimately show ?thesis unfolding step using same by (simp add: same_results_def)
    next
      case False
      then obtain r where t: "t = Some r" by blast
      have step: "waiter_loop role segment ctx = (Some r, ctx\<lparr>ws_holder := h\<rparr>)"
        using True False th t by (subst waiter_loop.simps) (simp add: Let_def)
      show ?thesis unfolding step using hs True False t
        by (auto simp: waiting_now_def same_results_def split: list.splits)
    qed
  qed
qed

lemma segs_loop_spec:
  "waiting_now role segment (snd (segs_loop ctx)) = waiting_now role segment ctx \<and>
   (case segs_now ctx of
      [] \<Rightarrow> fst (segs_loop ctx) = None \<and> segs_now (snd (segs_loop ctx)) = []
    | r # rs \<Rightarrow> fst (segs_loop ctx) = Some r \<and> segs_now (snd (segs_loop ctx)) = rs)"
proof (induction ctx rule: segs_loop.induct)
  case (1 ctx)
  let ?next = "ctx\<lparr>ws_seg := Suc (ws_seg ctx), ws_row := 0\<rparr>"
  let ?ts = "tuples (cdb_pgresults ctx ! ws_seg ctx)"
  show ?case
  proof (cases "ws_seg ctx < length (cdb_pgresults ctx)")
    case False
    then show ?thesis by (simp add: segs_loop.simps segs_now_def)
  next
    case True
    show ?thesis
    proof (cases "ws_row ctx < length ?ts")
      case row: True
      have "drop (ws_row ctx) ?ts = ?ts ! ws_row ctx # drop (Suc (ws_row ctx)) ?ts" using row by (simp add: Cons_nth_drop_Suc)
      then show ?thesis using True row by (simp add: segs_loop.simps[of ctx] segs_now_def waiting_now_def)
    next
      case False
      have step: "segs_loop ctx = segs_loop ?next" using True False by (simp add: segs_loop.simps[of ctx])
      have "segs_now ctx = segs_now ?next"
      proof (cases "Suc (ws_seg ctx) < length (cdb_pgresults ctx)")
        case more: True
        then have "drop (Suc (ws_seg ctx)) (cdb_pgresults ctx) = cdb_pgresults ctx ! Suc (ws_seg ctx) # drop (Suc (Suc (ws_seg ctx))) (cdb_pgresults ctx)"
          by (simp add: Cons_nth_drop_Suc)
        then show ?thesis using True False more by (simp add: segs_now_def segs_from_def)
      next
        case more: False
        then show ?thesis using True False by (simp add: segs_now_def segs_from_def)
      qed
      moreover have "waiting_now role segment ctx = waiting_now role segment ?next" by (simp add: waiting_now_def)
      ultimately show ?thesis unfolding step using 1[OF True refl False] by simp
    qed
  qed
qed

definition remaining :: "GpRoleValue \<Rightarrow> int \<Rightarrow> GddWaitStatusCtx \<Rightarrow> wait_tuple list" where
  "remaining role segment ctx =
     waiting_now role segment ctx @ (if role = GP_ROLE_DISPATCH then segs_now ctx else [])"

lemma pg_dist_wait_status_spec:
  "(case remaining role segment ctx of
      [] \<Rightarrow> fst (pg_dist_wait_status role segment ctx) = None
    | r # rs \<Rightarrow> fst (pg_dist_wait_status role segment ctx) = Some r \<and>
        remaining role segment (snd (pg_dist_wait_status role segment ctx)) = rs)"
proof -
  obtain t c where w: "waiter_loop role segment ctx = (t, c)" by fastforce
  note ws = waiter_loop_spec[of role segment ctx, unfolded w, simplified]
  have call: "pg_dist_wait_status role segment ctx =
      (case t of Some r \<Rightarrow> (Some r, c) | None \<Rightarrow> if role = GP_ROLE_DISPATCH then segs_loop c else (None, c))"
    by (simp add: pg_dist_wait_status_def w split: option.split)
  have sn: "segs_now c = segs_now ctx" using ws by (simp add: same_results_def segs_now_def)
  show ?thesis
  proof (cases t)
    case (Some r)
    then show ?thesis unfolding call using ws sn by (auto simp: remaining_def split: list.splits)
  next
    case None
    then have "waiting_now role segment ctx = []" "waiting_now role segment c = []" using ws by (auto split: list.splits)
    then show ?thesis unfolding call using None sn segs_loop_spec[of role segment c]
      by (auto simp: remaining_def split: list.splits)
  qed
qed

lemma srf_calls_remaining:
  "srf_calls (Suc (length (remaining role segment ctx))) role segment ctx = map Some (remaining role segment ctx) @ [None]"
proof (induction "remaining role segment ctx" arbitrary: ctx)
  case Nil
  then show ?case using pg_dist_wait_status_spec[of role segment ctx] by (simp add: case_prod_beta)
next
  case (Cons r rs)
  then have s: "fst (pg_dist_wait_status role segment ctx) = Some r"
    "remaining role segment (snd (pg_dist_wait_status role segment ctx)) = rs"
    using pg_dist_wait_status_spec[of role segment ctx] by (auto simp flip: Cons(2))
  show ?case using Cons(1)[OF s(2)[symmetric]] s Cons(2)[symmetric] by (simp add: case_prod_beta)
qed

lemma pg_dist_wait_status_first_remaining:
  assumes "pg_dist_wait_status_first role results data = Inr ctx"
  shows "remaining role segment ctx =
    waiters_from role segment data 0 @ (if role = GP_ROLE_DISPATCH then segs_from results 0 else [])"
proof -
  have ctx: "ctx = \<lparr>lockData = data, cdb_pgresults = (if role = GP_ROLE_DISPATCH then results else []),
                 ws_waiter = 0, ws_holder = 0, ws_seg = 0, ws_row = 0\<rparr>"
    using assms by (auto simp: pg_dist_wait_status_first_def Let_def split: if_splits option.splits)
  have "waiting_now role segment ctx = waiters_from role segment data 0"
  proof (cases "0 < nelements data")
    case True
    then show ?thesis by (simp add: ctx waiting_now_def waiters_from_step[OF True])
  qed (simp add: ctx waiting_now_def waiters_from_def)
  moreover have "segs_now ctx = segs_from results 0" if "role = GP_ROLE_DISPATCH"
    using that by (cases results) (simp_all add: ctx segs_now_def segs_from_def)
  ultimately show ?thesis by (simp add: remaining_def)
qed


subsection \<open>The graph holds the waits of running transactions\<close>

definition running :: "PGPROC list \<Rightarrow> 32 word set" where
  "running arrayP = gxact_gxid ` set arrayP - {0}"

definition valid_waits :: "PGPROC list \<Rightarrow> wait_tuple list \<Rightarrow> wait list" where
  "valid_waits arrayP rows = map (\<lambda>(segid, w, h, solid). (segid, sint w, sint h, solid))
     (filter (\<lambda>(segid, w, h, solid). w \<in> running arrayP \<and> h \<in> running arrayP) rows)"

lemma ListAllGxid_running: "set (ListAllGxid arrayP) = sint ` running arrayP"
proof -
  have "set (fold (\<lambda>proc gxids. if gxact_gxid proc = 0 then gxids else gxids @ [sint (gxact_gxid proc)]) ps acc) =
      set acc \<union> sint ` (gxact_gxid ` set ps - {0})" for ps acc
    by (induction ps arbitrary: acc) auto
  from this[of arrayP "[]"] show ?thesis by (simp add: ListAllGxid_def running_def)
qed

lemma list_member_running: "sint g \<in> set (ListAllGxid arrayP) \<longleftrightarrow> g \<in> running arrayP"
  by (auto simp: ListAllGxid_running sint_inject)

lemma buildWaitGraph_rows:
  "buildWaitGraph (SPI_rows rows) arrayP GddCtxNew = Inr (gdd_build (valid_waits arrayP rows))"
proof -
  let ?add = "\<lambda>(segid, a, b, solid) ctx. GddCtxAddEdge segid a b solid ctx"
  have "fold (\<lambda>(segid, w, h, solid) ctx. if w \<notin> running arrayP \<or> h \<notin> running arrayP then ctx
      else GddCtxAddEdge segid (sint w) (sint h) solid ctx) rows ctx = fold ?add (valid_waits arrayP rows) ctx" for ctx
  proof (induction rows arbitrary: ctx)
    case (Cons r rows)
    obtain segid w h solid where "r = (segid, w, h, solid)" by (cases r)
    then show ?case using Cons by (simp add: valid_waits_def)
  qed (simp add: valid_waits_def)
  then show ?thesis by (simp add: buildWaitGraph_def gdd_build_def list_member_running)
qed

lemma valid_waits_running:
  "r \<in> set (valid_waits arrayP rows) \<Longrightarrow> w_from r \<in> sint ` running arrayP \<and> w_to r \<in> sint ` running arrayP"
  by (auto simp: valid_waits_def)

lemma GetPidByGxid_running:
  assumes "g \<in> running arrayP"
  shows "\<exists>p \<in> set arrayP. gxact_gxid p = g \<and> GetPidByGxid arrayP g = proc_pid p"
proof -
  let ?f = "\<lambda>i. if gxact_gxid (arrayP ! i) = g then Some (proc_pid (arrayP ! i)) else None"
  obtain i where i: "i < length arrayP" "gxact_gxid (arrayP ! i) = g" using assms by (auto simp: running_def in_set_conv_nth)
  then have "for_return 0 (length arrayP) ?f \<noteq> None" by (auto simp: for_return_None_iff)
  then obtain pid where pid: "for_return 0 (length arrayP) ?f = Some pid" by blast
  then obtain j where "j < length arrayP" "gxact_gxid (arrayP ! j) = g" "pid = proc_pid (arrayP ! j)"
    by (auto simp: for_return_Some_iff split: if_splits)
  then show ?thesis using pid by (auto simp: GetPidByGxid_def)
qed


subsection \<open>Properties\<close>

text \<open>
  C8: Called until it is done, \<open>pg_dist_wait_status\<close> returns exactly the wait relations of the
  two nested loops over the lock table, in their order, followed on the dispatcher by the rows
  of all segments.
\<close>

theorem wait_status_nested_loops:
  assumes "pg_dist_wait_status_first role results data = Inr ctx"
    and "rows = waiters_from role segment data 0 @ (if role = GP_ROLE_DISPATCH then segs_from results 0 else [])"
  shows "srf_calls (Suc (length rows)) role segment ctx = map Some rows @ [None]"
  using srf_calls_remaining[of role segment ctx]
  unfolding pg_dist_wait_status_first_remaining[OF assms(1)] assms(2) .

theorem wait_status_nested_loops_witness:
  "srf_calls (Suc (Suc 0)) GP_ROLE_DISPATCH (-1)
     \<lparr>lockData = \<lparr>nelements = 0, proclocks = [], locks = [], procs = []\<rparr>,
      cdb_pgresults = [\<lparr>resultStatus_tuples_ok = True, nfields = 4, tuples = [[''0'', ''7'', ''8'', ''t'']]\<rparr>],
      ws_waiter = 0, ws_holder = 0, ws_seg = 0, ws_row = 0\<rparr> = [Some (0, 7, 8, True), None]"
  using wait_status_nested_loops[of GP_ROLE_DISPATCH
      "[\<lparr>resultStatus_tuples_ok = True, nfields = 4, tuples = [[''0'', ''7'', ''8'', ''t'']]\<rparr>]"
      "\<lparr>nelements = 0, proclocks = [], locks = [], procs = []\<rparr>" _ "[(0, 7, 8, True)]" "-1"]
  by (simp add: pg_dist_wait_status_first_def for_return_def waiters_from_def segs_from_def tuple_of_row_def del: srf_calls.simps)

text \<open>
  C6: One round of the detector, when all running distributed transaction ids are below 2^31
  and the process array does not change: the round ends normally, cancels nothing iff no wait
  between running transactions survives, and cancels only processes that run a distributed
  transaction taking part in a surviving wait.
\<close>

theorem doDeadLockCheck_cancels:
  assumes "\<forall>p \<in> set arrayP. gxact_gxid p < 2 ^ 31"
  shows "\<exists>pids. doDeadLockCheck (SPI_rows rows) arrayP arrayP = Some (STATUS_OK, pids) \<and>
    (pids = [] \<longleftrightarrow> survivors (valid_waits arrayP rows) {..<length (valid_waits arrayP rows)} = {}) \<and>
    set pids \<subseteq> proc_pid ` {p \<in> set arrayP. sint (gxact_gxid p) \<in>
      waits_at (valid_waits arrayP rows) (survivors (valid_waits arrayP rows) {..<length (valid_waits arrayP rows)})}"
proof -
  let ?ws = "valid_waits arrayP rows"
  let ?S = "survivors ?ws {..<length ?ws}"
  have nonneg: "0 \<le> sint g" if "g \<in> running arrayP" for g
    using that assms sint32_neg_iff[of g] by (auto simp: running_def)
  obtain es ctx where c: "GddCtxReduce (gdd_build ?ws) = Some ctx" "tracks es ?ws ?S ctx"
    using gdd_reduce_tracks by blast
  have sub: "waits_at ?ws ?S \<subseteq> sint ` running arrayP"
    using waits_at_rows[OF survivors_greatest(2)] valid_waits_running by blast
  then have "\<forall>v \<in> waits_at ?ws ?S. 0 \<le> v" using nonneg by blast
  then obtain ctx' where b: "GddCtxBreakDeadLock ctx = Some (cancel_waits ?ws ?S, ctx')"
    using tracks_break[OF c(2), of "[]"] by (auto simp: GddCtxBreakDeadLock_def)
  have fin: "finite ?S" using finite_subset[OF survivors_greatest(2)] by blast
  let ?pids = "map (\<lambda>xid. GetPidByGxid arrayP (word_of_int xid)) (cancel_waits ?ws ?S)"
  have pid: "GetPidByGxid arrayP (word_of_int v) \<in> proc_pid ` {p \<in> set arrayP. sint (gxact_gxid p) \<in> waits_at ?ws ?S}"
    if "v \<in> waits_at ?ws ?S" for v
  proof -
    obtain g where g: "g \<in> running arrayP" "v = sint g" using sub \<open>v \<in> waits_at ?ws ?S\<close> by blast
    then show ?thesis using GetPidByGxid_running[OF g(1)] that by auto
  qed
  have res: "doDeadLockCheck (SPI_rows rows) arrayP arrayP = Some (STATUS_OK, if ?S = {} then [] else ?pids)"
    using c(1) b tracks_empty[OF c(2)] by (simp add: doDeadLockCheck_def buildWaitGraph_rows breakDeadLock_def)
  have "?pids \<noteq> []" if "?S \<noteq> {}" using that fin by (subst cancel_waits.simps) simp
  then show ?thesis using res pid cancel_waits_distinct[OF fin, of ?ws] by auto
qed

theorem doDeadLockCheck_cancels_witness:
  "\<exists>pids. doDeadLockCheck (SPI_rows [(0, 7, 8, True), (1, 8, 7, True)])
     [\<lparr>proc_pid = 100, gxact_gxid = 7, distribXid = 0\<rparr>, \<lparr>proc_pid = 101, gxact_gxid = 8, distribXid = 0\<rparr>]
     [\<lparr>proc_pid = 100, gxact_gxid = 7, distribXid = 0\<rparr>, \<lparr>proc_pid = 101, gxact_gxid = 8, distribXid = 0\<rparr>] =
     Some (STATUS_OK, pids)"
  using doDeadLockCheck_cancels[of "[\<lparr>proc_pid = 100, gxact_gxid = 7, distribXid = 0\<rparr>,
      \<lparr>proc_pid = 101, gxact_gxid = 8, distribXid = 0\<rparr>]" "[(0, 7, 8, True), (1, 8, 7, True)]"]
  by auto

text \<open>
  C7: A round never ends when two transactions with ids of at least 2^31 wait for each other on
  two segments: as signed integers their ids are negative, so no vertex is ever chosen.
\<close>

theorem doDeadLockCheck_large_gxids:
  assumes "2 ^ 31 \<le> g" "2 ^ 31 \<le> h" "pid \<noteq> pid'"
    and "arrayP = [\<lparr>proc_pid = pid, gxact_gxid = g, distribXid = 0\<rparr>, \<lparr>proc_pid = pid', gxact_gxid = h, distribXid = 0\<rparr>]"
  shows "doDeadLockCheck (SPI_rows [(0, g, h, True), (1, h, g, True)]) arrayP arrayP' = None"
proof -
  have neg: "sint g < 0" "sint h < 0" using assms(1,2) by (simp_all add: sint32_neg_iff)
  have run: "g \<in> running arrayP" "h \<in> running arrayP" using assms by (auto simp: running_def)
  let ?ws = "[(0, sint g, sint h, True), (1, sint h, sint g, True)] :: wait list"
  have ws: "valid_waits arrayP [(0, g, h, True), (1, h, g, True)] = ?ws" using run by (simp add: valid_waits_def)
  obtain es ctx where c: "GddCtxReduce (gdd_build ?ws) = Some ctx" "tracks es ?ws (survivors ?ws {..<length ?ws}) ctx"
    using gdd_reduce_tracks[of ?ws] by blast
  have "{0, 1} \<subseteq> survivors ?ws {..<length ?ws}" by (rule survivors_closed) auto
  then have ne: "\<not> GddCtxEmpty ctx" using tracks_empty[OF c(2)] by auto
  then have "GddCtxBreakDeadLock ctx = None" using gdd_break_negative_diverges[OF c(1)] neg by simp
  then show ?thesis using c(1) ne by (simp add: doDeadLockCheck_def buildWaitGraph_rows ws breakDeadLock_def)
qed

theorem doDeadLockCheck_large_gxids_witness:
  "doDeadLockCheck (SPI_rows [(0, 0x80000001, 0x80000002, True), (1, 0x80000002, 0x80000001, True)])
     [\<lparr>proc_pid = 100, gxact_gxid = 0x80000001, distribXid = 0\<rparr>, \<lparr>proc_pid = 101, gxact_gxid = 0x80000002, distribXid = 0\<rparr>]
     [] = None"
  by (rule doDeadLockCheck_large_gxids) (simp_all add: word_le_nat_alt)

end
