(* ===== verification/Cdb_Hash.thy ===== *)
theory Cdb_Hash
  imports Hash_Functions
begin

text \<open>
  The hashing that places a tuple on a segment (\<^verbatim>\<open>src/backend/cdb/cdbhash.c\<close>): the FNV-1
  hash of the bytes of each distribution key, its reduction to a segment number, and the
  types it supports.

  The object ids of the types the code names are the constructors of \<open>Oid\<close>.  A datum is what
  the code reads through the macros of the type: a machine word for a type passed by value,
  and the structure behind the pointer otherwise, with variable-length values after
  detoasting.  Floating-point values are their IEEE bit patterns and timestamps are 64-bit
  integers.  Reading a datum with the macros of another type, which C leaves undefined, is the
  error \<open>DatumMismatch\<close>.  The system catalog is a parameter: \<open>cat t\<close> is the row of \<^verbatim>\<open>pg_type\<close>.
\<close>

subsection \<open>Types and values\<close>

datatype Oid =
    INT2OID | INT4OID | INT8OID | FLOAT4OID | FLOAT8OID | NUMERICOID | CHAROID | BPCHAROID | TEXTOID
  | VARCHAROID | BYTEAOID | NAMEOID | OIDOID | TIDOID | REGPROCOID | REGPROCEDUREOID | REGOPEROID
  | REGOPERATOROID | REGCLASSOID | REGTYPEOID | ANYENUMOID | TIMESTAMPOID | TIMESTAMPTZOID | DATEOID
  | TIMEOID | TIMETZOID | INTERVALOID | ABSTIMEOID | RELTIMEOID | TINTERVALOID | INETOID | CIDROID
  | MACADDROID | BITOID | VARBITOID | BOOLOID | ANYARRAYOID | OIDVECTOROID | CASHOID | UUIDOID
  | COMPLEXOID | OtherOid uint32

record Interval =
  interval_time :: uint64
  interval_day :: uint32
  interval_month :: uint32

datatype Datum =
    ByVal uint64
  | Varlena bytes
  | Numeric uint16 uint16 bytes
  | NamePtr bytes
  | TidPtr bytes
  | TimeTz uint64 uint32
  | IntervalPtr Interval
  | TInterval uint32 uint32 uint32
  | Inet uint8 uint8 bytes
  | Macaddr bytes
  | VarBit uint32 bytes
  | Array bytes
  | Oidvector "uint32 list"
  | Uuid bytes
  | Complex uint64 uint64

datatype hash_error = NotHashable Oid | DatumMismatch | CacheLookupFailed Oid

record Form_pg_type =
  typelem_valid :: bool
  typtype :: char
  typname :: string
  typinput_array_in :: bool
  typinput_enum_in :: bool
  typbasetype :: Oid

type_synonym catalog = "Oid \<Rightarrow> Form_pg_type option"


subsection \<open>The hash state\<close>

datatype CdbHashReduce = REDUCE_LAZYMOD | REDUCE_BITMASK

record CdbHash =
  cdb_hash :: uint32
  numsegs :: uint32
  reducealg :: CdbHashReduce
  rrindex :: uint32

definition FNV1_32_INIT :: uint32 where "FNV1_32_INIT = 0x811c9dc5"
definition FNV_32_PRIME :: uint32 where "FNV_32_PRIME = 0x01000193"
definition NULL_VAL :: uint32 where "NULL_VAL = 0xF0F0F0F1"
definition NAN_VAL :: uint32 where "NAN_VAL = 0xE0E0E0E1"
definition INVALID_VAL :: uint32 where "INVALID_VAL = 0xD0D0D0D1"
definition INVALID_ABSTIME :: uint32 where "INVALID_ABSTIME = 0x7FFFFFFE"
definition INVALID_RELTIME :: uint32 where "INVALID_RELTIME = 0x7FFFFFFE"
definition NAMEDATALEN :: nat where "NAMEDATALEN = 64"

definition FASTMOD :: "uint32 \<Rightarrow> uint32 \<Rightarrow> uint32" where
  "FASTMOD x y = x AND (y - 1)"

definition ispowof2 :: "uint32 \<Rightarrow> bool" where
  "ispowof2 n \<longleftrightarrow> n AND (n - 1) = 0"

text \<open>The two variants of the FNV step: the shifts that are compiled, and the multiplication.\<close>

definition fnv_step :: "uint32 \<Rightarrow> uint8 \<Rightarrow> uint32" where
  "fnv_step hval b =
     (let hval = hval + (push_bit 1 hval + push_bit 4 hval + push_bit 7 hval + push_bit 8 hval + push_bit 24 hval)
      in hval XOR ucast b)"

definition fnv_step_mult :: "uint32 \<Rightarrow> uint8 \<Rightarrow> uint32" where
  "fnv_step_mult hval b = (let hval = hval * FNV_32_PRIME in hval XOR ucast b)"

fun fnv1_32_buf :: "bytes \<Rightarrow> uint32 \<Rightarrow> uint32" where
  "fnv1_32_buf [] hval = hval"
| "fnv1_32_buf (b # bs) hval = fnv1_32_buf bs (fnv_step hval b)"

text \<open>The random start of the round robin is an argument.\<close>

definition makeCdbHash :: "uint32 \<Rightarrow> uint32 \<Rightarrow> CdbHash" where
  "makeCdbHash n rnd = \<lparr>cdb_hash = 0, numsegs = n,
     reducealg = (if ispowof2 n then REDUCE_BITMASK else REDUCE_LAZYMOD), rrindex = rnd\<rparr>"

definition cdbhashinit :: "CdbHash \<Rightarrow> CdbHash" where
  "cdbhashinit h = h\<lparr>cdb_hash := FNV1_32_INIT\<rparr>"

definition addToCdbHash :: "CdbHash \<Rightarrow> bytes \<Rightarrow> CdbHash" where
  "addToCdbHash h buf = h\<lparr>cdb_hash := fnv1_32_buf buf (cdb_hash h)\<rparr>"

definition cdbhashreduce :: "CdbHash \<Rightarrow> uint32" where
  "cdbhashreduce h = (case reducealg h of
     REDUCE_BITMASK \<Rightarrow> FASTMOD (cdb_hash h) (numsegs h)
   | REDUCE_LAZYMOD \<Rightarrow> cdb_hash h mod numsegs h)"


subsection \<open>Catalog tests\<close>

definition typeidType :: "catalog \<Rightarrow> Oid \<Rightarrow> hash_error + Form_pg_type" where
  "typeidType cat t = (case cat t of None \<Rightarrow> Inl (CacheLookupFailed t) | Some tup \<Rightarrow> Inr tup)"

definition typeIsArrayType :: "catalog \<Rightarrow> Oid \<Rightarrow> hash_error + bool" where
  "typeIsArrayType cat t = result_bind (typeidType cat t) (\<lambda>typeform.
     Inr (typelem_valid typeform \<and> typtype typeform \<noteq> CHR ''d'' \<and>
          take 1 (typname typeform) = ''_'' \<and> typinput_array_in typeform))"

definition typeIsEnumType :: "catalog \<Rightarrow> Oid \<Rightarrow> hash_error + bool" where
  "typeIsEnumType cat t = result_bind (typeidType cat t) (\<lambda>typeform.
     Inr (typtype typeform = CHR ''e'' \<and> typinput_enum_in typeform))"






subsection \<open>Hashing a datum\<close>

text \<open>The length without trailing blanks; one byte is always kept.\<close>

fun ignoreblanks :: "bytes \<Rightarrow> nat \<Rightarrow> nat" where
  "ignoreblanks data 0 = 0"
| "ignoreblanks data (Suc len) =
     (if data ! len = 32 then if len = 1 then 1 else ignoreblanks data len else Suc len)"

definition inet_getkey :: "uint8 \<Rightarrow> uint8 \<Rightarrow> bytes \<Rightarrow> bytes" where
  "inet_getkey family bits ipaddr =
     (let addrsize = (if family = 2 then 4 else if family = 3 then 16 else 0)
      in family # bits # take addrsize ipaddr)"

definition float4_zero :: "uint32 \<Rightarrow> bool" where
  "float4_zero x \<longleftrightarrow> x = 0 \<or> x = 0x80000000"

definition float8_zero :: "uint64 \<Rightarrow> bool" where
  "float8_zero x \<longleftrightarrow> x = 0 \<or> x = 0x8000000000000000"

definition NUMERIC_IS_NAN :: "uint16 \<Rightarrow> bool" where
  "NUMERIC_IS_NAN sign_dscale \<longleftrightarrow> (sign_dscale AND 0xC000) \<noteq> 0 \<and> (sign_dscale AND 0xC000) \<noteq> 0x4000"

text \<open>The buffer that is hashed, per type: the switch of \<^verbatim>\<open>hashDatum\<close>.\<close>

definition strip_blanks :: "bytes \<Rightarrow> bytes" where
  "strip_blanks buf = (if length buf > 1 then take (ignoreblanks buf (length buf)) buf else buf)"

definition int_buf :: "Datum \<Rightarrow> (uint64 \<Rightarrow> uint64) \<Rightarrow> hash_error + bytes" where
  "int_buf datum cast = (case datum of ByVal w \<Rightarrow> Inr (word_bytes 8 (cast w)) | _ \<Rightarrow> Inl DatumMismatch)"

definition float4_buf :: "Datum \<Rightarrow> hash_error + bytes" where
  "float4_buf datum = (case datum of
     ByVal w \<Rightarrow> Inr (word_bytes 4 (if float4_zero (ucast w) then 0 else ucast w :: uint32)) | _ \<Rightarrow> Inl DatumMismatch)"

definition float8_buf :: "Datum \<Rightarrow> hash_error + bytes" where
  "float8_buf datum = (case datum of
     ByVal w \<Rightarrow> Inr (word_bytes 8 (if float8_zero w then 0 else w)) | _ \<Rightarrow> Inl DatumMismatch)"

definition numeric_buf :: "Datum \<Rightarrow> hash_error + bytes" where
  "numeric_buf datum = (case datum of
     Numeric sign_dscale weight digits \<Rightarrow>
       Inr (if NUMERIC_IS_NAN sign_dscale then word_bytes 4 NAN_VAL else digits)
   | _ \<Rightarrow> Inl DatumMismatch)"

definition char_buf :: "Datum \<Rightarrow> hash_error + bytes" where
  "char_buf datum = (case datum of ByVal w \<Rightarrow> Inr [ucast w] | _ \<Rightarrow> Inl DatumMismatch)"

definition varlena_buf :: "Oid \<Rightarrow> Datum \<Rightarrow> hash_error + bytes" where
  "varlena_buf type datum = (case datum of
     Varlena buf \<Rightarrow> Inr (if type \<noteq> BYTEAOID then strip_blanks buf else buf) | _ \<Rightarrow> Inl DatumMismatch)"

definition name_buf :: "Datum \<Rightarrow> hash_error + bytes" where
  "name_buf datum = (case datum of
     NamePtr name \<Rightarrow> Inr (take (ignoreblanks name NAMEDATALEN) name) | _ \<Rightarrow> Inl DatumMismatch)"

definition oid_buf :: "Datum \<Rightarrow> hash_error + bytes" where
  "oid_buf datum = int_buf datum (\<lambda>w. ucast (ucast w :: uint32))"

definition tid_buf :: "Datum \<Rightarrow> hash_error + bytes" where
  "tid_buf datum = (case datum of TidPtr tid \<Rightarrow> Inr (take 6 tid) | _ \<Rightarrow> Inl DatumMismatch)"

definition date_buf :: "Datum \<Rightarrow> hash_error + bytes" where
  "date_buf datum = (case datum of ByVal w \<Rightarrow> Inr (word_bytes 4 (ucast w :: uint32)) | _ \<Rightarrow> Inl DatumMismatch)"

definition timetz_buf :: "Datum \<Rightarrow> hash_error + bytes" where
  "timetz_buf datum = (case datum of
     TimeTz time zone \<Rightarrow> Inr (word_bytes 8 time @ word_bytes 4 zone) | _ \<Rightarrow> Inl DatumMismatch)"

definition interval_buf :: "Datum \<Rightarrow> hash_error + bytes" where
  "interval_buf datum = (case datum of
     IntervalPtr i \<Rightarrow> Inr (take 12 (word_bytes 8 (interval_time i) @ word_bytes 4 (interval_day i) @ word_bytes 4 (interval_month i)))
   | _ \<Rightarrow> Inl DatumMismatch)"

definition abstime_buf :: "Datum \<Rightarrow> hash_error + bytes" where
  "abstime_buf datum = (case datum of
     ByVal w \<Rightarrow> Inr (word_bytes 4 (if (ucast w :: uint32) = INVALID_ABSTIME then INVALID_VAL else ucast w))
   | _ \<Rightarrow> Inl DatumMismatch)"

definition reltime_buf :: "Datum \<Rightarrow> hash_error + bytes" where
  "reltime_buf datum = (case datum of
     ByVal w \<Rightarrow> Inr (word_bytes 4 (if (ucast w :: uint32) = INVALID_RELTIME then INVALID_VAL else ucast w))
   | _ \<Rightarrow> Inl DatumMismatch)"

definition tinterval_buf :: "Datum \<Rightarrow> hash_error + bytes" where
  "tinterval_buf datum = (case datum of
     TInterval status d0 d1 \<Rightarrow>
       Inr (word_bytes 4 (if status = 0 \<or> d0 = INVALID_ABSTIME \<or> d1 = INVALID_ABSTIME then INVALID_VAL else d1 - d0))
   | _ \<Rightarrow> Inl DatumMismatch)"

definition inet_buf :: "Datum \<Rightarrow> hash_error + bytes" where
  "inet_buf datum = (case datum of Inet family bits ipaddr \<Rightarrow> Inr (inet_getkey family bits ipaddr) | _ \<Rightarrow> Inl DatumMismatch)"

definition macaddr_buf :: "Datum \<Rightarrow> hash_error + bytes" where
  "macaddr_buf datum = (case datum of Macaddr mac \<Rightarrow> Inr mac | _ \<Rightarrow> Inl DatumMismatch)"

definition varbit_buf :: "Datum \<Rightarrow> hash_error + bytes" where
  "varbit_buf datum = (case datum of VarBit bit_len bits \<Rightarrow> Inr bits | _ \<Rightarrow> Inl DatumMismatch)"

definition bool_buf :: "Datum \<Rightarrow> hash_error + bytes" where
  "bool_buf datum = (case datum of ByVal w \<Rightarrow> Inr [if (ucast w :: uint8) \<noteq> 0 then 1 else 0] | _ \<Rightarrow> Inl DatumMismatch)"

definition array_buf :: "Datum \<Rightarrow> hash_error + bytes" where
  "array_buf datum = (case datum of Array data \<Rightarrow> Inr data | _ \<Rightarrow> Inl DatumMismatch)"

definition oidvector_buf :: "Datum \<Rightarrow> hash_error + bytes" where
  "oidvector_buf datum = (case datum of Oidvector values \<Rightarrow> Inr (concat (map (word_bytes 4) values)) | _ \<Rightarrow> Inl DatumMismatch)"

definition uuid_buf :: "Datum \<Rightarrow> hash_error + bytes" where
  "uuid_buf datum = (case datum of Uuid uuid \<Rightarrow> Inr (take 16 uuid) | _ \<Rightarrow> Inl DatumMismatch)"

definition complex_buf :: "Datum \<Rightarrow> hash_error + bytes" where
  "complex_buf datum = (case datum of
     Complex re im \<Rightarrow> Inr (word_bytes 8 (if float8_zero re then 0 else re) @ word_bytes 8 (if float8_zero im then 0 else im))
   | _ \<Rightarrow> Inl DatumMismatch)"

lemmas datum_buf_cases = float4_buf_def float8_buf_def numeric_buf_def char_buf_def varlena_buf_def name_buf_def oid_buf_def
  tid_buf_def date_buf_def timetz_buf_def interval_buf_def abstime_buf_def reltime_buf_def tinterval_buf_def inet_buf_def
  macaddr_buf_def varbit_buf_def bool_buf_def array_buf_def oidvector_buf_def uuid_buf_def complex_buf_def

definition datum_buf :: "Oid \<Rightarrow> Datum \<Rightarrow> hash_error + bytes" where
  "datum_buf type datum = (case type of
     INT2OID \<Rightarrow> int_buf datum (\<lambda>w. scast (ucast w :: 16 word))
   | INT4OID \<Rightarrow> int_buf datum (\<lambda>w. scast (ucast w :: 32 word))
   | INT8OID \<Rightarrow> int_buf datum (\<lambda>w. w)
   | FLOAT4OID \<Rightarrow> float4_buf datum
   | FLOAT8OID \<Rightarrow> float8_buf datum
   | NUMERICOID \<Rightarrow> numeric_buf datum
   | CHAROID \<Rightarrow> char_buf datum
   | BPCHAROID \<Rightarrow> varlena_buf type datum
   | TEXTOID \<Rightarrow> varlena_buf type datum
   | VARCHAROID \<Rightarrow> varlena_buf type datum
   | BYTEAOID \<Rightarrow> varlena_buf type datum
   | NAMEOID \<Rightarrow> name_buf datum
   | OIDOID \<Rightarrow> oid_buf datum
   | REGPROCOID \<Rightarrow> oid_buf datum
   | REGPROCEDUREOID \<Rightarrow> oid_buf datum
   | REGOPEROID \<Rightarrow> oid_buf datum
   | REGOPERATOROID \<Rightarrow> oid_buf datum
   | REGCLASSOID \<Rightarrow> oid_buf datum
   | REGTYPEOID \<Rightarrow> oid_buf datum
   | ANYENUMOID \<Rightarrow> oid_buf datum
   | TIDOID \<Rightarrow> tid_buf datum
   | TIMESTAMPOID \<Rightarrow> int_buf datum (\<lambda>w. w)
   | TIMESTAMPTZOID \<Rightarrow> int_buf datum (\<lambda>w. w)
   | DATEOID \<Rightarrow> date_buf datum
   | TIMEOID \<Rightarrow> int_buf datum (\<lambda>w. w)
   | TIMETZOID \<Rightarrow> timetz_buf datum
   | INTERVALOID \<Rightarrow> interval_buf datum
   | ABSTIMEOID \<Rightarrow> abstime_buf datum
   | RELTIMEOID \<Rightarrow> reltime_buf datum
   | TINTERVALOID \<Rightarrow> tinterval_buf datum
   | INETOID \<Rightarrow> inet_buf datum
   | CIDROID \<Rightarrow> inet_buf datum
   | MACADDROID \<Rightarrow> macaddr_buf datum
   | BITOID \<Rightarrow> varbit_buf datum
   | VARBITOID \<Rightarrow> varbit_buf datum
   | BOOLOID \<Rightarrow> bool_buf datum
   | ANYARRAYOID \<Rightarrow> array_buf datum
   | OIDVECTOROID \<Rightarrow> oidvector_buf datum
   | CASHOID \<Rightarrow> int_buf datum (\<lambda>w. w)
   | UUIDOID \<Rightarrow> uuid_buf datum
   | COMPLEXOID \<Rightarrow> complex_buf datum
   | OtherOid n \<Rightarrow> Inl (NotHashable (OtherOid n)))"

definition hashDatum :: "catalog \<Rightarrow> Datum \<Rightarrow> Oid \<Rightarrow> ('c \<Rightarrow> bytes \<Rightarrow> 'c) \<Rightarrow> 'c \<Rightarrow> hash_error + 'c" where
  "hashDatum cat datum type hashFn clientData =
     result_bind (typeIsEnumType cat type) (\<lambda>enum.
       result_bind (datum_buf (if enum then ANYENUMOID else type) datum) (\<lambda>buf.
         Inr (hashFn clientData buf)))"

definition hashNullDatum :: "('c \<Rightarrow> bytes \<Rightarrow> 'c) \<Rightarrow> 'c \<Rightarrow> 'c" where
  "hashNullDatum hashFn clientData = hashFn clientData (word_bytes 4 NULL_VAL)"

definition cdbhash :: "catalog \<Rightarrow> CdbHash \<Rightarrow> Datum \<Rightarrow> Oid \<Rightarrow> hash_error + CdbHash" where
  "cdbhash cat h datum type = hashDatum cat datum type addToCdbHash h"

definition cdbhashnull :: "CdbHash \<Rightarrow> CdbHash" where
  "cdbhashnull h = hashNullDatum addToCdbHash h"

definition cdbhashnokey :: "CdbHash \<Rightarrow> CdbHash" where
  "cdbhashnokey h =
     (let h = h\<lparr>cdb_hash := fnv1_32_buf (word_bytes 4 (rrindex h)) (cdb_hash h)\<rparr>
      in h\<lparr>rrindex := rrindex h + 1\<rparr>)"


subsection \<open>Comparison of intervals\<close>

text \<open>\<^verbatim>\<open>interval_cmp_internal\<close> of \<^verbatim>\<open>utils/adt/timestamp.c\<close>, with 64-bit timestamps.\<close>

definition interval_cmp_value :: "Interval \<Rightarrow> uint64" where
  "interval_cmp_value i =
     (let span = interval_time i;
          span = span + scast (interval_month i) * 30 * 86400000000;
          span = span + scast (interval_day i) * 24 * 3600000000
      in span)"

definition interval_cmp_internal :: "Interval \<Rightarrow> Interval \<Rightarrow> int" where
  "interval_cmp_internal interval1 interval2 =
     (let span1 = sint (interval_cmp_value interval1); span2 = sint (interval_cmp_value interval2)
      in if span1 < span2 then -1 else if span1 > span2 then 1 else 0)"


subsection \<open>Comparison of blank-padded strings\<close>

text \<open>\<^verbatim>\<open>bcTruelen\<close> and \<^verbatim>\<open>bpchareq\<close> of \<^verbatim>\<open>utils/adt/varchar.c\<close>; \<^verbatim>\<open>strncmp\<close> stops at a null byte.\<close>

fun bcTruelen_loop :: "bytes \<Rightarrow> nat \<Rightarrow> nat" where
  "bcTruelen_loop s 0 = 0"
| "bcTruelen_loop s (Suc i) = (if s ! i \<noteq> 32 then Suc i else bcTruelen_loop s i)"

definition bcTruelen :: "bytes \<Rightarrow> nat" where
  "bcTruelen s = bcTruelen_loop s (length s)"

fun strncmp_eq :: "bytes \<Rightarrow> bytes \<Rightarrow> bool" where
  "strncmp_eq (a # as) (b # bs) \<longleftrightarrow> a = b \<and> (a = 0 \<or> strncmp_eq as bs)"
| "strncmp_eq as bs \<longleftrightarrow> as = [] \<and> bs = []"

definition bpchareq :: "bytes \<Rightarrow> bytes \<Rightarrow> bool" where
  "bpchareq arg1 arg2 =
     (let len1 = bcTruelen arg1; len2 = bcTruelen arg2
      in if len1 \<noteq> len2 then False else strncmp_eq (take len1 arg1) (take len1 arg2))"


subsection \<open>The FNV step\<close>

lemma fnv_step_eq: "fnv_step hval b = fnv_step_mult hval b"
proof -
  have p: "push_bit n hval = hval * 2 ^ n" for n by (simp add: push_bit_eq_mult)
  have "hval + (hval * 2 ^ 1 + hval * 2 ^ 4 + hval * 2 ^ 7 + hval * 2 ^ 8 + hval * 2 ^ 24) = hval * FNV_32_PRIME"
    by (simp add: FNV_32_PRIME_def algebra_simps)
  then show ?thesis unfolding fnv_step_def fnv_step_mult_def p Let_def by simp
qed

lemma fnv1_32_buf_append: "fnv1_32_buf (xs @ ys) h = fnv1_32_buf ys (fnv1_32_buf xs h)"
  by (induction xs arbitrary: h) simp_all

lemma fnv1_32_buf_fold: "fnv1_32_buf buf h = fold (\<lambda>b hval. fnv_step_mult hval b) buf h"
  by (induction buf arbitrary: h) (simp_all add: fnv_step_eq)


lemma length_word_bytes [simp]: "length (word_bytes n w) = n"
  by (induction n arbitrary: w) simp_all


subsection \<open>Reduction to a segment\<close>

lemma nat_and_pred_zero:
  "0 < n \<Longrightarrow> n AND (n - 1) = (0 :: nat) \<Longrightarrow> \<exists>k. n = 2 ^ k"
proof (induction n rule: less_induct)
  case (less n)
  note rec = and_rec[of n "n - 1"]
  show ?case
  proof (cases "even n")
    case True
    then obtain m where m: "n = 2 * m" by blast
    then have "0 < m" "m < n" using less.prems(1) by auto
    moreover have "(n - 1) div 2 = m - 1" using m \<open>0 < m\<close> by simp
    then have "m AND (m - 1) = 0" using rec less.prems(2) True m by simp
    ultimately obtain k where "m = 2 ^ k" using less.IH by blast
    then have "n = 2 ^ Suc k" using m by simp
    then show ?thesis by blast
  next
    case False
    then obtain m where m: "n = 2 * m + 1" using oddE by blast
    have "m AND m = 0" using rec less.prems(2) m by simp
    then have "n = 2 ^ 0" using m by simp
    then show ?thesis by blast
  qed
qed

lemma ispowof2_power:
  assumes "ispowof2 n" "n \<noteq> 0"
  shows "\<exists>k < 32. n = 2 ^ k"
proof -
  have pos: "0 < unat n" using assms(2) by (simp add: unat_gt_0)
  have "unat (n - 1) = unat n - 1" using pos by (simp add: unat_minus_one assms(2))
  then have "unat n AND (unat n - 1) = 0"
    using arg_cong[OF assms(1)[unfolded ispowof2_def], of unat] by (simp add: unsigned_and_eq)
  then obtain k where k: "unat n = 2 ^ k" using nat_and_pred_zero[OF pos] by blast
  then have "(2::nat) ^ k < 2 ^ 32" using unsigned_less[of n, where ?'a = nat] by simp
  then have "k < 32" by (rule power_less_imp_less_exp[rotated]) simp
  moreover have "n = 2 ^ k" using arg_cong[OF k, of "of_nat :: nat \<Rightarrow> uint32"] by simp
  ultimately show ?thesis by blast
qed

lemma FASTMOD_mod:
  assumes "ispowof2 n" "n \<noteq> 0"
  shows "FASTMOD x n = x mod n"
proof -
  obtain k where k: "k < 32" "n = 2 ^ k" using ispowof2_power[OF assms] by blast
  have "n - 1 = mask k" by (simp add: k(2) mask_eq_exp_minus_1)
  then show ?thesis by (simp add: FASTMOD_def k(2) take_bit_eq_mask[symmetric] take_bit_eq_mod)
qed


subsection \<open>Trailing blanks\<close>

definition rstrip :: "bytes \<Rightarrow> bytes" where
  "rstrip s = rev (dropWhile (\<lambda>b. b = 32) (rev s))"

lemma rstrip_snoc [simp]: "rstrip (s @ [b]) = (if b = 32 then rstrip s else s @ [b])"
  by (simp add: rstrip_def)

lemma rstrip_blanks [simp]: "rstrip (s @ replicate n 32) = rstrip s"
  by (induction n) (simp_all add: replicate_append_same[symmetric] flip: append_assoc del: replicate_Suc add: replicate_Suc)



lemma take_bcTruelen: "take (bcTruelen s) s = rstrip s"
proof -
  have "n \<le> length s \<Longrightarrow> take (bcTruelen_loop s n) s = rstrip (take n s)" for n
  proof (induction n)
    case (Suc n)
    then have "take (Suc n) s = take n s @ [s ! n]" by (simp add: take_Suc_conv_app_nth)
    then show ?case using Suc by simp
  qed (simp add: rstrip_def)
  from this[of "length s"] show ?thesis by (simp add: bcTruelen_def)
qed

lemma strncmp_eq_iff: "0 \<notin> set as \<Longrightarrow> length as = length bs \<Longrightarrow> strncmp_eq as bs \<longleftrightarrow> as = bs"
  by (induction as bs rule: strncmp_eq.induct) auto

lemma bpchareq_iff:
  assumes "0 \<notin> set a"
  shows "bpchareq a b \<longleftrightarrow> rstrip a = rstrip b"
proof -
  have len: "length (rstrip x) = bcTruelen x" for x
  proof -
    have "bcTruelen_loop x n \<le> n" for n by (induction n) auto
    then show ?thesis using take_bcTruelen[of x, symmetric] by (simp add: bcTruelen_def)
  qed
  have sub: "set (rstrip a) \<subseteq> set a" by (metis set_take_subset take_bcTruelen)
  show ?thesis
  proof (cases "bcTruelen a = bcTruelen b")
    case True
    then have "bpchareq a b \<longleftrightarrow> strncmp_eq (rstrip a) (rstrip b)"
      using take_bcTruelen[of a] take_bcTruelen[of b] by (simp add: bpchareq_def)
    then show ?thesis using strncmp_eq_iff[of "rstrip a" "rstrip b"] sub assms True len by auto
  next
    case False
    then show ?thesis using len by (metis bpchareq_def)
  qed
qed


subsection \<open>Properties\<close>

text \<open>
  The shifts and additions of the compiled FNV step multiply by the FNV prime: the hash of
  a buffer is that of the multiplication variant.
\<close>

theorem fnv1_shift_is_multiplication:
  "fnv1_32_buf buf h = fold (\<lambda>b hval. hval * 0x01000193 XOR ucast b) buf h"
  using fnv1_32_buf_fold[of buf h] by (simp add: fnv_step_mult_def FNV_32_PRIME_def Let_def)

text \<open>
  C20: Integers of equal value hash alike whatever their width: a 16-bit value stored as int2,
  int4 or int8, and a 32-bit value stored as int4 or int8.
\<close>

theorem cdbhash_integers_agree:
  assumes "\<forall>t \<in> {INT2OID, INT4OID, INT8OID}. typeIsEnumType cat t = Inr False"
  shows "cdbhash cat h (ByVal (scast (x :: 16 word))) INT2OID = cdbhash cat h (ByVal (scast x)) INT8OID \<and>
    cdbhash cat h (ByVal (scast x)) INT4OID = cdbhash cat h (ByVal (scast x)) INT8OID \<and>
    cdbhash cat h (ByVal (scast (y :: 32 word))) INT4OID = cdbhash cat h (ByVal (scast y)) INT8OID"
proof -
  have a: "(ucast (scast x :: uint64) :: 16 word) = x" by (rule bit_word_eqI) (simp add: bit_unsigned_iff bit_signed_iff)
  have b: "(ucast (scast y :: uint64) :: 32 word) = y" by (rule bit_word_eqI) (simp add: bit_unsigned_iff bit_signed_iff)
  have c: "(scast (ucast (scast x :: uint64) :: 32 word) :: uint64) = scast x"
    by (rule bit_word_eqI) (auto simp: bit_unsigned_iff bit_signed_iff min_def split: if_splits)
  show ?thesis using assms a b c by (simp add: cdbhash_def hashDatum_def datum_buf_def datum_buf_cases int_buf_def)
qed

definition sample_catalog :: catalog where
  "sample_catalog t = Some \<lparr>typelem_valid = False, typtype = CHR ''b'', typname = ''t'', typinput_array_in = False,
     typinput_enum_in = False, typbasetype = t\<rparr>"

lemma sample_catalog_types [simp]:
  "typeIsEnumType sample_catalog t = Inr False" "typeIsArrayType sample_catalog t = Inr False"
  by (simp_all add: sample_catalog_def typeIsEnumType_def typeIsArrayType_def typeidType_def)

theorem cdbhash_integers_agree_witness:
  "cdbhash sample_catalog (makeCdbHash 3 0) (ByVal (scast (7 :: 16 word))) INT2OID =
     cdbhash sample_catalog (makeCdbHash 3 0) (ByVal (scast (7 :: 16 word))) INT8OID"
  using cdbhash_integers_agree[of sample_catalog "makeCdbHash 3 0" 7 7] by simp



text \<open>
  C24: The empty string and one blank are equal for \<open>bpchareq\<close>, but their hashes from the
  initial state differ.
\<close>

theorem cdbhash_empty_bpchar:
  "bpchareq [] [32] \<and>
   cdbhash sample_catalog (cdbhashinit h) (Varlena []) BPCHAROID \<noteq> cdbhash sample_catalog (cdbhashinit h) (Varlena [32]) BPCHAROID"
proof -
  have "fnv_step FNV1_32_INIT 32 \<noteq> FNV1_32_INIT" by (simp add: fnv_step_eq fnv_step_mult_def FNV_32_PRIME_def FNV1_32_INIT_def)
  then have "(cdbhashinit h)\<lparr>cdb_hash := fnv_step FNV1_32_INIT 32\<rparr> \<noteq> cdbhashinit h"
    by (cases h) (simp add: cdbhashinit_def)
  moreover have "bpchareq [] [32]" by (simp add: bpchareq_iff rstrip_def)
  ultimately show ?thesis
    by (auto simp: cdbhash_def hashDatum_def datum_buf_def datum_buf_cases strip_blanks_def addToCdbHash_def cdbhashinit_def)
qed

text \<open>
  C23: The hash of an interval ignores its months: two intervals that differ only in months
  always hash alike, while one month and thirty days, which compare equal, hash differently.
\<close>

theorem cdbhash_interval_ignores_months:
  "cdbhash cat h (IntervalPtr (i\<lparr>interval_month := m\<rparr>)) INTERVALOID = cdbhash cat h (IntervalPtr i) INTERVALOID \<and>
   interval_cmp_internal \<lparr>interval_time = 0, interval_day = 0, interval_month = 1\<rparr>
     \<lparr>interval_time = 0, interval_day = 30, interval_month = 0\<rparr> = 0 \<and>
   cdbhash sample_catalog (cdbhashinit h) (IntervalPtr \<lparr>interval_time = 0, interval_day = 0, interval_month = 1\<rparr>) INTERVALOID \<noteq>
     cdbhash sample_catalog (cdbhashinit h) (IntervalPtr \<lparr>interval_time = 0, interval_day = 30, interval_month = 0\<rparr>) INTERVALOID"
proof -
  have buf: "datum_buf INTERVALOID (IntervalPtr j) = Inr (word_bytes 8 (interval_time j) @ word_bytes 4 (interval_day j))" for j
    by (simp add: datum_buf_def datum_buf_cases)
  have upd: "h\<lparr>cdb_hash := v\<rparr> = h\<lparr>cdb_hash := w\<rparr> \<longleftrightarrow> v = w" for v w by (cases h) simp
  have "fnv1_32_buf (word_bytes 8 (0::uint64) @ word_bytes 4 (0::uint32)) FNV1_32_INIT \<noteq>
      fnv1_32_buf (word_bytes 8 (0::uint64) @ word_bytes 4 (30::uint32)) FNV1_32_INIT"
    by code_simp
  moreover have "cdbhash cat h (IntervalPtr (i\<lparr>interval_month := m\<rparr>)) INTERVALOID = cdbhash cat h (IntervalPtr i) INTERVALOID"
    by (cases "typeIsEnumType cat INTERVALOID") (auto simp: cdbhash_def hashDatum_def buf datum_buf_def[of ANYENUMOID] oid_buf_def int_buf_def)
  ultimately show ?thesis
    by (simp add: cdbhash_def hashDatum_def buf addToCdbHash_def cdbhashinit_def interval_cmp_internal_def interval_cmp_value_def upd)
qed



end
