(* ===== verification/Cdb_Placement.thy ===== *)
theory Cdb_Placement
  imports Cdb_Hash
begin

text \<open>
  The places that choose the segment of a row: the redistribute motion
  (\<^verbatim>\<open>evalHashKey\<close> in \<^verbatim>\<open>executor/nodeMotion.c\<close>), loading with COPY (\<^verbatim>\<open>GetTargetSeg\<close> in
  \<^verbatim>\<open>commands/copy.c\<close>) and the planner's direct dispatch of constant rows
  (\<^verbatim>\<open>cdb/cdbmutate.c\<close>).  They must agree: a row is looked for where it was stored.

  The values of the distribution keys are arguments (a null is \<open>None\<close>); evaluating the key
  expressions is not modelled.
\<close>

subsection \<open>Executor\<close>

text \<open>The loop over both lists (\<^verbatim>\<open>forboth\<close>) ends with the shorter one.\<close>

fun hash_keys :: "catalog \<Rightarrow> Datum option list \<Rightarrow> Oid list \<Rightarrow> CdbHash \<Rightarrow> hash_error + CdbHash" where
  "hash_keys cat (key # keys) (type # types) h =
     result_bind (case key of Some keyval \<Rightarrow> cdbhash cat h keyval type | None \<Rightarrow> Inr (cdbhashnull h))
       (\<lambda>h. hash_keys cat keys types h)"
| "hash_keys cat keys types h = Inr h"

definition evalHashKey :: "catalog \<Rightarrow> Datum option list \<Rightarrow> Oid list \<Rightarrow> CdbHash \<Rightarrow> hash_error + uint32 \<times> CdbHash" where
  "evalHashKey cat hashkeys hashtypes h =
     (let h = cdbhashinit h
      in result_bind (if length hashkeys > 0 then hash_keys cat hashkeys hashtypes h else Inr (cdbhashnokey h))
           (\<lambda>h. Inr (cdbhashreduce h, h)))"


subsection \<open>COPY\<close>

datatype copy_error = BadPolicy | BadCdbHash | CopyHash hash_error

text \<open>
  \<^verbatim>\<open>policy\<close> holds the attribute numbers of the distribution policy; the arrays are indexed
  from attribute number 1.
\<close>

fun target_keys :: "catalog \<Rightarrow> nat list \<Rightarrow> Datum list \<Rightarrow> bool list \<Rightarrow> Oid list \<Rightarrow> CdbHash \<Rightarrow> hash_error + CdbHash" where
  "target_keys cat [] baseValues baseNulls p_attr_types h = Inr h"
| "target_keys cat (h_attnum # attrs) baseValues baseNulls p_attr_types h =
     result_bind
       (if \<not> baseNulls ! (h_attnum - 1) then cdbhash cat h (baseValues ! (h_attnum - 1)) (p_attr_types ! (h_attnum - 1))
        else Inr (cdbhashnull h))
       (\<lambda>h. target_keys cat attrs baseValues baseNulls p_attr_types h)"

definition GetTargetSeg ::
  "catalog \<Rightarrow> nat list option \<Rightarrow> CdbHash option \<Rightarrow> Oid list \<Rightarrow> Datum list \<Rightarrow> bool list \<Rightarrow> copy_error + uint32 \<times> CdbHash" where
  "GetTargetSeg cat policy cdbHash p_attr_types baseValues baseNulls = (case policy of
     None \<Rightarrow> Inl BadPolicy
   | Some attrs \<Rightarrow> (case cdbHash of
       None \<Rightarrow> Inl BadCdbHash
     | Some h \<Rightarrow>
         (case target_keys cat attrs baseValues baseNulls p_attr_types (cdbhashinit h) of
            Inl e \<Rightarrow> Inl (CopyHash e)
          | Inr h \<Rightarrow> (let h = (if length attrs = 0 then cdbhashnokey h else h) in Inr (cdbhashreduce h, h)))))"


subsection \<open>Planner\<close>

datatype Expr = Const "Datum option" Oid | OtherExpr

record TargetEntry =
  resno :: nat
  tle_expr :: Expr

definition const_hash :: "catalog \<Rightarrow> Datum option \<Rightarrow> Oid \<Rightarrow> CdbHash \<Rightarrow> hash_error + CdbHash" where
  "const_hash cat constvalue consttype h = (case constvalue of
     None \<Rightarrow> Inr (cdbhashnull h)
   | Some v \<Rightarrow> result_bind (typeIsArrayType cat consttype) (\<lambda>isarray.
       cdbhash cat h v (if isarray then ANYARRAYOID else consttype)))"

text \<open>The inner loop over the target list for one attribute of the policy.\<close>

fun direct_attr :: "catalog \<Rightarrow> TargetEntry list \<Rightarrow> nat \<Rightarrow> CdbHash \<Rightarrow> hash_error + bool \<times> CdbHash" where
  "direct_attr cat [] attr h = Inr (True, h)"
| "direct_attr cat (tle # tles) attr h =
     (if resno tle \<noteq> attr then direct_attr cat tles attr h
      else (case tle_expr tle of
         OtherExpr \<Rightarrow> Inr (False, h)
       | Const v t \<Rightarrow> result_bind (const_hash cat v t h) (\<lambda>h. Inr (True, h))))"

fun direct_attrs :: "catalog \<Rightarrow> TargetEntry list \<Rightarrow> nat list \<Rightarrow> CdbHash \<Rightarrow> hash_error + bool \<times> CdbHash" where
  "direct_attrs cat tlist [] h = Inr (True, h)"
| "direct_attrs cat tlist (attr # attrs) h =
     result_bind (direct_attr cat tlist attr h)
       (\<lambda>(direct, h). if \<not> direct then Inr (False, h) else direct_attrs cat tlist attrs h)"

text \<open>The result is the content id of the direct dispatch, if there is one.\<close>

definition directDispatchCalculateHash ::
  "catalog \<Rightarrow> uint32 \<Rightarrow> uint32 \<Rightarrow> TargetEntry list \<Rightarrow> nat list \<Rightarrow> hash_error + uint32 option" where
  "directDispatchCalculateHash cat numsegments rnd targetlist attrs =
     result_bind (direct_attrs cat targetlist attrs (cdbhashinit (makeCdbHash numsegments rnd)))
       (\<lambda>(direct, h). Inr (if direct then Some (cdbhashreduce h) else None))"

definition cdbhash_const :: "catalog \<Rightarrow> Datum option \<times> Oid \<Rightarrow> uint32 \<Rightarrow> uint32 \<Rightarrow> hash_error + uint32" where
  "cdbhash_const cat pconst iSegments rnd =
     result_bind (const_hash cat (fst pconst) (snd pconst) (cdbhashinit (makeCdbHash iSegments rnd)))
       (\<lambda>h. Inr (cdbhashreduce h))"

fun const_list_hash :: "catalog \<Rightarrow> (Datum option \<times> Oid) list \<Rightarrow> CdbHash \<Rightarrow> hash_error + CdbHash" where
  "const_list_hash cat [] h = Inr h"
| "const_list_hash cat (c # cs) h = result_bind (const_hash cat (fst c) (snd c) h) (\<lambda>h. const_list_hash cat cs h)"

definition cdbhash_const_list :: "catalog \<Rightarrow> (Datum option \<times> Oid) list \<Rightarrow> uint32 \<Rightarrow> uint32 \<Rightarrow> hash_error + uint32" where
  "cdbhash_const_list cat plConsts iSegments rnd =
     result_bind (const_list_hash cat plConsts (cdbhashinit (makeCdbHash iSegments rnd))) (\<lambda>h. Inr (cdbhashreduce h))"


subsection \<open>The hash state of a row\<close>

text \<open>Every step leaves the number of segments, the reduction and the round robin index alone.\<close>

definition hash_only :: "CdbHash \<Rightarrow> CdbHash \<Rightarrow> bool" where
  "hash_only g h \<longleftrightarrow> g = h\<lparr>cdb_hash := cdb_hash g\<rparr>"

lemma hash_only_trans: "hash_only g h \<Longrightarrow> hash_only f g \<Longrightarrow> hash_only f h"
  by (cases f; cases g; cases h) (simp add: hash_only_def)

lemma hash_only_init [simp]: "hash_only (cdbhashinit h) h"
  by (cases h) (simp add: hash_only_def cdbhashinit_def)

lemma hash_only_refl [simp]: "hash_only h h"
  by (cases h) (simp add: hash_only_def)

lemma cdbhash_hash_only: "cdbhash cat h d t = Inr g \<Longrightarrow> hash_only g h"
  by (cases h) (auto simp: cdbhash_def hashDatum_def result_bind_Inr_iff addToCdbHash_def hash_only_def)

lemma cdbhashnull_hash_only: "hash_only (cdbhashnull h) h"
  by (cases h) (simp add: cdbhashnull_def hashNullDatum_def addToCdbHash_def hash_only_def)

lemma hash_keys_hash_only: "hash_keys cat keys types h = Inr g \<Longrightarrow> hash_only g h"
proof (induction cat keys types h rule: hash_keys.induct)
  case (1 cat key keys type types h)
  then obtain f where f: "(case key of Some v \<Rightarrow> cdbhash cat h v type | None \<Rightarrow> Inr (cdbhashnull h)) = Inr f"
    "hash_keys cat keys types f = Inr g" by (auto simp: result_bind_Inr_iff)
  then have "hash_only f h" by (auto simp: cdbhash_hash_only cdbhashnull_hash_only split: option.splits)
  then show ?case using 1(1)[OF f(2)] hash_only_trans by blast
qed simp_all

lemma cdbhashreduce_mod:
  assumes "numsegs h \<noteq> 0" "reducealg h = (if ispowof2 (numsegs h) then REDUCE_BITMASK else REDUCE_LAZYMOD)"
  shows "cdbhashreduce h = cdb_hash h mod numsegs h"
  using assms by (auto simp: cdbhashreduce_def FASTMOD_mod)

lemma const_list_hash_keys:
  assumes "\<forall>(v, t) \<in> set keys. typeIsArrayType cat t = Inr (arr t)"
  shows "const_list_hash cat keys h =
    hash_keys cat (map fst keys) (map (\<lambda>(v, t). if arr t then ANYARRAYOID else t) keys) h"
  using assms
proof (induction keys arbitrary: h)
  case (Cons k keys)
  obtain v t where "k = (v, t)" by (cases k)
  then show ?case using Cons by (auto simp: const_hash_def intro!: arg_cong[of _ _ "result_bind _"] split: option.split)
qed simp

lemma target_keys_hash_keys:
  "target_keys cat attrs values nulls types h =
     hash_keys cat (map (\<lambda>a. if nulls ! (a - 1) then None else Some (values ! (a - 1))) attrs) (map (\<lambda>a. types ! (a - 1)) attrs) h"
proof (induction attrs arbitrary: h)
  case (Cons a attrs)
  then have "target_keys cat attrs values nulls types =
    hash_keys cat (map (\<lambda>a. if nulls ! (a - 1) then None else Some (values ! (a - 1))) attrs) (map (\<lambda>a. types ! (a - 1)) attrs)"
    by (rule ext)
  then show ?case by (cases "nulls ! (a - 1)") simp_all
qed simp

text \<open>The first target list entry of an attribute decides what the planner hashes for it.\<close>

lemma direct_attr_find:
  "direct_attr cat tlist a h = (case find (\<lambda>tle. resno tle = a) tlist of
     None \<Rightarrow> Inr (True, h)
   | Some tle \<Rightarrow> (case tle_expr tle of
       OtherExpr \<Rightarrow> Inr (False, h)
     | Const v t \<Rightarrow> result_bind (const_hash cat v t h) (\<lambda>h. Inr (True, h))))"
  by (induction tlist) auto

definition const_entry :: "TargetEntry list \<Rightarrow> nat \<Rightarrow> (Datum option \<times> Oid) \<Rightarrow> bool" where
  "const_entry tlist a c \<longleftrightarrow> (case find (\<lambda>tle. resno tle = a) tlist of
     None \<Rightarrow> False | Some tle \<Rightarrow> tle_expr tle = Const (fst c) (snd c))"

lemma direct_attr_const:
  "const_entry tlist a c \<Longrightarrow>
     direct_attr cat tlist a h = result_bind (const_hash cat (fst c) (snd c) h) (\<lambda>h. Inr (True, h))"
  by (auto simp: const_entry_def direct_attr_find split: option.splits)

lemma direct_attrs_const:
  "list_all2 (const_entry tlist) attrs cs \<Longrightarrow>
     direct_attrs cat tlist attrs h = result_bind (const_list_hash cat cs h) (\<lambda>h. Inr (True, h))"
proof (induction attrs cs arbitrary: h rule: list_all2_induct)
  case (Cons a as c cs)
  then show ?case by (cases "const_hash cat (fst c) (snd c) h") (simp_all add: direct_attr_const)
qed simp

text \<open>A single non-constant distribution key prevents the direct dispatch.\<close>

lemma direct_attrs_other:
  assumes "a \<in> set attrs" "find (\<lambda>tle. resno tle = a) tlist = Some tle" "tle_expr tle = OtherExpr"
    "direct_attrs cat tlist attrs h = Inr (direct, g)"
  shows "\<not> direct"
  using assms
proof (induction attrs arbitrary: h)
  case (Cons b attrs)
  show ?case
  proof (cases "b = a")
    case True
    then show ?thesis using Cons.prems by (simp add: direct_attr_find)
  next
    case False
    obtain d f where f: "direct_attr cat tlist b h = Inr (d, f)"
      using Cons.prems(4) by (cases "direct_attr cat tlist b h") auto
    show ?thesis
    proof (cases d)
      case True
      then show ?thesis using Cons False f by auto
    next
      case nd: False
      then show ?thesis using Cons.prems f by simp
    qed
  qed
qed simp


lemma evalHashKey_const_list:
  assumes "keys \<noteq> []" "\<forall>(v, t) \<in> set keys. typeIsArrayType cat t = Inr (arr t)"
  shows "evalHashKey cat (map fst keys) (map (\<lambda>(v, t). if arr t then ANYARRAYOID else t) keys) h =
    result_bind (const_list_hash cat keys (cdbhashinit h)) (\<lambda>h. Inr (cdbhashreduce h, h))"
  using assms by (simp add: evalHashKey_def const_list_hash_keys)

lemma hash_only_eqs:
  assumes "hash_only g h"
  shows "numsegs g = numsegs h" "reducealg g = reducealg h" "rrindex g = rrindex h"
  using assms by (cases g; cases h; simp add: hash_only_def)+

lemma evalHashKey_state:
  assumes "evalHashKey cat keys types h = Inr (seg, g)"
  shows "seg = cdbhashreduce g \<and> numsegs g = numsegs h \<and> reducealg g = reducealg h"
proof (cases "keys = []")
  case True
  then show ?thesis using assms by (auto simp: evalHashKey_def cdbhashnokey_def cdbhashinit_def Let_def)
next
  case False
  then have "hash_keys cat keys types (cdbhashinit h) = Inr g" "seg = cdbhashreduce g"
    using assms by (auto simp: evalHashKey_def result_bind_Inr_iff)
  moreover from this have "hash_only g h" using hash_keys_hash_only hash_only_trans hash_only_init by blast
  ultimately show ?thesis by (simp add: hash_only_eqs)
qed


subsection \<open>Correctness of the placement\<close>

text \<open>
  C18: All places that choose a segment agree.  Let a row have the constants \<open>cs\<close> in the
  distribution key attributes \<open>attrs\<close>.  Then the redistribute motion, COPY, the direct dispatch
  of a constant insert and the hash of a list of constants give the same segment, or fail with
  the same error, for every number of segments.  A row is thus looked for where it was stored.
\<close>

theorem placement_agrees:
  fixes cat :: catalog and n rnd :: uint32
  assumes "attrs \<noteq> []"
    and "list_all2 (const_entry tlist) attrs cs"
    and "\<forall>(v, t) \<in> set cs. typeIsArrayType cat t = Inr (arr t)"
    and "map (\<lambda>a. if nulls ! (a - 1) then None else Some (values ! (a - 1))) attrs = map fst cs"
    and "map (\<lambda>a. types ! (a - 1)) attrs = map (\<lambda>(v, t). if arr t then ANYARRAYOID else t) cs"
  shows "(case cdbhash_const_list cat cs n rnd of
     Inl e \<Rightarrow>
       evalHashKey cat (map fst cs) (map (\<lambda>(v, t). if arr t then ANYARRAYOID else t) cs) (makeCdbHash n rnd) = Inl e \<and>
       GetTargetSeg cat (Some attrs) (Some (makeCdbHash n rnd)) types values nulls = Inl (CopyHash e) \<and>
       directDispatchCalculateHash cat n rnd tlist attrs = Inl e
   | Inr seg \<Rightarrow>
       (\<exists>g. evalHashKey cat (map fst cs) (map (\<lambda>(v, t). if arr t then ANYARRAYOID else t) cs) (makeCdbHash n rnd) = Inr (seg, g) \<and>
            GetTargetSeg cat (Some attrs) (Some (makeCdbHash n rnd)) types values nulls = Inr (seg, g)) \<and>
       directDispatchCalculateHash cat n rnd tlist attrs = Inr (Some seg))"
proof -
  have "cs \<noteq> []" using assms(1,2) by auto
  note motion = evalHashKey_const_list[OF this assms(3), of "makeCdbHash n rnd"]
  have copy: "target_keys cat attrs values nulls types h = const_list_hash cat cs h" for h
    using assms(4,5) const_list_hash_keys[OF assms(3)] by (simp only: target_keys_hash_keys)
  show ?thesis
    using assms(1)
    by (cases "const_list_hash cat cs (cdbhashinit (makeCdbHash n rnd))")
      (simp_all add: motion copy GetTargetSeg_def directDispatchCalculateHash_def cdbhash_const_list_def direct_attrs_const[OF assms(2)])
qed

theorem placement_agrees_witness:
  "directDispatchCalculateHash sample_catalog 3 0
     [\<lparr>resno = 1, tle_expr = OtherExpr\<rparr>, \<lparr>resno = 2, tle_expr = Const (Some (ByVal 7)) INT4OID\<rparr>] [2] = Inr (Some 1) \<and>
   cdbhash_const_list sample_catalog [(Some (ByVal 7), INT4OID)] 3 0 = Inr 1"
proof -
  have "cdbhash_const_list sample_catalog [(Some (ByVal 7), INT4OID)] 3 0 = Inr 1"
    by code_simp
  then show ?thesis
  using placement_agrees[of "[2]"
      "[\<lparr>resno = 1, tle_expr = OtherExpr\<rparr>, \<lparr>resno = 2, tle_expr = Const (Some (ByVal 7)) INT4OID\<rparr>]"
      "[(Some (ByVal 7), INT4OID)]" sample_catalog "\<lambda>t. False" "[True, False]" "[ByVal 0, ByVal 7]" "[INT8OID, INT4OID]" 3 0]
  by (simp add: const_entry_def)
qed

text \<open>
  C19: The segment chosen for a row is the hash value modulo the number of segments, hence the
  index of an existing segment, whichever of the two reductions \<open>makeCdbHash\<close> selected; the bit
  mask is only an optimisation.
\<close>

theorem placement_in_range:
  assumes "n \<noteq> 0" "evalHashKey cat keys types (makeCdbHash n rnd) = Inr (seg, h)"
  shows "seg = cdb_hash h mod n \<and> seg < n \<and> numsegs h = n"
proof -
  have seg: "seg = cdbhashreduce h" "numsegs h = n" "reducealg h = reducealg (makeCdbHash n rnd)"
    using evalHashKey_state[OF assms(2)] by (simp_all add: makeCdbHash_def)
  then have "seg = cdb_hash h mod n" using assms(1) by (simp add: cdbhashreduce_mod makeCdbHash_def)
  moreover have "cdb_hash h mod n < n" using assms(1) by (simp add: word_mod_less_divisor word_neq_0_conv)
  ultimately show ?thesis using seg by simp
qed

theorem placement_in_range_witness:
  "evalHashKey sample_catalog [Some (ByVal 7), None] [INT4OID, INT4OID] (makeCdbHash 3 0) =
     Inr (1, \<lparr>cdb_hash = 3159884851, numsegs = 3, reducealg = REDUCE_LAZYMOD, rrindex = 0\<rparr>) \<and>
   3159884851 mod 3 = (1 :: uint32)"
proof -
  have eval: "evalHashKey sample_catalog [Some (ByVal 7), None] [INT4OID, INT4OID] (makeCdbHash 3 0) =
    Inr (1, \<lparr>cdb_hash = 3159884851, numsegs = 3, reducealg = REDUCE_LAZYMOD, rrindex = 0\<rparr>)" by code_simp
  from placement_in_range[OF _ eval] show ?thesis using eval by simp
qed

text \<open>
  A constant insert is sent to a single segment only when every distribution key is a
  constant: one key that the planner could not simplify leaves the plan without direct dispatch.
\<close>

theorem direct_dispatch_needs_constants:
  assumes "a \<in> set attrs" "find (\<lambda>tle. resno tle = a) tlist = Some tle" "tle_expr tle = OtherExpr"
    "directDispatchCalculateHash cat n rnd tlist attrs = Inr r"
  shows "r = None"
proof -
  obtain direct g where "direct_attrs cat tlist attrs (cdbhashinit (makeCdbHash n rnd)) = Inr (direct, g)"
    "r = (if direct then Some (cdbhashreduce g) else None)"
    using assms(4) by (auto simp: directDispatchCalculateHash_def result_bind_Inr_iff)
  then show ?thesis using direct_attrs_other[OF assms(1-3)] by simp
qed

theorem direct_dispatch_needs_constants_witness:
  "directDispatchCalculateHash sample_catalog 3 0
     [\<lparr>resno = 1, tle_expr = Const None INT4OID\<rparr>, \<lparr>resno = 2, tle_expr = OtherExpr\<rparr>] [1, 2] = Inr None"
proof -
  have "\<exists>r. directDispatchCalculateHash sample_catalog 3 0
     [\<lparr>resno = 1, tle_expr = Const None INT4OID\<rparr>, \<lparr>resno = 2, tle_expr = OtherExpr\<rparr>] [1, 2] = Inr r"
    by (simp add: directDispatchCalculateHash_def const_hash_def)
  then obtain r where r: "directDispatchCalculateHash sample_catalog 3 0
     [\<lparr>resno = 1, tle_expr = Const None INT4OID\<rparr>, \<lparr>resno = 2, tle_expr = OtherExpr\<rparr>] [1, 2] = Inr r" by blast
  show ?thesis using direct_dispatch_needs_constants[OF _ _ _ r, of 2] r by simp
qed

end
