(* ===== verification/Binary_Encoding.thy ===== *)
theory Binary_Encoding
  imports Hash_Functions
begin

text \<open>
  The text encodings of binary data in \<^verbatim>\<open>utils/adt/encode.c\<close>: hexadecimal, base64 and escape,
  and the SQL functions \<^verbatim>\<open>encode\<close> and \<^verbatim>\<open>decode\<close> over them.  A function that writes to a result
  buffer returns the written bytes; their number is what the code returns.  The length
  estimates are 32-bit values with the wrap-around of the code.
\<close>

datatype encode_error =
  UnrecognizedEncoding string
| InvalidHexDigit uint8
| OddHexDigits
| UnexpectedEqualSign
| InvalidSymbol
| InvalidEndSequence
| InvalidByteaSyntax
| InvalidAllocSize
| EncodeEstimateTooSmall
| DecodeEstimateTooSmall


subsection \<open>Hexadecimal\<close>

definition hextbl :: bytes where
  "hextbl = map of_char ''0123456789abcdef''"

definition hexlookup :: "int list" where
  "hexlookup =
    [-1, -1, -1, -1, -1, -1, -1, -1, -1, -1, -1, -1, -1, -1, -1, -1,
     -1, -1, -1, -1, -1, -1, -1, -1, -1, -1, -1, -1, -1, -1, -1, -1,
     -1, -1, -1, -1, -1, -1, -1, -1, -1, -1, -1, -1, -1, -1, -1, -1,
     0, 1, 2, 3, 4, 5, 6, 7, 8, 9, -1, -1, -1, -1, -1, -1,
     -1, 10, 11, 12, 13, 14, 15, -1, -1, -1, -1, -1, -1, -1, -1, -1,
     -1, -1, -1, -1, -1, -1, -1, -1, -1, -1, -1, -1, -1, -1, -1, -1,
     -1, 10, 11, 12, 13, 14, 15, -1, -1, -1, -1, -1, -1, -1, -1, -1,
     -1, -1, -1, -1, -1, -1, -1, -1, -1, -1, -1, -1, -1, -1, -1, -1]"

fun hex_encode :: "bytes \<Rightarrow> bytes" where
  "hex_encode [] = []"
| "hex_encode (c # src) =
     hextbl ! unat (drop_bit 4 c AND 0xF) # hextbl ! unat (c AND 0xF) # hex_encode src"

text \<open>A \<^verbatim>\<open>char\<close> is signed: the test \<^verbatim>\<open>c > 0 && c < 127\<close> fails for the bytes from 128 on.\<close>

definition get_hex :: "uint8 \<Rightarrow> encode_error + uint8" where
  "get_hex c =
     (let res = (if sint c > 0 \<and> sint c < 127 then hexlookup ! unat c else -1)
      in if res < 0 then Inl (InvalidHexDigit c) else Inr (word_of_int res))"

definition is_white :: "uint8 \<Rightarrow> bool" where
  "is_white c \<longleftrightarrow> c = 32 \<or> c = 10 \<or> c = 9 \<or> c = 13"

fun hex_decode :: "bytes \<Rightarrow> encode_error + bytes" where
  "hex_decode [] = Inr []"
| "hex_decode (c # s) =
     (if is_white c then hex_decode s
      else result_bind (get_hex c) (\<lambda>v1. case s of
             [] \<Rightarrow> Inl OddHexDigits
           | d # s' \<Rightarrow> result_bind (get_hex d) (\<lambda>v2.
               result_bind (hex_decode s') (\<lambda>res. Inr ((push_bit 4 v1 OR v2) # res)))))"

definition hex_enc_len :: "bytes \<Rightarrow> uint32" where
  "hex_enc_len src = push_bit 1 (of_nat (length src))"

definition hex_dec_len :: "bytes \<Rightarrow> encode_error + uint32" where
  "hex_dec_len src = Inr (drop_bit 1 (of_nat (length src)))"


subsection \<open>Base64\<close>

definition base64 :: bytes where
  "base64 = map of_char ''ABCDEFGHIJKLMNOPQRSTUVWXYZabcdefghijklmnopqrstuvwxyz0123456789+/''"

definition b64lookup :: "int list" where
  "b64lookup =
    [-1, -1, -1, -1, -1, -1, -1, -1, -1, -1, -1, -1, -1, -1, -1, -1,
     -1, -1, -1, -1, -1, -1, -1, -1, -1, -1, -1, -1, -1, -1, -1, -1,
     -1, -1, -1, -1, -1, -1, -1, -1, -1, -1, -1, 62, -1, -1, -1, 63,
     52, 53, 54, 55, 56, 57, 58, 59, 60, 61, -1, -1, -1, -1, -1, -1,
     -1, 0, 1, 2, 3, 4, 5, 6, 7, 8, 9, 10, 11, 12, 13, 14,
     15, 16, 17, 18, 19, 20, 21, 22, 23, 24, 25, -1, -1, -1, -1, -1,
     -1, 26, 27, 28, 29, 30, 31, 32, 33, 34, 35, 36, 37, 38, 39, 40,
     41, 42, 43, 44, 45, 46, 47, 48, 49, 50, 51, -1, -1, -1, -1, -1]"

definition b64_char :: "uint32 \<Rightarrow> uint8" where
  "b64_char w = base64 ! unat (w AND 0x3f)"

definition b64_quad :: "uint32 \<Rightarrow> bytes" where
  "b64_quad buf = [b64_char (drop_bit 18 buf), b64_char (drop_bit 12 buf), b64_char (drop_bit 6 buf), b64_char buf]"

text \<open>The loop over the source; \<open>lend\<close> is the offset of the end of the line in the result.\<close>

fun b64_encode_loop :: "bytes \<Rightarrow> bytes \<Rightarrow> nat \<Rightarrow> int \<Rightarrow> uint32 \<Rightarrow> bytes \<times> int \<times> uint32" where
  "b64_encode_loop [] p lend pos buf = (p, pos, buf)"
| "b64_encode_loop (c # s) p lend pos buf =
     (let buf = buf OR push_bit (nat (pos * 8)) (ucast c);
          pos = pos - 1;
          (p, pos, buf) = (if pos < 0 then (p @ b64_quad buf, 2, 0) else (p, pos, buf));
          (p, lend) = (if length p \<ge> lend then (p @ [10], length p + 1 + 76) else (p, lend))
      in b64_encode_loop s p lend pos buf)"

definition b64_encode_end :: "bytes \<times> int \<times> uint32 \<Rightarrow> bytes" where
  "b64_encode_end = (\<lambda>(p, pos, buf).
     if pos \<noteq> 2
     then p @ [b64_char (drop_bit 18 buf), b64_char (drop_bit 12 buf),
               if pos = 0 then b64_char (drop_bit 6 buf) else 61, 61]
     else p)"

definition b64_encode :: "bytes \<Rightarrow> bytes" where
  "b64_encode src = b64_encode_end (b64_encode_loop src [] 76 2 0)"

definition b64_value :: "uint8 \<Rightarrow> encode_error + int" where
  "b64_value c =
     (let b = (if sint c > 0 \<and> sint c < 127 then b64lookup ! unat c else -1)
      in if b < 0 then Inl InvalidSymbol else Inr b)"

text \<open>The value of a symbol and the new end mark.\<close>

definition b64_symbol :: "uint8 \<Rightarrow> nat \<Rightarrow> nat \<Rightarrow> encode_error + int \<times> nat" where
  "b64_symbol c pos end =
     (if c = 61
      then if end = 0
           then if pos = 2 then Inr (0, 1) else if pos = 3 then Inr (0, 2) else Inl UnexpectedEqualSign
           else Inr (0, end)
      else result_bind (b64_value c) (\<lambda>b. Inr (b, end)))"

definition b64_flush :: "uint32 \<Rightarrow> nat \<Rightarrow> bytes" where
  "b64_flush buf end =
     [ucast (drop_bit 16 buf AND 255)] @
     (if end = 0 \<or> end > 1 then [ucast (drop_bit 8 buf AND 255)] else []) @
     (if end = 0 \<or> end > 2 then [ucast (buf AND 255)] else [])"

fun b64_decode_loop :: "bytes \<Rightarrow> bytes \<Rightarrow> uint32 \<Rightarrow> nat \<Rightarrow> nat \<Rightarrow> encode_error + bytes" where
  "b64_decode_loop [] p buf pos end = (if pos \<noteq> 0 then Inl InvalidEndSequence else Inr p)"
| "b64_decode_loop (c # s) p buf pos end =
     (if is_white c then b64_decode_loop s p buf pos end
      else result_bind (b64_symbol c pos end) (\<lambda>(b, end).
        let buf = push_bit 6 buf + word_of_int b;
            pos = pos + 1
        in if pos = 4 then b64_decode_loop s (p @ b64_flush buf end) 0 0 end
           else b64_decode_loop s p buf pos end))"

definition b64_decode :: "bytes \<Rightarrow> encode_error + bytes" where
  "b64_decode src = b64_decode_loop src [] 0 0 0"

definition b64_enc_len :: "bytes \<Rightarrow> uint32" where
  "b64_enc_len src = (let srclen = of_nat (length src) in (srclen + 2) * 4 div 3 + srclen div (76 * 3 div 4))"

definition b64_dec_len :: "bytes \<Rightarrow> encode_error + uint32" where
  "b64_dec_len src = (let srclen = of_nat (length src) in Inr (drop_bit 2 (srclen * 3)))"


subsection \<open>Escape\<close>

definition IS_HIGHBIT_SET :: "uint8 \<Rightarrow> bool" where
  "IS_HIGHBIT_SET ch \<longleftrightarrow> ch AND 0x80 \<noteq> 0"

definition VAL :: "uint8 \<Rightarrow> int" where
  "VAL ch = uint ch - 48"

definition DIG :: "uint8 \<Rightarrow> uint8" where
  "DIG val = val + 48"

fun esc_encode :: "bytes \<Rightarrow> bytes" where
  "esc_encode [] = []"
| "esc_encode (c # src) =
     (if c = 0 \<or> IS_HIGHBIT_SET c
      then [92, DIG (drop_bit 6 c), DIG (drop_bit 3 c AND 7), DIG (c AND 7)]
      else if c = 92 then [92, 92]
      else [c]) @ esc_encode src"

definition octal :: "bytes \<Rightarrow> bool" where
  "octal src \<longleftrightarrow> length src > 3 \<and> (48 \<le> src ! 1 \<and> src ! 1 \<le> 51) \<and> (48 \<le> src ! 2 \<and> src ! 2 \<le> 55) \<and> (48 \<le> src ! 3 \<and> src ! 3 \<le> 55)"

function esc_decode :: "bytes \<Rightarrow> encode_error + bytes" where
  "esc_decode src =
     (if src = [] then Inr []
      else if src ! 0 \<noteq> 92
      then result_bind (esc_decode (drop 1 src)) (\<lambda>res. Inr (src ! 0 # res))
      else if octal src
      then (let val = VAL (src ! 1);
                val = val * 8;
                val = val + VAL (src ! 2);
                val = val * 8
            in result_bind (esc_decode (drop 4 src)) (\<lambda>res. Inr (word_of_int (val + VAL (src ! 3)) # res)))
      else if length src > 1 \<and> src ! 1 = 92
      then result_bind (esc_decode (drop 2 src)) (\<lambda>res. Inr (92 # res))
      else Inl InvalidByteaSyntax)"
  by pat_completeness auto
termination
  by (relation "measure length") auto

fun esc_enc_len_loop :: "bytes \<Rightarrow> uint32 \<Rightarrow> uint32" where
  "esc_enc_len_loop [] len = len"
| "esc_enc_len_loop (c # src) len =
     esc_enc_len_loop src (if c = 0 \<or> IS_HIGHBIT_SET c then len + 4 else if c = 92 then len + 2 else len + 1)"

definition esc_enc_len :: "bytes \<Rightarrow> uint32" where
  "esc_enc_len src = esc_enc_len_loop src 0"

function esc_dec_len_loop :: "bytes \<Rightarrow> uint32 \<Rightarrow> encode_error + uint32" where
  "esc_dec_len_loop src len =
     (if src = [] then Inr len
      else if src ! 0 \<noteq> 92 then esc_dec_len_loop (drop 1 src) (len + 1)
      else if octal src then esc_dec_len_loop (drop 4 src) (len + 1)
      else if length src > 1 \<and> src ! 1 = 92 then esc_dec_len_loop (drop 2 src) (len + 1)
      else Inl InvalidByteaSyntax)"
  by pat_completeness auto
termination
  by (relation "measure (length \<circ> fst)") auto

definition esc_dec_len :: "bytes \<Rightarrow> encode_error + uint32" where
  "esc_dec_len src = esc_dec_len_loop src 0"

declare esc_decode.simps [simp del] esc_dec_len_loop.simps [simp del]


subsection \<open>SQL functions\<close>

record pg_encoding =
  encode_len :: "bytes \<Rightarrow> uint32"
  decode_len :: "bytes \<Rightarrow> encode_error + uint32"
  encode :: "bytes \<Rightarrow> bytes"
  decode :: "bytes \<Rightarrow> encode_error + bytes"

definition hex :: pg_encoding where
  "hex = \<lparr>encode_len = hex_enc_len, decode_len = hex_dec_len, encode = hex_encode, decode = hex_decode\<rparr>"

definition b64 :: pg_encoding where
  "b64 = \<lparr>encode_len = b64_enc_len, decode_len = b64_dec_len, encode = b64_encode, decode = b64_decode\<rparr>"

definition esc :: pg_encoding where
  "esc = \<lparr>encode_len = esc_enc_len, decode_len = esc_dec_len, encode = esc_encode, decode = esc_decode\<rparr>"

definition enclist :: "(string \<times> pg_encoding) list" where
  "enclist = [(''hex'', hex), (''base64'', b64), (''escape'', esc)]"

text \<open>
  \<^verbatim>\<open>pg_strcasecmp\<close> on strings without their terminator.  Letters above ASCII are not folded,
  as in the C locale.
\<close>

definition fold_case :: "char \<Rightarrow> int" where
  "fold_case ch = (let n = of_char ch in if 65 \<le> n \<and> n \<le> 90 then n + 32 else n)"

fun pg_strcasecmp :: "string \<Rightarrow> string \<Rightarrow> int" where
  "pg_strcasecmp [] [] = 0"
| "pg_strcasecmp [] (ch2 # s2) = - fold_case ch2"
| "pg_strcasecmp (ch1 # s1) [] = fold_case ch1"
| "pg_strcasecmp (ch1 # s1) (ch2 # s2) =
     (if ch1 \<noteq> ch2 \<and> fold_case ch1 \<noteq> fold_case ch2 then fold_case ch1 - fold_case ch2
      else pg_strcasecmp s1 s2)"

definition pg_find_encoding :: "string \<Rightarrow> pg_encoding option" where
  "pg_find_encoding name =
     for_return 0 (length enclist)
       (\<lambda>i. if pg_strcasecmp (fst (enclist ! i)) name = 0 then Some (snd (enclist ! i)) else None)"

text \<open>
  \<^verbatim>\<open>palloc\<close> refuses sizes from \<^verbatim>\<open>MaxAllocSize\<close> on; a negative length becomes such a size.
\<close>

definition MaxAllocSize :: int where
  "MaxAllocSize = 0x3fffffff"

definition AllocSizeIsValid :: "int \<Rightarrow> bool" where
  "AllocSizeIsValid sz \<longleftrightarrow> 0 \<le> sz \<and> sz < MaxAllocSize"

definition VARHDRSZ :: int where
  "VARHDRSZ = 4"

definition encode_with :: "pg_encoding \<Rightarrow> bytes \<Rightarrow> encode_error + bytes" where
  "encode_with enc data =
     (let resultlen = sint (encode_len enc data)
      in if \<not> AllocSizeIsValid (VARHDRSZ + resultlen) then Inl InvalidAllocSize
         else (let res = encode enc data
               in if int (length res) > resultlen then Inl EncodeEstimateTooSmall else Inr res))"

definition decode_with :: "pg_encoding \<Rightarrow> bytes \<Rightarrow> encode_error + bytes" where
  "decode_with enc data = result_bind (decode_len enc data) (\<lambda>len.
     let resultlen = sint len
     in if \<not> AllocSizeIsValid (VARHDRSZ + resultlen) then Inl InvalidAllocSize
        else result_bind (decode enc data) (\<lambda>res.
               if int (length res) > resultlen then Inl DecodeEstimateTooSmall else Inr res))"

definition binary_encode :: "bytes \<Rightarrow> string \<Rightarrow> encode_error + bytes" where
  "binary_encode data name = (case pg_find_encoding name of
     None \<Rightarrow> Inl (UnrecognizedEncoding name) | Some enc \<Rightarrow> encode_with enc data)"

definition binary_decode :: "bytes \<Rightarrow> string \<Rightarrow> encode_error + bytes" where
  "binary_decode data name = (case pg_find_encoding name of
     None \<Rightarrow> Inl (UnrecognizedEncoding name) | Some enc \<Rightarrow> decode_with enc data)"


subsection \<open>Correctness of the hexadecimal encoding\<close>

text \<open>Properties of table entries are checked on all of them.\<close>

lemma all_below:
  assumes "list_all P [0..<k]" "n < k"
  shows "P n"
  using assms by (simp add: list_all_iff)

lemma hextbl_lookup:
  assumes "n < 16"
  shows "\<not> is_white (hextbl ! n) \<and> get_hex (hextbl ! n) = Inr (of_nat n)"
  by (rule all_below[OF _ assms]) code_simp

lemma hex_digit:
  "\<not> is_white (hextbl ! unat (w AND 0xF))" "get_hex (hextbl ! unat (w AND 0xF)) = Inr (w AND 0xF)"
  for w :: uint8
proof -
  have "unat (w AND 0xF) < 16" using word_and_le1[of w 15] by (simp add: word_le_nat_alt)
  from hextbl_lookup[OF this] show "\<not> is_white (hextbl ! unat (w AND 0xF))"
    "get_hex (hextbl ! unat (w AND 0xF)) = Inr (w AND 0xF)" by simp_all
qed

lemma nibbles: "push_bit 4 (drop_bit 4 c) AND 240 OR c AND 15 = (c :: uint8)"
proof -
  have eqs: "(240 :: uint8) = push_bit 4 (mask 4)" "(15 :: uint8) = mask 4" by (simp_all add: mask_eq_exp_minus_1)
  show ?thesis unfolding eqs by (intro bit_word_eqI) (auto simp: bit_simps simp del: mask_numeral)
qed

lemma hex_decode_encode: "hex_decode (hex_encode data) = Inr data"
  by (induction data) (simp_all add: hex_digit nibbles)

lemma length_hex_encode: "length (hex_encode data) = 2 * length data"
  by (induction data) simp_all

lemma length_hex_decode: "hex_decode src = Inr data \<Longrightarrow> 2 * length data \<le> length src"
proof (induction src arbitrary: data rule: hex_decode.induct)
  case (2 c s)
  show ?case
  proof (cases "is_white c")
    case True
    then show ?thesis using 2(1)[OF True, of data] 2(3) by simp
  next
    case False
    then obtain v1 d s' v2 res where *: "s = d # s'" "get_hex c = Inr v1" "get_hex d = Inr v2" "hex_decode s' = Inr res"
      "data = (push_bit 4 v1 OR v2) # res"
      using 2(3) by (cases s) (auto simp: result_bind_Inr_iff)
    then have "2 * length res \<le> length s'" using 2(2)[OF False] by blast
    then show ?thesis using * by simp
  qed
qed simp


subsection \<open>Correctness of the escape encoding\<close>

lemma octal_digit:
  assumes "n < 8"
  shows "48 \<le> DIG (of_nat n) \<and> DIG (of_nat n) \<le> 55 \<and> (n < 4 \<longrightarrow> DIG (of_nat n) \<le> 51) \<and> VAL (DIG (of_nat n)) = int n"
  by (rule all_below[OF _ assms]) code_simp

lemma octal_digit_word:
  assumes "w < 8"
  shows "48 \<le> DIG w" "DIG w \<le> 55" "w < 4 \<Longrightarrow> DIG w \<le> 51" "VAL (DIG w) = uint w"
proof -
  have "unat w < 8" using assms by (simp add: word_less_nat_alt)
  from octal_digit[OF this] show "48 \<le> DIG w" "DIG w \<le> 55" "w < 4 \<Longrightarrow> DIG w \<le> 51" "VAL (DIG w) = uint w"
    by (simp_all add: word_less_nat_alt)
qed

lemma uint_drop_bit: "uint (drop_bit n w) = uint w div 2 ^ n" for w :: "'a::len word"
proof -
  have "take_bit LENGTH('a) (uint w) = uint w" by (simp add: take_bit_int_eq_self unsigned_less)
  then show ?thesis by (simp only: unsigned_drop_bit_eq drop_bit_eq_div[of n "uint w"])
qed

lemma octal_value:
  "(uint (drop_bit 6 c) * 8 + uint (drop_bit 3 c AND 7)) * 8 + uint (c AND 7) = uint (c :: uint8)"
proof -
  have "w AND 7 = take_bit 3 w" for w :: uint8 by (simp add: take_bit_eq_mask mask_eq_exp_minus_1)
  then have m: "uint (w AND 7) = uint w mod 8" for w :: uint8
    by (simp only: unsigned_take_bit_eq) (simp add: take_bit_eq_mod)
  have "(n div 64 * 8 + n div 8 mod 8) * 8 + n mod 8 = n" for n :: int
    using div_mult_mod_eq[of "n div 8" 8] div_mult_mod_eq[of n 8] by (simp flip: zdiv_zmult2_eq)
  then show ?thesis by (simp add: m uint_drop_bit)
qed

lemma octal_bounds: "drop_bit 6 c < 4" "drop_bit 3 c AND 7 < 8" "c AND 7 < 8" for c :: uint8
proof -
  show "drop_bit 6 c < 4" using unsigned_less[of c, where ?'a = int] by (simp add: word_less_def uint_drop_bit)
  have "w AND 7 < 8" for w :: uint8
    using word_and_le1[of w 7] by (simp add: word_less_nat_alt word_le_nat_alt)
  then show "drop_bit 3 c AND 7 < 8" "c AND 7 < 8" by blast+
qed

lemma esc_decode_encode: "esc_decode (esc_encode data) = Inr data"
proof (induction data)
  case (Cons c data)
  let ?d = "[DIG (drop_bit 6 c), DIG (drop_bit 3 c AND 7), DIG (c AND 7)]"
  have "drop_bit 6 c < 8" using octal_bounds(1)[of c] by (rule order.strict_trans) simp
  note digits = octal_digit_word[OF this] octal_digit_word[OF octal_bounds(2)[of c]] octal_digit_word[OF octal_bounds(3)[of c]]
  have val: "64 * drop_bit 6 c + (drop_bit 3 c AND 7) * 8 + (c AND 7) = c"
    using arg_cong[OF octal_value[of c], where f = "word_of_int :: int \<Rightarrow> uint8"] by simp
  have "octal (92 # ?d @ r)" for r using digits octal_bounds(1)[of c] by (simp add: octal_def)
  then have "esc_decode (92 # ?d @ esc_encode data) = Inr (c # data)"
    using Cons by (subst esc_decode.simps) (simp add: digits val)
  moreover have "esc_decode (92 # 92 # esc_encode data) = Inr (92 # data)"
    using Cons by (subst esc_decode.simps) (simp add: octal_def)
  moreover have "esc_decode (c # esc_encode data) = Inr (c # data)" if "c \<noteq> 92"
    using Cons that by (subst esc_decode.simps) simp
  ultimately show ?case by simp
qed (simp add: esc_decode.simps)

lemma esc_enc_len_loop: "esc_enc_len_loop data len = len + of_nat (length (esc_encode data))"
  by (induction data arbitrary: len) simp_all

lemma length_esc_encode: "length (esc_encode data) \<le> 4 * length data"
  by (induction data) simp_all

lemma esc_dec_len_loop:
  "esc_dec_len_loop src len = result_bind (esc_decode src) (\<lambda>data. Inr (len + of_nat (length data)))"
proof (induction src len rule: esc_dec_len_loop.induct)
  case (1 src len)
  show ?case
    using 1 by (subst esc_dec_len_loop.simps, subst esc_decode.simps)
      (auto simp: Let_def result_bind_def algebra_simps split: sum.split)
qed

lemma length_esc_decode: "esc_decode src = Inr data \<Longrightarrow> length data \<le> length src"
proof (induction src arbitrary: data rule: measure_induct_rule[of length])
  case (less src)
  have IH: "length res \<le> length src - k" if "0 < k" "src \<noteq> []" "esc_decode (drop k src) = Inr res" for k res
    using less.IH[of "drop k src" res] that by simp
  have pos: "0 < length src" if "src \<noteq> []" using that by simp
  show ?case
  proof (cases "src = []")
    case True
    then show ?thesis using less.prems by (simp add: esc_decode.simps)
  next
    case False
    obtain k c res where "0 < k" "k \<le> length src" "esc_decode (drop k src) = Inr res" "data = c # res"
    proof (cases "src ! 0 = 92")
      case no: False
      then show thesis using that[of 1] less.prems False
        by (subst (asm) esc_decode.simps) (auto simp: result_bind_Inr_iff Suc_le_eq)
    next
      case True
      show thesis
      proof (cases "octal src")
        case o: True
        then show thesis using that[of 4] less.prems False True
          by (subst (asm) esc_decode.simps) (auto simp: result_bind_Inr_iff Let_def octal_def)
      next
        case o: False
        then show thesis using that[of 2] less.prems False True
          by (subst (asm) esc_decode.simps) (auto simp: result_bind_Inr_iff split: if_splits)
      qed
    qed
    then show ?thesis using IH[of k res] False by auto
  qed
qed


subsection \<open>Correctness of the base64 encoding\<close>

text \<open>The encoding without line breaks, three bytes at a time.\<close>

definition pack :: "uint8 \<Rightarrow> uint8 \<Rightarrow> uint8 \<Rightarrow> uint32" where
  "pack a b c = push_bit 16 (ucast a) OR push_bit 8 (ucast b) OR ucast c"

fun b64_ref :: "bytes \<Rightarrow> bytes" where
  "b64_ref (a # b # c # s) = b64_quad (pack a b c) @ b64_ref s"
| "b64_ref [a, b] = [b64_char (drop_bit 18 (pack a b 0)), b64_char (drop_bit 12 (pack a b 0)), b64_char (drop_bit 6 (pack a b 0)), 61]"
| "b64_ref [a] = [b64_char (drop_bit 18 (pack a 0 0)), b64_char (drop_bit 12 (pack a 0 0)), 61, 61]"
| "b64_ref [] = []"

lemma b64_values: "map b64_value base64 = map Inr [0..63]"
  by (simp add: base64_def b64_value_def b64lookup_def upto_rec1)

lemma base64_symbols: "list_all (\<lambda>c. \<not> is_white c \<and> c \<noteq> 61) base64"
  by (simp add: base64_def is_white_def)

lemma base64_lookup:
  assumes "n < 64"
  shows "\<not> is_white (base64 ! n) \<and> base64 ! n \<noteq> 61 \<and> b64_value (base64 ! n) = Inr (int n)"
proof -
  have len: "length base64 = 64" by (simp add: base64_def)
  have "b64_value (base64 ! n) = map b64_value base64 ! n" using assms len by simp
  also have "\<dots> = Inr (int n)" unfolding b64_values using assms by simp
  finally show ?thesis using base64_symbols assms len by (auto simp: list_all_length)
qed

lemma b64_char_value:
  "\<not> is_white (b64_char w)" "b64_char w \<noteq> 61" "b64_value (b64_char w) = Inr (uint (w AND 0x3f))"
proof -
  have "unat (w AND 0x3f) < 64" using word_and_le1[of w "0x3f"] by (simp add: word_le_nat_alt)
  from base64_lookup[OF this] show "\<not> is_white (b64_char w)" "b64_char w \<noteq> 61" "b64_value (b64_char w) = Inr (uint (w AND 0x3f))"
    by (simp_all add: b64_char_def)
qed

lemma b64_quad_white [simp]: "filter (\<lambda>c. \<not> is_white c) (b64_quad w) = b64_quad w"
  by (simp add: b64_quad_def b64_char_value)

lemma not_white_eq [simp]: "\<not> is_white 61" "is_white 10"
  by (simp_all add: is_white_def)

text \<open>
  At a multiple of three bytes the accumulator is empty.  Line breaks apart the loop then writes
  the reference encoding of the rest; \<open>k\<close> groups are on the current line, which holds 19.
\<close>

lemma b64_loop_white:
  "filter (\<lambda>c. \<not> is_white c) (b64_encode_end (b64_encode_loop s p lend 2 0)) = filter (\<lambda>c. \<not> is_white c) p @ b64_ref s"
proof (induction s arbitrary: p lend rule: b64_ref.induct)
  case (1 a b c s)
  then show ?case by (simp add: Let_def pack_def or.assoc)
next
  case (2 a b)
  then show ?case by (simp add: Let_def b64_encode_end_def b64_char_value pack_def or.assoc)
next
  case (3 a)
  then show ?case by (simp add: Let_def b64_encode_end_def b64_char_value pack_def or.assoc)
qed (simp add: b64_encode_end_def)

lemma b64_loop_length:
  "lend + 4 * k = length p + 76 \<Longrightarrow> k < 19 \<Longrightarrow>
     length (b64_encode_end (b64_encode_loop s p lend 2 0)) =
       length p + 4 * ((length s + 2) div 3) + (length s + 3 * k) div 57"
proof (induction s arbitrary: p lend k rule: b64_ref.induct)
  case (1 a b c s)
  let ?p = "p @ b64_quad (pack a b c)"
  have step: "b64_encode_loop (a # b # c # s) p lend 2 0 =
    (if k = 18 then b64_encode_loop s (?p @ [10]) (length ?p + 77) 2 0 else b64_encode_loop s ?p lend 2 0)"
    using 1(2,3) by (simp add: Let_def pack_def or.assoc b64_quad_def)
  have groups: "(length (a # b # c # s) + 2) div 3 = Suc ((length s + 2) div 3)" by simp
  have lines: "(length (a # b # c # s) + 54) div 57 = Suc (length s div 57)" by simp
  show ?case
  proof (cases "k = 18")
    case True
    have "length (b64_encode_end (b64_encode_loop s (?p @ [10]) (length ?p + 77) 2 0)) =
      length (?p @ [10]) + 4 * ((length s + 2) div 3) + (length s + 3 * 0) div 57" by (rule 1) simp_all
    then show ?thesis unfolding step using True groups lines by (simp add: b64_quad_def)
  next
    case False
    have "length (b64_encode_end (b64_encode_loop s ?p lend 2 0)) =
      length ?p + 4 * ((length s + 2) div 3) + (length s + 3 * Suc k) div 57"
      using 1(2,3) False by (intro 1) (simp_all add: b64_quad_def)
    then show ?thesis unfolding step using False groups by (simp add: b64_quad_def algebra_simps)
  qed
next
  case (2 a b)
  then have "\<not> lend \<le> length p" "(2 + 3 * k) div 57 = 0" by (simp_all add: div_less)
  then show ?case by (simp add: b64_encode_end_def Let_def)
next
  case (3 a)
  then have "\<not> lend \<le> length p" "(1 + 3 * k) div 57 = 0" by (simp_all add: div_less)
  then show ?case by (simp add: b64_encode_end_def Let_def)
next
  case 4
  then have "3 * k div 57 = 0" by (simp add: div_less)
  then show ?case by (simp add: b64_encode_end_def)
qed

lemma length_b64_encode: "length (b64_encode data) = 4 * ((length data + 2) div 3) + length data div 57"
  using b64_loop_length[of 76 0 "[]" data] by (simp add: b64_encode_def)

lemma b64_decode_white: "b64_decode_loop s p buf pos end = b64_decode_loop (filter (\<lambda>c. \<not> is_white c) s) p buf pos end"
proof (induction s arbitrary: p buf pos "end")
  case (Cons c s)
  show ?case by (cases "is_white c"; cases "b64_symbol c pos end") (auto simp: Let_def Cons[symmetric])
qed simp

text \<open>Four symbols give back the 24 bits they were taken from.\<close>

lemma join_bits:
  fixes w :: uint32
  shows "push_bit 6 (drop_bit (k + 6) w) + (drop_bit k w AND 63) = drop_bit k w"
proof -
  have "drop_bit k w AND 63 = take_bit 6 (drop_bit k w)" by (simp add: take_bit_eq_mask mask_eq_exp_minus_1)
  moreover have "drop_bit (k + 6) w = drop_bit 6 (drop_bit k w)" by (simp add: add.commute)
  ultimately show ?thesis by (simp only: bits_ident)
qed

lemma pack_high: "drop_bit 18 (pack a b c) AND 63 = drop_bit 18 (pack a b c)"
proof -
  have eq: "(63 :: uint32) = mask 6" by (simp add: mask_eq_exp_minus_1)
  show ?thesis unfolding pack_def eq
    by (intro bit_word_eqI) (auto simp: bit_simps simp del: mask_numeral dest: bit_imp_le_length)
qed

lemma unpack:
  "ucast (drop_bit 16 (pack a b c) AND 255) = a" "ucast (drop_bit 8 (pack a b c) AND 255) = b" "ucast (pack a b c AND 255) = c"
proof -
  have eq: "(255 :: uint32) = mask 8" by (simp add: mask_eq_exp_minus_1)
  show "ucast (drop_bit 16 (pack a b c) AND 255) = a" "ucast (drop_bit 8 (pack a b c) AND 255) = b" "ucast (pack a b c AND 255) = c"
    unfolding pack_def eq
    by (intro bit_word_eqI; auto simp: bit_simps simp del: mask_numeral dest: bit_imp_le_length)+
qed

lemma pack_low: "pack a b 0 AND 63 = 0" "drop_bit 6 (pack a 0 0) AND 63 = 0"
proof -
  have eq: "(63 :: uint32) = mask 6" by (simp add: mask_eq_exp_minus_1)
  show "pack a b 0 AND 63 = 0" "drop_bit 6 (pack a 0 0) AND 63 = 0"
    unfolding pack_def eq by (intro bit_word_eqI; auto simp: bit_simps simp del: mask_numeral)+
qed

lemma b64_symbol_char [simp]: "b64_symbol (b64_char w) pos end = Inr (uint (w AND 0x3f), end)"
  by (simp add: b64_symbol_def b64_char_value)

lemma b64_decode_quad:
  "b64_decode_loop (b64_quad (pack a b c) @ s) p 0 0 0 = b64_decode_loop s (p @ [a, b, c]) 0 0 0"
  using join_bits[of 12 "pack a b c"] join_bits[of 6 "pack a b c"] join_bits[of 0 "pack a b c"]
  by (simp add: b64_quad_def b64_char_value Let_def pack_high b64_flush_def unpack)

lemma b64_decode_ref: "b64_decode_loop (b64_ref s) p 0 0 0 = Inr (p @ s)"
proof (induction s arbitrary: p rule: b64_ref.induct)
  case (1 a b c s)
  then show ?case by (simp add: b64_decode_quad)
next
  case (2 a b)
  then show ?case using join_bits[of 12 "pack a b 0"] join_bits[of 6 "pack a b 0"] join_bits[of 0 "pack a b 0"]
  by (simp add: b64_char_value Let_def pack_high b64_flush_def unpack b64_symbol_def pack_low)
next
  case (3 a)
  then show ?case using join_bits[of 12 "pack a 0 0"] join_bits[of 6 "pack a 0 0"] join_bits[of 0 "pack a 0 0"]
  by (simp add: b64_char_value Let_def pack_high b64_flush_def unpack b64_symbol_def pack_low)
qed simp

lemma b64_decode_encode: "b64_decode (b64_encode data) = Inr data"
  unfolding b64_decode_def b64_encode_def by (subst b64_decode_white) (simp add: b64_loop_white b64_decode_ref)

lemma length_b64_flush: "length (b64_flush buf end) \<le> 3"
  by (simp add: b64_flush_def)

lemma length_b64_decode_loop:
  "b64_decode_loop s p buf pos end = Inr data \<Longrightarrow> pos < 4 \<Longrightarrow> 4 * length data \<le> 4 * length p + 3 * (length s + pos)"
proof (induction s arbitrary: p buf pos "end")
  case Nil
  then show ?case by (simp split: if_splits)
next
  case (Cons c s)
  show ?case
  proof (cases "is_white c")
    case True
    then show ?thesis using Cons.prems Cons.IH[of p buf pos "end"] by simp
  next
    case False
    then obtain b e where b: "b64_symbol c pos end = Inr (b, e)"
      using Cons.prems(1) by (cases "b64_symbol c pos end") auto
    let ?buf = "push_bit 6 buf + word_of_int b"
    show ?thesis
    proof (cases "pos = 3")
      case True
      then have "b64_decode_loop s (p @ b64_flush ?buf e) 0 0 e = Inr data"
        using Cons.prems(1) False b by (simp add: Let_def)
      from Cons.IH[OF this] show ?thesis using length_b64_flush[of ?buf e] True by simp
    next
      case pos: False
      then have "b64_decode_loop s p ?buf (pos + 1) e = Inr data"
        using Cons.prems False b by (simp add: Let_def)
      from Cons.IH[OF this] show ?thesis using pos Cons.prems(2) by simp
    qed
  qed
qed

lemma length_b64_decode: "b64_decode src = Inr data \<Longrightarrow> 4 * length data \<le> 3 * length src"
  using length_b64_decode_loop[of src "[]" 0 0 0 data] by (simp add: b64_decode_def)


subsection \<open>The contract of an encoding\<close>

text \<open>
  What the SQL functions rely on: decoding undoes encoding, and the estimates of the result
  lengths are large enough for every value that a \<^verbatim>\<open>bytea\<close> or \<^verbatim>\<open>text\<close> datum can hold.
\<close>

lemma sint32_uint: "sint w = (if uint w < 2 ^ 31 then uint w else uint w - 2 ^ 32)" for w :: uint32
proof -
  have s: "sint w = (uint w + 2 ^ 31) mod 2 ^ 32 - 2 ^ 31"
    by (simp add: sint_uint signed_take_bit_eq_take_bit_shift take_bit_eq_mod)
  have u: "0 \<le> uint w" "uint w < 2 ^ 32" using unsigned_less[of w, where ?'a = int] by simp_all
  show ?thesis
  proof (cases "uint w < 2 ^ 31")
    case True
    then show ?thesis using s u by simp
  next
    case False
    have "(uint w + 2 ^ 31) mod 2 ^ 32 = (uint w - 2 ^ 31) mod 2 ^ 32"
      using mod_add_self2[of "uint w - 2 ^ 31" "2 ^ 32"] by (simp add: add.commute)
    also have "\<dots> = uint w - 2 ^ 31" using False u by (intro mod_pos_pos_trivial) simp_all
    finally show ?thesis using s False by simp
  qed
qed

definition varlena_fits :: "bytes \<Rightarrow> bool" where
  "varlena_fits data \<longleftrightarrow> AllocSizeIsValid (VARHDRSZ + int (length data))"

locale text_encoding =
  fixes enc :: pg_encoding
  assumes decode_encode: "decode enc (encode enc data) = Inr data"
    and encode_estimate: "varlena_fits data \<Longrightarrow> int (length (encode enc data)) \<le> uint (encode_len enc data)"
    and encode_estimate_4: "varlena_fits data \<Longrightarrow> uint (encode_len enc data) \<le> 4 * int (length data) + 4"
    and decode_estimate: "varlena_fits src \<Longrightarrow> decode enc src = Inr data \<Longrightarrow>
      \<exists>n. decode_len enc src = Inr n \<and> int (length data) \<le> uint n"
    and decode_estimate_1: "varlena_fits src \<Longrightarrow> decode_len enc src = Inr n \<Longrightarrow> uint n \<le> int (length src)"
    and decode_error: "decode enc src \<noteq> Inl DecodeEstimateTooSmall"
    and decode_len_error: "decode_len enc src = Inl e \<Longrightarrow> decode enc src = Inl e"
begin

lemma encode_alloc:
  assumes "varlena_fits data" "AllocSizeIsValid (VARHDRSZ + sint (encode_len enc data))"
  shows "sint (encode_len enc data) = uint (encode_len enc data)"
  using assms encode_estimate_4[OF assms(1)]
  by (auto simp: sint32_uint varlena_fits_def AllocSizeIsValid_def VARHDRSZ_def MaxAllocSize_def split: if_splits)

lemma encode_with:
  "varlena_fits data \<Longrightarrow> encode_with enc data =
     (if AllocSizeIsValid (VARHDRSZ + sint (encode_len enc data)) then Inr (encode enc data) else Inl InvalidAllocSize)"
  using encode_estimate[of data] encode_alloc[of data] by (auto simp: encode_with_def Let_def)

lemma decode_with: "varlena_fits src \<Longrightarrow> decode_with enc src = decode enc src"
proof -
  assume fits: "varlena_fits src"
  show ?thesis
  proof (cases "decode_len enc src")
    case (Inl e)
    then show ?thesis using decode_len_error by (simp add: decode_with_def)
  next
    case (Inr n)
    have "uint n \<le> int (length src)" using decode_estimate_1[OF fits Inr] .
    moreover from this have "sint n = uint n"
      using fits by (simp add: sint32_uint varlena_fits_def AllocSizeIsValid_def VARHDRSZ_def MaxAllocSize_def)
    ultimately have valid: "AllocSizeIsValid (VARHDRSZ + sint n)"
      using fits by (simp add: varlena_fits_def AllocSizeIsValid_def VARHDRSZ_def)
    show ?thesis
      using decode_estimate[OF fits] Inr valid \<open>sint n = uint n\<close>
      by (cases "decode enc src") (auto simp: decode_with_def Let_def)
  qed
qed

lemma encode_result_fits:
  assumes "varlena_fits data" "encode_with enc data = Inr res"
  shows "varlena_fits res"
  using assms encode_estimate[of data] encode_alloc[of data]
  by (auto simp: encode_with varlena_fits_def AllocSizeIsValid_def VARHDRSZ_def split: if_splits)

lemma with_roundtrip:
  assumes "varlena_fits data" "encode_with enc data = Inr res"
  shows "decode_with enc res = Inr data"
  using assms decode_with[OF encode_result_fits[OF assms]] decode_encode by (auto simp: encode_with split: if_splits)

lemma encode_succeeds:
  assumes "length data \<le> 2 ^ 27"
  shows "\<exists>res. encode_with enc data = Inr res"
proof -
  have fits: "varlena_fits data" using assms by (simp add: varlena_fits_def AllocSizeIsValid_def VARHDRSZ_def MaxAllocSize_def)
  have "uint (encode_len enc data) \<le> 4 * 2 ^ 27 + 4" using encode_estimate_4[OF fits] assms by simp
  moreover from this have "sint (encode_len enc data) = uint (encode_len enc data)" by (simp add: sint32_uint)
  ultimately show ?thesis
    using unsigned_greater_eq[of "encode_len enc data", where ?'a = int]
    by (simp add: encode_with[OF fits] AllocSizeIsValid_def VARHDRSZ_def MaxAllocSize_def)
qed

end

text \<open>The three encodings of \<^verbatim>\<open>enclist\<close> keep the contract.\<close>

lemma hex_decode_errors: "hex_decode src \<noteq> Inl DecodeEstimateTooSmall"
proof (induction src rule: hex_decode.induct)
  case (2 c s)
  then show ?case by (cases s) (auto simp: result_bind_Inl_iff get_hex_def Let_def split: if_splits)
qed simp

lemma b64_decode_loop_errors: "b64_decode_loop src p buf pos end \<noteq> Inl DecodeEstimateTooSmall"
proof (induction src arbitrary: p buf pos "end")
  case (Cons c s)
  have "b64_symbol c pos end \<noteq> Inl DecodeEstimateTooSmall"
    by (auto simp: b64_symbol_def b64_value_def result_bind_Inl_iff Let_def)
  then show ?case using Cons by (auto simp: result_bind_Inl_iff Let_def)
qed simp

lemma b64_decode_errors: "b64_decode src \<noteq> Inl DecodeEstimateTooSmall"
  by (simp add: b64_decode_def b64_decode_loop_errors)

lemma esc_decode_errors: "esc_decode src \<noteq> Inl DecodeEstimateTooSmall"
proof (induction src rule: measure_induct_rule[of length])
  case (less src)
  have IH: "esc_decode (drop k src) \<noteq> Inl DecodeEstimateTooSmall" if "0 < k" "src \<noteq> []" for k
    using less.IH[of "drop k src"] that by simp
  show ?case using IH[of 1] IH[of 2] IH[of 4] by (subst esc_decode.simps) (auto simp: Let_def result_bind_Inl_iff)
qed

lemma uint_of_nat_small: "n < 2 ^ 32 \<Longrightarrow> uint (of_nat n :: uint32) = int n"
  by (simp add: unsigned_of_nat take_bit_nat_eq_self)

lemma varlena_fits_iff: "varlena_fits data \<longleftrightarrow> length data < 1073741819"
  by (auto simp: varlena_fits_def AllocSizeIsValid_def VARHDRSZ_def MaxAllocSize_def)

lemma hex_estimates:
  "varlena_fits data \<Longrightarrow> uint (hex_enc_len data) = 2 * int (length data)"
  "varlena_fits src \<Longrightarrow> hex_dec_len src = Inr n \<Longrightarrow> uint n = int (length src) div 2"
proof -
  assume "varlena_fits data"
  then have "2 * length data < 2 ^ 32" by (simp add: varlena_fits_iff)
  moreover have "hex_enc_len data = of_nat (2 * length data)" by (simp add: hex_enc_len_def)
  ultimately show "uint (hex_enc_len data) = 2 * int (length data)" using uint_of_nat_small[of "2 * length data"] by simp
next
  assume "varlena_fits src" "hex_dec_len src = Inr n"
  moreover from this have "uint (of_nat (length src) :: uint32) = int (length src)" by (intro uint_of_nat_small) (simp add: varlena_fits_iff)
  ultimately show "uint n = int (length src) div 2"
    using uint_drop_bit[of 1 "of_nat (length src) :: uint32"] by (auto simp: hex_dec_len_def)
qed

interpretation hexenc: text_encoding hex
proof
  show "decode hex (encode hex data) = Inr data" for data by (simp add: hex_def hex_decode_encode)
  show "int (length (encode hex data)) \<le> uint (encode_len hex data)" if "varlena_fits data" for data
    using hex_estimates(1)[OF that] by (simp add: hex_def length_hex_encode)
  show "uint (encode_len hex data) \<le> 4 * int (length data) + 4" if "varlena_fits data" for data
    using hex_estimates(1)[OF that] by (simp add: hex_def)
  show "\<exists>n. decode_len hex src = Inr n \<and> int (length data) \<le> uint n" if "varlena_fits src" "decode hex src = Inr data" for src data
  proof -
    obtain n where n: "hex_dec_len src = Inr n" by (simp add: hex_dec_len_def)
    then show ?thesis using hex_estimates(2)[OF that(1) n] length_hex_decode[of src data] that(2) by (auto simp: hex_def)
  qed
  show "uint n \<le> int (length src)" if "varlena_fits src" "decode_len hex src = Inr n" for src n
    using hex_estimates(2)[OF that(1)] that(2) by (simp add: hex_def)
  show "decode hex src \<noteq> Inl DecodeEstimateTooSmall" for src by (simp add: hex_def hex_decode_errors)
  show "decode hex src = Inl e" if "decode_len hex src = Inl e" for src e using that by (simp add: hex_def hex_dec_len_def)
qed

lemma b64_estimates:
  "varlena_fits data \<Longrightarrow> uint (b64_enc_len data) = (int (length data) + 2) * 4 div 3 + int (length data) div 57"
  "varlena_fits src \<Longrightarrow> b64_dec_len src = Inr n \<Longrightarrow> uint n = int (length src) * 3 div 4"
proof -
  assume fits: "varlena_fits data"
  have uints: "uint (3 :: uint32) = 3" "uint (57 :: uint32) = 57" by simp_all
  have len: "length data < 1073741819" using fits by (simp add: varlena_fits_iff)
  have "uint (of_nat ((length data + 2) * 4) :: uint32) = int ((length data + 2) * 4)"
    using len by (intro uint_of_nat_small) simp
  moreover have "uint (of_nat (length data) :: uint32) = int (length data)" using len by (intro uint_of_nat_small) simp
  ultimately have a: "uint ((of_nat (length data) + 2) * 4 div 3 :: uint32) = (int (length data) + 2) * 4 div 3"
    "uint (of_nat (length data) div 57 :: uint32) = int (length data) div 57"
    by (simp_all only: uint_div uints) (simp_all add: algebra_simps)
  have "uint (x + y) = uint x + uint y" if "uint x + uint y < 2 ^ 32" for x y :: uint32
    using that by (simp add: uint_word_ariths)
  from this[of "(of_nat (length data) + 2) * 4 div 3" "of_nat (length data) div 57"]
  show "uint (b64_enc_len data) = (int (length data) + 2) * 4 div 3 + int (length data) div 57"
    using a fits by (simp add: b64_enc_len_def Let_def varlena_fits_iff)
next
  assume "varlena_fits src" "b64_dec_len src = Inr n"
  moreover from this have "uint (of_nat (length src * 3) :: uint32) = int (length src * 3)"
    by (intro uint_of_nat_small) (simp add: varlena_fits_iff)
  ultimately show "uint n = int (length src) * 3 div 4"
    using uint_drop_bit[of 2 "of_nat (length src * 3) :: uint32"] by (auto simp: b64_dec_len_def Let_def)
qed

interpretation b64enc: text_encoding b64
proof
  show "decode b64 (encode b64 data) = Inr data" for data by (simp add: b64_def b64_decode_encode)
  show "int (length (encode b64 data)) \<le> uint (encode_len b64 data)" if "varlena_fits data" for data
  proof -
    have "4 * ((n + 2) div 3) \<le> (n + 2) * 4 div 3" for n :: nat
      using div_times_less_eq_dividend[of "n + 2" 3] by (simp add: less_eq_div_iff_mult_less_eq)
    then have "4 * ((length data + 2) div 3) + length data div 57 \<le> (length data + 2) * 4 div 3 + length data div 57" by simp
    moreover have "uint (b64_enc_len data) = int ((length data + 2) * 4 div 3 + length data div 57)"
      using b64_estimates(1)[OF that] by (simp add: zdiv_int)
    ultimately show ?thesis by (simp only: b64_def pg_encoding.simps length_b64_encode of_nat_le_iff)
  qed
  show "uint (encode_len b64 data) \<le> 4 * int (length data) + 4" if "varlena_fits data" for data
    using b64_estimates(1)[OF that] by (simp add: b64_def)
  show "\<exists>n. decode_len b64 src = Inr n \<and> int (length data) \<le> uint n" if "varlena_fits src" "decode b64 src = Inr data" for src data
  proof -
    obtain n where n: "b64_dec_len src = Inr n" by (simp add: b64_dec_len_def Let_def)
    then show ?thesis using b64_estimates(2)[OF that(1) n] length_b64_decode[of src data] that(2) by (auto simp: b64_def)
  qed
  show "uint n \<le> int (length src)" if "varlena_fits src" "decode_len b64 src = Inr n" for src n
    using b64_estimates(2)[OF that(1)] that(2) by (simp add: b64_def)
  show "decode b64 src \<noteq> Inl DecodeEstimateTooSmall" for src by (simp add: b64_def b64_decode_errors)
  show "decode b64 src = Inl e" if "decode_len b64 src = Inl e" for src e using that by (simp add: b64_def b64_dec_len_def Let_def)
qed

lemma esc_estimates:
  "varlena_fits data \<Longrightarrow> uint (esc_enc_len data) = int (length (esc_encode data))"
  "varlena_fits src \<Longrightarrow> esc_decode src = Inr data \<Longrightarrow> \<exists>n. esc_dec_len src = Inr n \<and> uint n = int (length data)"
proof -
  assume "varlena_fits data"
  then have "length (esc_encode data) < 2 ^ 32" using length_esc_encode[of data] by (simp add: varlena_fits_iff)
  then show "uint (esc_enc_len data) = int (length (esc_encode data))"
    by (simp add: esc_enc_len_def esc_enc_len_loop uint_of_nat_small)
next
  assume "varlena_fits src" and d: "esc_decode src = Inr data"
  then have "length data < 2 ^ 32" using length_esc_decode[OF d] by (simp add: varlena_fits_iff)
  then show "\<exists>n. esc_dec_len src = Inr n \<and> uint n = int (length data)"
    using d by (simp add: esc_dec_len_def esc_dec_len_loop uint_of_nat_small)
qed

interpretation escenc: text_encoding esc
proof
  show "decode esc (encode esc data) = Inr data" for data by (simp add: esc_def esc_decode_encode)
  show "int (length (encode esc data)) \<le> uint (encode_len esc data)" if "varlena_fits data" for data
    using esc_estimates(1)[OF that] by (simp add: esc_def)
  show "uint (encode_len esc data) \<le> 4 * int (length data) + 4" if "varlena_fits data" for data
    using esc_estimates(1)[OF that] length_esc_encode[of data] by (simp add: esc_def)
  show "\<exists>n. decode_len esc src = Inr n \<and> int (length data) \<le> uint n" if "varlena_fits src" "decode esc src = Inr data" for src data
    using esc_estimates(2)[OF that(1), of data] that(2) by (auto simp: esc_def)
  show "uint n \<le> int (length src)" if "varlena_fits src" "decode_len esc src = Inr n" for src n
  proof -
    obtain data where d: "esc_decode src = Inr data" using \<open>decode_len esc src = Inr n\<close>
      by (cases "esc_decode src") (simp_all add: esc_def esc_dec_len_def esc_dec_len_loop)
    then show ?thesis using esc_estimates(2)[OF that(1) d] length_esc_decode[OF d] that(2) by (auto simp: esc_def)
  qed
  show "decode esc src \<noteq> Inl DecodeEstimateTooSmall" for src by (simp add: esc_def esc_decode_errors)
  show "decode esc src = Inl e" if "decode_len esc src = Inl e" for src e
    using that by (cases "esc_decode src") (simp_all add: esc_def esc_dec_len_def esc_dec_len_loop)
qed


lemma pg_find_encoding_cases:
  assumes "pg_find_encoding name = Some enc"
  shows "text_encoding enc"
proof -
  have "enc \<in> {hex, b64, esc}"
    using assms by (auto simp: pg_find_encoding_def enclist_def for_return_def upt_rec split: if_splits)
  then show ?thesis using hexenc.text_encoding_axioms b64enc.text_encoding_axioms escenc.text_encoding_axioms by blast
qed

lemmas encoding_client = text_encoding.with_roundtrip text_encoding.encode_with text_encoding.decode_with
  text_encoding.encode_succeeds


subsection \<open>The SQL functions encode and decode\<close>

text \<open>
  C35: Decoding gives back the encoded data: when \<^verbatim>\<open>encode(data, name)\<close> succeeds for a \<^verbatim>\<open>bytea\<close> of any
  size, \<^verbatim>\<open>decode\<close> with the same encoding name returns the data.
\<close>

theorem encode_decode_roundtrip:
  assumes "varlena_fits data" "binary_encode data name = Inr res"
  shows "binary_decode res name = Inr data"
proof -
  obtain enc where enc: "pg_find_encoding name = Some enc" "encode_with enc data = Inr res"
    using assms(2) by (auto simp: binary_encode_def split: option.splits)
  then have "decode_with enc res = Inr data"
    using encoding_client(1)[OF pg_find_encoding_cases] assms(1) by blast
  then show ?thesis using enc by (simp add: binary_decode_def)
qed

theorem encode_decode_roundtrip_witness:
  "binary_encode [255, 0, 92, 16] ''Base64'' = Inr (map of_char ''/wBcEA=='') \<and>
   binary_decode (map of_char ''/wBcEA=='') ''Base64'' = Inr [255, 0, 92, 16]"
proof -
  have enc: "binary_encode [255, 0, 92, 16] ''Base64'' = Inr (map of_char ''/wBcEA=='')" by code_simp
  from encode_decode_roundtrip[OF _ enc] show ?thesis using enc by (simp add: varlena_fits_iff)
qed

text \<open>
  C36: The length estimates are never too small, although they are computed in 32 bits: neither
  function writes beyond the result buffer it allocated, for any input that fits in a datum.
\<close>

theorem encode_estimates_suffice:
  assumes "varlena_fits data"
  shows "binary_encode data name \<noteq> Inl EncodeEstimateTooSmall \<and> binary_decode data name \<noteq> Inl DecodeEstimateTooSmall"
proof (cases "pg_find_encoding name")
  case (Some enc)
  note client = encoding_client(2,3)[OF pg_find_encoding_cases[OF Some] assms]
  have "decode enc data \<noteq> Inl DecodeEstimateTooSmall" by (rule text_encoding.decode_error[OF pg_find_encoding_cases[OF Some]])
  then show ?thesis using Some by (simp add: binary_encode_def binary_decode_def client)
qed (simp add: binary_encode_def binary_decode_def)

theorem encode_estimates_suffice_witness:
  "binary_decode [92, 48] ''escape'' \<noteq> Inl DecodeEstimateTooSmall"
  using encode_estimates_suffice[of "[92, 48]" "''escape''"] by (simp add: varlena_fits_iff)

text \<open>
  Encoding succeeds for every value of up to 128 MB under each of the three encodings, and
  fails for an unknown encoding name only with the error that names it.
\<close>

theorem encode_total:
  assumes "length data \<le> 2 ^ 27"
  shows "(\<exists>res. binary_encode data name = Inr res) \<or>
    (list_all (\<lambda>(n, enc). pg_strcasecmp n name \<noteq> 0) enclist \<and> binary_encode data name = Inl (UnrecognizedEncoding name))"
proof (cases "pg_find_encoding name")
  case None
  then have "list_all (\<lambda>(n, enc). pg_strcasecmp n name \<noteq> 0) enclist"
    by (auto simp: pg_find_encoding_def enclist_def for_return_def upt_rec split: if_splits)
  then show ?thesis using None by (simp add: binary_encode_def)
next
  case (Some enc)
  then show ?thesis
    using encoding_client(4)[OF pg_find_encoding_cases[OF Some] assms] by (simp add: binary_encode_def)
qed

theorem encode_total_witness:
  "(\<exists>res. binary_encode [1, 2] ''HEX'' = Inr res)"
  using encode_total[of "[1, 2]" "''HEX''"] by (simp add: enclist_def fold_case_def)

text \<open>
  White space between the symbols of base64 text does not change what it decodes to.
\<close>

theorem b64_decode_ignores_white_space:
  "b64_decode src = b64_decode (filter (\<lambda>c. \<not> is_white c) src)"
  unfolding b64_decode_def by (rule b64_decode_white)

end
