(* ===== verification/String_Info.thy ===== *)
theory String_Info
  imports Hash_Functions
begin

text \<open>
  The extensible strings of \<^verbatim>\<open>lib/stringinfo.c\<close>.

  A buffer is the list of its allocated bytes.  Memory that \<^verbatim>\<open>palloc\<close> and \<^verbatim>\<open>repalloc\<close> add is filled with
  zeros here; the lemmas speak of the bytes before \<open>len\<close> only.  An access outside the allocated
  bytes is the error \<open>Overrun\<close>, and a loop that does not return the error \<open>NoReturn\<close>.  The type
  \<^verbatim>\<open>int\<close> of the source is \<open>int\<close> here, and the bounds shown below stay in its range.  What
  \<^verbatim>\<open>vsnprintf\<close> would print is an argument.
\<close>


subsection \<open>Operations\<close>

datatype sinfo_error = InvalidEnlargement int | OutOfMemory | Overrun | NoReturn

record StringInfoData =
  sdata :: bytes
  len :: int
  maxlen :: int
  cursor :: int

definition MaxAllocSize :: uint64 where
  "MaxAllocSize = 0x3fffffff"

text \<open>Stores of bytes from a position on; \<^verbatim>\<open>memcpy\<close> and assignments to elements.\<close>

definition store :: "int \<Rightarrow> bytes \<Rightarrow> StringInfoData \<Rightarrow> sinfo_error + StringInfoData" where
  "store i bs str =
     (if 0 \<le> i \<and> i + int (length bs) \<le> int (length (sdata str))
      then Inr (str\<lparr>sdata := take (nat i) (sdata str) @ bs @ drop (nat i + length bs) (sdata str)\<rparr>)
      else Inl Overrun)"

definition resetStringInfo :: "StringInfoData \<Rightarrow> sinfo_error + StringInfoData" where
  "resetStringInfo str = result_bind (store 0 [0] str) (\<lambda>str. Inr (str\<lparr>len := 0, cursor := 0\<rparr>))"

definition initStringInfo :: "sinfo_error + StringInfoData" where
  "initStringInfo =
     (let sz = 1024
      in resetStringInfo \<lparr>sdata = replicate (nat sz) 0, len = 0, maxlen = sz, cursor = 0\<rparr>)"

definition initStringInfoOfSize :: "int \<Rightarrow> sinfo_error + StringInfoData" where
  "initStringInfoOfSize sz =
     result_bind (store 0 [0] \<lparr>sdata = replicate (nat sz) 0, len = 0, maxlen = sz, cursor = 0\<rparr>)
       (\<lambda>str. Inr (str\<lparr>cursor := 0\<rparr>))"

partial_function (option) enlarge_loop :: "int \<Rightarrow> int \<Rightarrow> int option" where
  "enlarge_loop needed newlen = (if needed > newlen then enlarge_loop needed (2 * newlen) else Some newlen)"

definition repalloc :: "bytes \<Rightarrow> int \<Rightarrow> bytes" where
  "repalloc bs sz = take (nat sz) bs @ replicate (nat sz - length bs) 0"

definition enlargeStringInfo :: "StringInfoData \<Rightarrow> int \<Rightarrow> sinfo_error + StringInfoData" where
  "enlargeStringInfo str needed =
     (if needed < 0 then Inl (InvalidEnlargement needed)
      else if word_of_int needed \<ge> MaxAllocSize - word_of_int (len str) then Inl OutOfMemory
      else (let needed = needed + len str + 1
            in if needed \<le> maxlen str then Inr str
               else (case enlarge_loop needed (2 * maxlen str) of
                       None \<Rightarrow> Inl NoReturn
                     | Some newlen \<Rightarrow>
                         (let newlen = (if newlen \<ge> uint MaxAllocSize then uint MaxAllocSize - 1 else newlen)
                          in Inr (str\<lparr>sdata := repalloc (sdata str) newlen, maxlen := newlen\<rparr>)))))"

definition appendBinaryStringInfo :: "StringInfoData \<Rightarrow> bytes \<Rightarrow> sinfo_error + StringInfoData" where
  "appendBinaryStringInfo str bs =
     result_bind (enlargeStringInfo str (int (length bs))) (\<lambda>str.
     result_bind (store (len str) bs str) (\<lambda>str.
       let str = str\<lparr>len := len str + int (length bs)\<rparr> in store (len str) [0] str))"

text \<open>A C string is the bytes before the terminating null.\<close>

definition appendStringInfoString :: "StringInfoData \<Rightarrow> bytes \<Rightarrow> sinfo_error + StringInfoData" where
  "appendStringInfoString str s = appendBinaryStringInfo str s"

definition appendStringInfoChar :: "StringInfoData \<Rightarrow> uint8 \<Rightarrow> sinfo_error + StringInfoData" where
  "appendStringInfoChar str ch =
     result_bind (if len str + 1 \<ge> maxlen str then enlargeStringInfo str 1 else Inr str) (\<lambda>str.
     result_bind (store (len str) [ch] str) (\<lambda>str.
       let str = str\<lparr>len := len str + 1\<rparr> in store (len str) [0] str))"

definition appendStringInfoCharMacro :: "StringInfoData \<Rightarrow> uint8 \<Rightarrow> sinfo_error + StringInfoData" where
  "appendStringInfoCharMacro str ch =
     (if len str + 1 \<ge> maxlen str then appendStringInfoChar str ch
      else result_bind (store (len str) [ch] str) (\<lambda>str.
             let str = str\<lparr>len := len str + 1\<rparr> in store (len str) [0] str))"

fun append_spaces :: "nat \<Rightarrow> StringInfoData \<Rightarrow> sinfo_error + StringInfoData" where
  "append_spaces 0 str = Inr str"
| "append_spaces (Suc n) str =
     result_bind (store (len str) [0x20] str) (\<lambda>str. append_spaces n (str\<lparr>len := len str + 1\<rparr>))"

definition appendStringInfoSpaces :: "StringInfoData \<Rightarrow> int \<Rightarrow> sinfo_error + StringInfoData" where
  "appendStringInfoSpaces str cnt =
     (if cnt > 0
      then result_bind (enlargeStringInfo str cnt) (\<lambda>str.
           result_bind (append_spaces (nat cnt) str) (\<lambda>str. store (len str) [0] str))
      else Inr str)"

definition truncateStringInfo :: "StringInfoData \<Rightarrow> int \<Rightarrow> sinfo_error + StringInfoData" where
  "truncateStringInfo str nchars =
     (if len str > nchars then (let str = str\<lparr>len := nchars\<rparr> in store nchars [0] str) else Inr str)"

text \<open>
  \<^verbatim>\<open>vsnprintf\<close> with room for \<open>avail\<close> bytes stores a prefix of its text, ended by a null, and returns
  the length of the whole text.
\<close>

definition appendStringInfoVA :: "StringInfoData \<Rightarrow> bytes \<Rightarrow> sinfo_error + bool \<times> StringInfoData" where
  "appendStringInfoVA str tx =
     (let avail = maxlen str - len str - 1
      in if avail < 16 then Inr (False, str)
         else result_bind (store (len str) (take (nat (avail - 1)) tx @ [0]) str) (\<lambda>str.
                let nprinted = int (length tx)
                in if nprinted \<ge> 0 \<and> nprinted < avail - 1
                   then Inr (True, str\<lparr>len := len str + nprinted\<rparr>)
                   else result_bind (store (len str) [0] str) (\<lambda>str. Inr (False, str))))"

partial_function (option) appendStringInfo :: "StringInfoData \<Rightarrow> bytes \<Rightarrow> (sinfo_error + StringInfoData) option" where
  "appendStringInfo str tx = (case appendStringInfoVA str tx of
     Inl e \<Rightarrow> Some (Inl e)
   | Inr (success, str) \<Rightarrow>
       if success then Some (Inr str)
       else (case enlargeStringInfo str (maxlen str) of
               Inl e \<Rightarrow> Some (Inl e)
             | Inr str \<Rightarrow> appendStringInfo str tx))"


subsection \<open>The invariant\<close>

definition contents :: "StringInfoData \<Rightarrow> bytes" where
  "contents str = take (nat (len str)) (sdata str)"

definition sinfo_ok :: "StringInfoData \<Rightarrow> bool" where
  "sinfo_ok str \<longleftrightarrow> int (length (sdata str)) = maxlen str \<and> 0 \<le> len str \<and> len str < maxlen str \<and>
     maxlen str < uint MaxAllocSize \<and> sdata str ! nat (len str) = 0"


lemma MaxAllocSize_uint [simp]: "uint MaxAllocSize = 1073741823"
  by (simp add: MaxAllocSize_def)

text \<open>The guard on the size, in the arithmetic of \<^verbatim>\<open>Size\<close>.\<close>

lemma enlarge_guard:
  assumes "0 \<le> n" "n < 2 ^ 31" "0 \<le> l" "l < 1073741823"
  shows "(word_of_int n \<ge> MaxAllocSize - word_of_int l) = (n + l \<ge> 1073741823)"
proof -
  have "uint (MaxAllocSize - word_of_int l) = 1073741823 - l"
    using assms by (simp add: MaxAllocSize_def uint_word_ariths word_of_int_inverse unsigned_of_int take_bit_int_eq_self)
  moreover have "uint (word_of_int n :: uint64) = n" using assms by (simp add: unsigned_of_int take_bit_int_eq_self)
  ultimately show ?thesis by (simp add: word_le_def) linarith
qed

lemma enlarge_loop_returns:
  assumes "0 < newlen"
  shows "\<exists>n. enlarge_loop needed newlen = Some n \<and> needed \<le> n \<and> newlen \<le> n \<and> (n = newlen \<or> n < 2 * needed)"
  using assms
proof (induction "nat (needed - newlen)" arbitrary: newlen rule: less_induct)
  case less
  show ?case
  proof (cases "needed > newlen")
    case True
    then have "nat (needed - 2 * newlen) < nat (needed - newlen)" "0 < 2 * newlen" using less.prems by auto
    from less.hyps[OF this] obtain n where "enlarge_loop needed (2 * newlen) = Some n" "needed \<le> n" "2 * newlen \<le> n"
      "n = 2 * newlen \<or> n < 2 * needed" by blast
    then show ?thesis using True less.prems by (subst enlarge_loop.simps) auto
  next
    case False
    then show ?thesis by (subst enlarge_loop.simps) simp
  qed
qed

lemma store_ok: "0 \<le> i \<Longrightarrow> i + int (length bs) \<le> int (length (sdata str)) \<Longrightarrow>
    store i bs str = Inr (str\<lparr>sdata := take (nat i) (sdata str) @ bs @ drop (nat i + length bs) (sdata str)\<rparr>)"
  by (simp add: store_def)

lemma length_repalloc [simp]: "0 \<le> n \<Longrightarrow> length (repalloc bs n) = nat n"
  by (simp add: repalloc_def)

lemma take_repalloc: "k \<le> length bs \<Longrightarrow> k \<le> nat n \<Longrightarrow> take k (repalloc bs n) = take k bs"
  by (simp add: repalloc_def min_def)

lemma nth_repalloc: "k < length bs \<Longrightarrow> k < nat n \<Longrightarrow> repalloc bs n ! k = bs ! k"
  by (simp add: repalloc_def nth_append)

lemma enlarge_ok:
  assumes "sinfo_ok str" "0 \<le> needed" "len str + needed + 1 < 1073741823"
  shows "\<exists>str'. enlargeStringInfo str needed = Inr str' \<and> sinfo_ok str' \<and> contents str' = contents str \<and>
    len str' = len str \<and> cursor str' = cursor str \<and> len str + needed < maxlen str'"
proof -
  have str: "int (length (sdata str)) = maxlen str" "0 \<le> len str" "len str < maxlen str" "maxlen str < 1073741823"
    "sdata str ! nat (len str) = 0" using assms(1) by (simp_all add: sinfo_ok_def)
  have guard: "\<not> (word_of_int needed \<ge> MaxAllocSize - word_of_int (len str))"
    using enlarge_guard[of needed "len str"] assms(2,3) str by auto
  show ?thesis
  proof (cases "needed + len str + 1 \<le> maxlen str")
    case True
    then show ?thesis using assms(1,2) guard by (auto simp: enlargeStringInfo_def)
  next
    case False
    obtain n where n: "enlarge_loop (needed + len str + 1) (2 * maxlen str) = Some n" "needed + len str + 1 \<le> n" "2 * maxlen str \<le> n"
      using enlarge_loop_returns[of "2 * maxlen str" "needed + len str + 1"] str by auto
    define m where "m = (if n \<ge> 1073741823 then 1073741822 else n)"
    have m: "needed + len str + 1 \<le> m" "maxlen str \<le> m" "m < 1073741823"
      using n str assms(3) by (auto simp: m_def)
    have "enlargeStringInfo str needed = Inr (str\<lparr>sdata := repalloc (sdata str) m, maxlen := m\<rparr>)"
      using False guard n assms(2) by (auto simp: enlargeStringInfo_def m_def Let_def)
    moreover have "sinfo_ok (str\<lparr>sdata := repalloc (sdata str) m, maxlen := m\<rparr>)"
      using str m by (simp add: sinfo_ok_def nth_repalloc)
    moreover have "take (nat (len str)) (repalloc (sdata str) m) = take (nat (len str)) (sdata str)"
      using str m by (intro take_repalloc) auto
    ultimately show ?thesis using m by (simp add: contents_def)
  qed
qed

lemma stored:
  assumes "0 \<le> len str" "len str + int (length bs) < int (length (sdata str))"
  shows "\<exists>str'. result_bind (store (len str) bs str) (\<lambda>str. store (len str + int (length bs)) [0] (str\<lparr>len := len str + int (length bs)\<rparr>)) = Inr str' \<and>
    contents str' = contents str @ bs \<and> len str' = len str + int (length bs) \<and> maxlen str' = maxlen str \<and> cursor str' = cursor str \<and>
    length (sdata str') = length (sdata str) \<and> sdata str' ! nat (len str') = 0"
proof -
  define k where "k = nat (len str)"
  have k: "len str = int k" "k + length bs < length (sdata str)" using assms by (auto simp: k_def)
  let ?d = "take k (sdata str) @ bs @ drop (k + length bs) (sdata str)"
  have "store (len str) bs str = Inr (str\<lparr>sdata := ?d\<rparr>)" using k by (simp add: store_def)
  moreover have "store (len str + int (length bs)) [0] (str\<lparr>sdata := ?d, len := len str + int (length bs)\<rparr>) =
     Inr (str\<lparr>sdata := take (k + length bs) ?d @ [0] @ drop (k + length bs + 1) ?d, len := len str + int (length bs)\<rparr>)"
    using k by (simp add: store_def nat_add_distrib)
  moreover have "take (k + length bs) ?d = take k (sdata str) @ bs" "length ?d = length (sdata str)" using k by simp_all
  ultimately show ?thesis using k by (simp add: contents_def nat_add_distrib nth_append del: append_assoc)
qed

lemma append_ok:
  assumes "sinfo_ok str" "len str + int (length bs) + 1 < 1073741823"
  shows "\<exists>str'. appendBinaryStringInfo str bs = Inr str' \<and> sinfo_ok str' \<and> contents str' = contents str @ bs \<and>
    len str' = len str + int (length bs) \<and> cursor str' = cursor str"
proof -
  obtain s where s: "enlargeStringInfo str (int (length bs)) = Inr s" "sinfo_ok s" "contents s = contents str" "len s = len str"
    "cursor s = cursor str" "len str + int (length bs) < maxlen s"
    using enlarge_ok[OF assms(1), of "int (length bs)"] assms(2) by auto
  then show ?thesis using stored[of s bs] by (auto simp: appendBinaryStringInfo_def Let_def sinfo_ok_def)
qed


text \<open>The other ways to append agree with \<^verbatim>\<open>appendBinaryStringInfo\<close>.\<close>

lemma enlarge_enough:
  assumes "sinfo_ok str" "0 \<le> needed" "needed + len str + 1 \<le> maxlen str"
  shows "enlargeStringInfo str needed = Inr str"
proof -
  have "\<not> (word_of_int needed \<ge> MaxAllocSize - word_of_int (len str))"
    using enlarge_guard[of needed "len str"] assms by (auto simp: sinfo_ok_def)
  then show ?thesis using assms by (simp add: enlargeStringInfo_def)
qed

lemma append_char: "sinfo_ok str \<Longrightarrow> appendStringInfoChar str ch = appendBinaryStringInfo str [ch]"
  using enlarge_enough[of str 1] by (auto simp: appendStringInfoChar_def appendBinaryStringInfo_def)

lemma append_char_macro: "sinfo_ok str \<Longrightarrow> appendStringInfoCharMacro str ch = appendBinaryStringInfo str [ch]"
  using append_char[of str ch] enlarge_enough[of str 1]
  by (auto simp: appendStringInfoCharMacro_def appendBinaryStringInfo_def)

lemma append_spaces_store:
  assumes "0 \<le> len str" "len str + int n \<le> int (length (sdata str))"
  shows "append_spaces n str = result_bind (store (len str) (replicate n 0x20) str) (\<lambda>str. Inr (str\<lparr>len := len str + int n\<rparr>))"
  using assms
proof (induction n arbitrary: str)
  case (Suc n)
  define k where "k = nat (len str)"
  have k: "len str = int k" "k + Suc n \<le> length (sdata str)" using Suc.prems by (auto simp: k_def)
  let ?s = "str\<lparr>sdata := take k (sdata str) @ [0x20] @ drop (k + 1) (sdata str), len := len str + 1\<rparr>"
  have "append_spaces (Suc n) str = append_spaces n ?s" using k by (simp add: store_def)
  also have "\<dots> = result_bind (store (len ?s) (replicate n 0x20) ?s) (\<lambda>str. Inr (str\<lparr>len := len str + int n\<rparr>))"
    using k by (intro Suc.IH) auto
  also have "\<dots> = result_bind (store (len str) (replicate (Suc n) 0x20) str) (\<lambda>str. Inr (str\<lparr>len := len str + int (Suc n)\<rparr>))"
    using k by (simp add: store_def nat_add_distrib add.commute)
  finally show ?case .
qed (simp add: store_def)

lemma append_spaces:
  assumes "sinfo_ok str" "len str + n + 1 < 1073741823"
  shows "appendStringInfoSpaces str n = (if n > 0 then appendBinaryStringInfo str (replicate (nat n) 0x20) else Inr str)"
proof (cases "n > 0")
  case True
  obtain s where s: "enlargeStringInfo str n = Inr s" "sinfo_ok s" "len s = len str" "len str + n < maxlen s"
    using enlarge_ok[OF assms(1), of n] assms(2) True by auto
  then have "append_spaces (nat n) s = result_bind (store (len s) (replicate (nat n) 0x20) s) (\<lambda>str. Inr (str\<lparr>len := len str + n\<rparr>))"
    using append_spaces_store[of s "nat n"] True by (simp add: sinfo_ok_def)
  then show ?thesis using s True
    by (cases "store (len s) (replicate (nat n) 0x20) s") (simp_all add: appendStringInfoSpaces_def appendBinaryStringInfo_def)
qed (simp add: appendStringInfoSpaces_def)

lemma truncate_ok:
  assumes "sinfo_ok str" "0 \<le> n"
  shows "\<exists>str'. truncateStringInfo str n = Inr str' \<and> sinfo_ok str' \<and> contents str' = take (nat n) (contents str)"
proof (cases "len str > n")
  case True
  then have "truncateStringInfo str n = Inr (str\<lparr>sdata := take (nat n) (sdata str) @ [0] @ drop (nat n + 1) (sdata str), len := n\<rparr>)"
    using assms by (simp add: truncateStringInfo_def store_def sinfo_ok_def)
  then show ?thesis using True assms by (auto simp: sinfo_ok_def contents_def nth_append min_def)
next
  case False
  then have "min (nat n) (nat (len str)) = nat (len str)" by simp
  then show ?thesis using False assms by (simp add: truncateStringInfo_def contents_def)
qed

lemma append_too_long:
  assumes "sinfo_ok str" "len str + int (length bs) \<ge> 1073741823" "int (length bs) < 2 ^ 31"
  shows "appendBinaryStringInfo str bs = Inl OutOfMemory"
proof -
  have "word_of_int (int (length bs)) \<ge> MaxAllocSize - word_of_int (len str)"
    using enlarge_guard[of "int (length bs)" "len str"] assms by (auto simp: sinfo_ok_def)
  then show ?thesis by (simp add: appendBinaryStringInfo_def enlargeStringInfo_def)
qed

text \<open>
  The guard admits one length for which the terminating null does not fit: the size is cut to one
  byte less than what is needed.
\<close>

lemma append_overrun:
  assumes "sinfo_ok str" "len str + int (length bs) + 1 = 1073741823"
  shows "appendBinaryStringInfo str bs = Inl Overrun"
proof -
  have str: "int (length (sdata str)) = maxlen str" "0 \<le> len str" "len str < maxlen str" "maxlen str < 1073741823"
    using assms(1) by (simp_all add: sinfo_ok_def)
  have guard: "\<not> (word_of_int (int (length bs)) \<ge> MaxAllocSize - word_of_int (len str))"
    using enlarge_guard[of "int (length bs)" "len str"] assms(2) str by auto
  obtain n where n: "enlarge_loop 1073741823 (2 * maxlen str) = Some n" "1073741823 \<le> n"
    using enlarge_loop_returns[of "2 * maxlen str" 1073741823] str by auto
  let ?s = "str\<lparr>sdata := repalloc (sdata str) 1073741822, maxlen := 1073741822\<rparr>"
  have e: "enlargeStringInfo str (int (length bs)) = Inr ?s"
    using guard n str assms(2) by (simp add: enlargeStringInfo_def Let_def add.commute add.left_commute)
  have "length (sdata ?s) = 1073741822" by simp
  then show ?thesis
    using e str assms(2) unfolding appendBinaryStringInfo_def
    by (simp add: store_def Let_def nat_add_distrib)
qed


subsection \<open>Formatted text\<close>

lemma format_ok:
  assumes "sinfo_ok str"
  shows "\<exists>str'. appendStringInfoVA str tx = Inr (len str + int (length tx) + 2 < maxlen str \<and> len str + 17 \<le> maxlen str, str') \<and> sinfo_ok str' \<and>
    maxlen str' = maxlen str \<and>
    (if len str + int (length tx) + 2 < maxlen str \<and> len str + 17 \<le> maxlen str then contents str' = contents str @ tx
     else contents str' = contents str \<and> len str' = len str)"
proof -
  define k where "k = nat (len str)"
  define avail where "avail = maxlen str - len str - 1"
  have k: "len str = int k" "k < length (sdata str)" "int (length (sdata str)) = maxlen str" "maxlen str < 1073741823" "sdata str ! k = 0"
    using assms by (auto simp: k_def sinfo_ok_def)
  let ?t = "take (nat (avail - 1)) tx @ [0]"
  let ?d = "take k (sdata str) @ ?t @ drop (k + length ?t) (sdata str)"
  show ?thesis
  proof (cases "avail < 16")
    case True
    then show ?thesis using assms by (simp add: appendStringInfoVA_def avail_def)
  next
    case False
    have fits: "k + length ?t \<le> length (sdata str)" using False k by (auto simp: avail_def)
    have st: "store (len str) ?t str = Inr (str\<lparr>sdata := ?d\<rparr>)" using fits k(1) by (simp add: store_def)
    have d: "length ?d = length (sdata str)" "take k ?d = take k (sdata str)" using fits k(2) by (auto simp: min_def)
    show ?thesis
    proof (cases "int (length tx) < avail - 1")
      case True
      then have t: "?t = tx @ [0]" by simp
      have "sinfo_ok (str\<lparr>sdata := ?d, len := len str + int (length tx)\<rparr>)"
        using True k d(1) unfolding t by (auto simp: sinfo_ok_def avail_def nat_add_distrib nth_append)
      moreover have "contents (str\<lparr>sdata := ?d, len := len str + int (length tx)\<rparr>) = contents str @ tx"
        using k unfolding t by (simp add: contents_def nat_add_distrib)
      ultimately show ?thesis using True False st by (simp add: appendStringInfoVA_def Let_def flip: avail_def) (simp add: avail_def)
    next
      case long: False
      define D where "D = ?d"
      have D: "length D = length (sdata str)" "take k D = take k (sdata str)" using d by (simp_all only: D_def)
      let ?e = "take k D @ [0] @ drop (k + 1) D"
      have "store (len str) [0] (str\<lparr>sdata := D\<rparr>) = Inr (str\<lparr>sdata := ?e\<rparr>)" using k D(1) by (simp add: store_def)
      then have "appendStringInfoVA str tx = Inr (False, str\<lparr>sdata := ?e\<rparr>)"
        using False long st by (simp add: appendStringInfoVA_def Let_def D_def flip: avail_def)
      moreover have "sinfo_ok (str\<lparr>sdata := ?e\<rparr>)" using k D(1) by (simp add: sinfo_ok_def nth_append)
      moreover have "contents (str\<lparr>sdata := ?e\<rparr>) = contents str" using k D by (simp add: contents_def)
      ultimately show ?thesis using long by (auto simp: avail_def)
    qed
  qed
qed


lemma enlarge_double:
  assumes "sinfo_ok str" "len str + maxlen str < 1073741823"
  shows "\<exists>str'. enlargeStringInfo str (maxlen str) = Inr str' \<and> sinfo_ok str' \<and> contents str' = contents str \<and>
    len str' = len str \<and> maxlen str' = min (max (2 * maxlen str) (maxlen str + 1)) 1073741822"
proof -
  have str: "int (length (sdata str)) = maxlen str" "0 \<le> len str" "len str < maxlen str" "maxlen str < 1073741823"
    "sdata str ! nat (len str) = 0" using assms(1) by (simp_all add: sinfo_ok_def)
  have guard: "\<not> (word_of_int (maxlen str) \<ge> MaxAllocSize - word_of_int (len str))"
    using enlarge_guard[of "maxlen str" "len str"] assms(2) str by auto
  have loop: "enlarge_loop (maxlen str + len str + 1) (2 * maxlen str) = Some (2 * maxlen str)"
    using str by (subst enlarge_loop.simps) simp
  define m where "m = min (2 * maxlen str) 1073741822"
  have "enlargeStringInfo str (maxlen str) = Inr (str\<lparr>sdata := repalloc (sdata str) m, maxlen := m\<rparr>)"
    using str guard loop by (auto simp: enlargeStringInfo_def Let_def m_def min_def)
  moreover have m: "maxlen str \<le> m" "m < 1073741823" using str by (auto simp: m_def)
  then have "sinfo_ok (str\<lparr>sdata := repalloc (sdata str) m, maxlen := m\<rparr>)"
    using str by (simp add: sinfo_ok_def nth_repalloc)
  moreover have "take (nat (len str)) (repalloc (sdata str) m) = take (nat (len str)) (sdata str)"
    using str m by (intro take_repalloc) auto
  ultimately show ?thesis using str by (simp add: contents_def m_def)
qed

lemma enlarge_double_fails:
  assumes "sinfo_ok str" "len str + maxlen str \<ge> 1073741823"
  shows "enlargeStringInfo str (maxlen str) = Inl OutOfMemory"
  using enlarge_guard[of "maxlen str" "len str"] assms by (auto simp: enlargeStringInfo_def sinfo_ok_def)

lemma append_format_returns:
  assumes "sinfo_ok str" "0 < len str \<or> int (length tx) < 1073741820"
  shows "\<exists>r. appendStringInfo str tx = Some r \<and>
    (case r of Inl e \<Rightarrow> e = OutOfMemory | Inr str' \<Rightarrow> sinfo_ok str' \<and> contents str' = contents str @ tx)"
  using assms
proof (induction "nat (1073741823 - maxlen str)" arbitrary: str rule: less_induct)
  case less
  obtain s where s: "appendStringInfoVA str tx = Inr (len str + int (length tx) + 2 < maxlen str \<and> len str + 17 \<le> maxlen str, s)" "sinfo_ok s" "maxlen s = maxlen str"
    "if len str + int (length tx) + 2 < maxlen str \<and> len str + 17 \<le> maxlen str then contents s = contents str @ tx
     else contents s = contents str \<and> len s = len str" using format_ok[OF less.prems(1), of tx] by blast
  show ?case
  proof (cases "len str + int (length tx) + 2 < maxlen str \<and> len str + 17 \<le> maxlen str")
    case True
    then show ?thesis using s by (subst appendStringInfo.simps) auto
  next
    case False
    then have c: "contents s = contents str" "len s = len str" using s(4) by auto
    show ?thesis
    proof (cases "len s + maxlen s < 1073741823")
      case True
      obtain t where t: "enlargeStringInfo s (maxlen s) = Inr t" "sinfo_ok t" "contents t = contents s" "len t = len s"
        "maxlen t = min (max (2 * maxlen s) (maxlen s + 1)) 1073741822" using enlarge_double[OF s(2) True] by blast
      have "maxlen s < maxlen t" using t(5) s(2,3) False less.prems True c(2) by (auto simp: sinfo_ok_def)
      then have "nat (1073741823 - maxlen t) < nat (1073741823 - maxlen str)" using t(2) s(3) by (auto simp: sinfo_ok_def)
      from less.hyps[OF this t(2)] have "\<exists>r. appendStringInfo t tx = Some r \<and>
        (case r of Inl e \<Rightarrow> e = OutOfMemory | Inr str' \<Rightarrow> sinfo_ok str' \<and> contents str' = contents t @ tx)" using less.prems(2) t(4) c(2) by auto
      moreover have "appendStringInfo str tx = appendStringInfo t tx" using s(1) False t(1) by (subst appendStringInfo.simps) auto
      ultimately show ?thesis by (simp only: t(3) c(1))
    next
      case long: False
      then show ?thesis using s(1) False enlarge_double_fails[OF s(2)] by (subst appendStringInfo.simps) auto
    qed
  qed
qed

text \<open>An empty buffer never grows to hold a text of the largest size, and the loop goes on.\<close>

lemma append_format_diverges:
  assumes "appendStringInfo str tx = Some r"
  shows "\<not> (sinfo_ok str \<and> len str = 0 \<and> int (length tx) \<ge> 1073741820)"
proof (rule appendStringInfo.raw_induct[where P = "\<lambda>str tx r. \<not> (sinfo_ok str \<and> len str = 0 \<and> int (length tx) \<ge> 1073741820)", OF _ assms], goal_cases)
  case (1 app str tx r)
  show ?case
  proof
    assume a: "sinfo_ok str \<and> len str = 0 \<and> int (length tx) \<ge> 1073741820"
    then have no: "\<not> (len str + int (length tx) + 2 < maxlen str \<and> len str + 17 \<le> maxlen str)" by (auto simp: sinfo_ok_def)
    obtain s where s: "appendStringInfoVA str tx = Inr (False, s)" "sinfo_ok s" "maxlen s = maxlen str" "len s = 0"
      using format_ok[of str tx] a no by auto
    then have "len s + maxlen s < 1073741823" by (simp add: sinfo_ok_def)
    then obtain t where t: "enlargeStringInfo s (maxlen s) = Inr t" "sinfo_ok t" "len t = 0" using enlarge_double[OF s(2)] s(4) by auto
    then have "app t tx = Some r" using 1(2) s by simp
    then show False using 1(1) t a by blast
  qed
qed


subsection \<open>Buffers\<close>

text \<open>What the writers of messages rely on: an append succeeds within a limit and adds its bytes.\<close>

locale byte_buffer =
  fixes ok :: "'b \<Rightarrow> bool" and bytes_of :: "'b \<Rightarrow> bytes" and app :: "'b \<Rightarrow> bytes \<Rightarrow> 'e + 'b" and limit :: nat
  assumes app_ok: "ok s \<Longrightarrow> length (bytes_of s) + length bs < limit \<Longrightarrow>
    \<exists>s'. app s bs = Inr s' \<and> ok s' \<and> bytes_of s' = bytes_of s @ bs"
begin

text \<open>A sequence of appends.\<close>

lemma app_all:
  assumes "ok s" "length (bytes_of s) + length (concat bss) < limit"
  shows "\<exists>s'. fold (\<lambda>bs r. result_bind r (\<lambda>s. app s bs)) bss (Inr s) = Inr s' \<and> ok s' \<and> bytes_of s' = bytes_of s @ concat bss"
  using assms
proof (induction bss arbitrary: s)
  case (Cons bs bss)
  obtain t where t: "app s bs = Inr t" "ok t" "bytes_of t = bytes_of s @ bs" using app_ok[OF Cons.prems(1), of bs] Cons.prems(2) by auto
  then show ?case using Cons.IH[OF t(2)] Cons.prems(2) by auto
qed simp

end

lemma len_contents: "sinfo_ok str \<Longrightarrow> len str = int (length (contents str))"
  by (auto simp: sinfo_ok_def contents_def)

interpretation sinfo: byte_buffer sinfo_ok contents appendBinaryStringInfo 1073741822
proof
  fix s :: StringInfoData and bs :: bytes assume "sinfo_ok s" "length (contents s) + length bs < 1073741822"
  then show "\<exists>s'. appendBinaryStringInfo s bs = Inr s' \<and> sinfo_ok s' \<and> contents s' = contents s @ bs"
    using append_ok[of s bs] len_contents[of s] by auto
qed


subsection \<open>Properties\<close>

text \<open>
  C33: An append to a well-formed buffer, by the size of the result: below the limit of an allocation it succeeds,
  keeps the buffer well formed, and adds exactly the bytes; from the limit on it reports that memory is
  exhausted.  One size is between them: when the result with its terminating null has exactly
  \<^verbatim>\<open>MaxAllocSize\<close> bytes the test accepts it, the buffer is made one byte too small, and the null is
  written behind it.
\<close>

theorem append_by_size:
  assumes "sinfo_ok str" "int (length bs) < 2 ^ 31"
  shows "(len str + int (length bs) + 1 < uint MaxAllocSize \<longrightarrow>
      (\<exists>str'. appendBinaryStringInfo str bs = Inr str' \<and> sinfo_ok str' \<and> contents str' = contents str @ bs \<and> cursor str' = cursor str)) \<and>
    (len str + int (length bs) + 1 = uint MaxAllocSize \<longrightarrow> appendBinaryStringInfo str bs = Inl Overrun) \<and>
    (len str + int (length bs) + 1 > uint MaxAllocSize \<longrightarrow> appendBinaryStringInfo str bs = Inl OutOfMemory)"
  using append_ok[OF assms(1), of bs] append_overrun[OF assms(1), of bs] append_too_long[OF assms(1), of bs] assms(2) by auto

abbreviation empty_buffer :: StringInfoData where
  "empty_buffer \<equiv> \<lparr>sdata = replicate 1024 0, len = 0, maxlen = 1024, cursor = 0\<rparr>"

lemma empty_buffer_ok: "sinfo_ok empty_buffer"
  by (simp add: sinfo_ok_def)

theorem append_by_size_witness:
  "appendBinaryStringInfo empty_buffer (replicate 1073741822 1) = Inl Overrun"
proof -
  define n :: nat where "n = 1073741822"
  have "int (length (replicate n (1 :: uint8))) < 2 ^ 31" "len empty_buffer + int (length (replicate n (1 :: uint8))) + 1 = uint MaxAllocSize"
    by (simp_all add: n_def)
  then show ?thesis using append_by_size[OF empty_buffer_ok, of "replicate n 1"] unfolding n_def by blast
qed

text \<open>
  C34: A formatted append returns unless the buffer is empty and the text is at least three bytes short of the
  limit or longer: it then appends the whole text or reports that memory is exhausted.  In the remaining case it
  never returns, because the buffer cannot grow any more and the request to double it is still accepted.
\<close>

theorem append_format_by_size:
  assumes "sinfo_ok str"
  shows "if 0 < len str \<or> int (length tx) < uint MaxAllocSize - 3
    then \<exists>r. appendStringInfo str tx = Some r \<and>
      (case r of Inl e \<Rightarrow> e = OutOfMemory | Inr str' \<Rightarrow> sinfo_ok str' \<and> contents str' = contents str @ tx)
    else appendStringInfo str tx = None"
proof (cases "0 < len str \<or> int (length tx) < uint MaxAllocSize - 3")
  case True
  then show ?thesis using append_format_returns[OF assms, of tx] by simp
next
  case False
  then have "len str = 0" "int (length tx) \<ge> 1073741820" using assms by (simp_all add: sinfo_ok_def)
  then have "appendStringInfo str tx = None"
    using append_format_diverges[of str tx] assms by (cases "appendStringInfo str tx") blast+
  then show ?thesis using False by simp
qed

theorem append_format_by_size_witness:
  "appendStringInfo empty_buffer (replicate 1073741820 0x61) = None"
proof -
  define n :: nat where "n = 1073741820"
  have "\<not> (0 < len empty_buffer \<or> int (length (replicate n (0x61 :: uint8))) < uint MaxAllocSize - 3)"
    by (simp add: n_def)
  then show ?thesis using append_format_by_size[OF empty_buffer_ok, of "replicate n 0x61"] unfolding n_def by (simp only: if_False)
qed

end
