(* ===== verification/Pq_Format.thy ===== *)
theory Pq_Format
  imports String_Info
begin

text \<open>
  Messages of the frontend/backend protocol: what the server writes (\<^verbatim>\<open>libpq/pqformat.c\<close>, with
  \<^verbatim>\<open>pq_putmessage\<close> of \<^verbatim>\<open>libpq/pqcomm.c\<close>), and what it reads from a message.

  The conversion between the encodings of server and client is an argument of the operations on
  text; it returns no string when there is nothing to convert, where the source returns its
  argument.  Bytes that are sent are appended to the output of the port.
\<close>


subsection \<open>Writing\<close>

datatype pq_error =
  StringInfoError sinfo_error | UnsupportedIntegerSize int | NoDataLeft | InsufficientData | InvalidString | InvalidMessageFormat

definition lift_sinfo :: "sinfo_error + 'a \<Rightarrow> pq_error + 'a" where
  "lift_sinfo r = (case r of Inl e \<Rightarrow> Inl (StringInfoError e) | Inr x \<Rightarrow> Inr x)"

text \<open>The bytes of a word in network order.\<close>

definition htons :: "uint16 \<Rightarrow> bytes" where
  "htons w = [ucast (drop_bit 8 w), ucast w]"

definition htonl :: "uint32 \<Rightarrow> bytes" where
  "htonl w = [ucast (drop_bit 24 w), ucast (drop_bit 16 w), ucast (drop_bit 8 w), ucast w]"

definition pq_beginmessage :: "uint8 \<Rightarrow> pq_error + StringInfoData" where
  "pq_beginmessage msgtype =
     result_bind (lift_sinfo initStringInfo) (\<lambda>buf. Inr (buf\<lparr>cursor := uint msgtype\<rparr>))"

definition pq_sendbyte :: "StringInfoData \<Rightarrow> int \<Rightarrow> pq_error + StringInfoData" where
  "pq_sendbyte buf byt = lift_sinfo (appendStringInfoCharMacro buf (word_of_int byt))"

definition pq_sendbytes :: "StringInfoData \<Rightarrow> bytes \<Rightarrow> pq_error + StringInfoData" where
  "pq_sendbytes buf data = lift_sinfo (appendBinaryStringInfo buf data)"

definition pq_sendint :: "StringInfoData \<Rightarrow> int \<Rightarrow> int \<Rightarrow> pq_error + StringInfoData" where
  "pq_sendint buf i b =
     (if b = 1 then lift_sinfo (appendBinaryStringInfo buf [word_of_int i])
      else if b = 2 then lift_sinfo (appendBinaryStringInfo buf (htons (word_of_int i)))
      else if b = 4 then lift_sinfo (appendBinaryStringInfo buf (htonl (word_of_int i)))
      else Inl (UnsupportedIntegerSize b))"

definition pq_sendint64 :: "StringInfoData \<Rightarrow> 64 word \<Rightarrow> pq_error + StringInfoData" where
  "pq_sendint64 buf i =
     result_bind (lift_sinfo (appendBinaryStringInfo buf (htonl (ucast (signed_drop_bit 32 i))))) (\<lambda>buf.
       lift_sinfo (appendBinaryStringInfo buf (htonl (ucast i))))"

text \<open>A float is given by the bits of its representation.\<close>

definition pq_sendfloat4 :: "StringInfoData \<Rightarrow> uint32 \<Rightarrow> pq_error + StringInfoData" where
  "pq_sendfloat4 buf f = lift_sinfo (appendBinaryStringInfo buf (htonl f))"

definition pq_sendfloat8 :: "StringInfoData \<Rightarrow> 64 word \<Rightarrow> pq_error + StringInfoData" where
  "pq_sendfloat8 buf f = pq_sendint64 buf f"

text \<open>A conversion result is a C string.\<close>

definition converted :: "(bytes \<Rightarrow> bytes option) \<Rightarrow> bytes \<Rightarrow> bytes" where
  "converted conv str = (case conv str of None \<Rightarrow> str | Some p \<Rightarrow> takeWhile (\<lambda>c. c \<noteq> 0) p)"

definition pq_sendcountedtext :: "(bytes \<Rightarrow> bytes option) \<Rightarrow> StringInfoData \<Rightarrow> bytes \<Rightarrow> bool \<Rightarrow> pq_error + StringInfoData" where
  "pq_sendcountedtext pg_server_to_client buf str countincludesself =
     (let extra = (if countincludesself then 4 else 0); p = converted pg_server_to_client str
      in result_bind (pq_sendint buf (int (length p) + extra) 4) (\<lambda>buf. lift_sinfo (appendBinaryStringInfo buf p)))"

definition pq_sendtext :: "(bytes \<Rightarrow> bytes option) \<Rightarrow> StringInfoData \<Rightarrow> bytes \<Rightarrow> pq_error + StringInfoData" where
  "pq_sendtext pg_server_to_client buf str = lift_sinfo (appendBinaryStringInfo buf (converted pg_server_to_client str))"

definition pq_sendstring :: "(bytes \<Rightarrow> bytes option) \<Rightarrow> StringInfoData \<Rightarrow> bytes \<Rightarrow> pq_error + StringInfoData" where
  "pq_sendstring pg_server_to_client buf str = lift_sinfo (appendBinaryStringInfo buf (converted pg_server_to_client str @ [0]))"

fun pq_send_ascii_string :: "StringInfoData \<Rightarrow> bytes \<Rightarrow> pq_error + StringInfoData" where
  "pq_send_ascii_string buf [] = lift_sinfo (appendStringInfoChar buf 0)"
| "pq_send_ascii_string buf (ch # str) =
     result_bind (lift_sinfo (appendStringInfoCharMacro buf (if bit ch 7 then 0x3f else ch)))
       (\<lambda>buf. pq_send_ascii_string buf str)"

record pq_port =
  out :: bytes
  DoingCopyOut :: bool
  FrontendProtocolMajor :: int

text \<open>The result tells whether the message was accepted (0 in the source, \<^verbatim>\<open>EOF\<close> otherwise).\<close>

definition pq_putmessage :: "pq_port \<Rightarrow> uint8 \<Rightarrow> bytes \<Rightarrow> bool \<times> pq_port" where
  "pq_putmessage port msgtype s =
     (if DoingCopyOut port then (False, port)
      else (True, port\<lparr>out := out port @ (if msgtype \<noteq> 0 then [msgtype] else []) @
        (if FrontendProtocolMajor port \<ge> 3 then htonl (of_nat (length s) + 4) else []) @ s\<rparr>))"

definition pq_endmessage :: "pq_port \<Rightarrow> StringInfoData \<Rightarrow> pq_port" where
  "pq_endmessage port buf = snd (pq_putmessage port (word_of_int (cursor buf)) (contents buf))"

definition pq_puttextmessage :: "(bytes \<Rightarrow> bytes option) \<Rightarrow> pq_port \<Rightarrow> uint8 \<Rightarrow> bytes \<Rightarrow> pq_port" where
  "pq_puttextmessage pg_server_to_client port msgtype str =
     snd (pq_putmessage port msgtype (converted pg_server_to_client str @ [0]))"

definition pq_putemptymessage :: "pq_port \<Rightarrow> uint8 \<Rightarrow> pq_port" where
  "pq_putemptymessage port msgtype = snd (pq_putmessage port msgtype [])"


subsection \<open>Reading a message in the server\<close>

definition ntohs :: "bytes \<Rightarrow> uint16" where
  "ntohs bs = push_bit 8 (ucast (bs ! 0)) OR ucast (bs ! 1)"

definition ntohl :: "bytes \<Rightarrow> uint32" where
  "ntohl bs = push_bit 24 (ucast (bs ! 0)) OR push_bit 16 (ucast (bs ! 1)) OR push_bit 8 (ucast (bs ! 2)) OR ucast (bs ! 3)"

definition pq_getmsgbyte :: "StringInfoData \<Rightarrow> pq_error + int \<times> StringInfoData" where
  "pq_getmsgbyte msg =
     (if cursor msg \<ge> len msg then Inl NoDataLeft
      else Inr (uint (sdata msg ! nat (cursor msg)), msg\<lparr>cursor := cursor msg + 1\<rparr>))"

definition pq_copymsgbytes :: "StringInfoData \<Rightarrow> int \<Rightarrow> pq_error + bytes \<times> StringInfoData" where
  "pq_copymsgbytes msg datalen =
     (if datalen < 0 \<or> datalen > len msg - cursor msg then Inl InsufficientData
      else Inr (take (nat datalen) (drop (nat (cursor msg)) (sdata msg)), msg\<lparr>cursor := cursor msg + datalen\<rparr>))"

definition pq_getmsgbytes :: "StringInfoData \<Rightarrow> int \<Rightarrow> pq_error + bytes \<times> StringInfoData" where
  "pq_getmsgbytes msg datalen =
     (if datalen < 0 \<or> datalen > len msg - cursor msg then Inl InsufficientData
      else Inr (take (nat datalen) (drop (nat (cursor msg)) (sdata msg)), msg\<lparr>cursor := cursor msg + datalen\<rparr>))"

definition pq_getmsgint :: "int \<Rightarrow> StringInfoData \<Rightarrow> pq_error + uint32 \<times> StringInfoData" where
  "pq_getmsgint b msg =
     (if b = 1 then result_bind (pq_copymsgbytes msg 1) (\<lambda>(n8, msg). Inr (ucast (n8 ! 0), msg))
      else if b = 2 then result_bind (pq_copymsgbytes msg 2) (\<lambda>(n16, msg). Inr (ucast (ntohs n16), msg))
      else if b = 4 then result_bind (pq_copymsgbytes msg 4) (\<lambda>(n32, msg). Inr (ntohl n32, msg))
      else Inl (UnsupportedIntegerSize b))"

definition pq_getmsgint64 :: "StringInfoData \<Rightarrow> pq_error + 64 word \<times> StringInfoData" where
  "pq_getmsgint64 msg =
     result_bind (pq_copymsgbytes msg 4) (\<lambda>(h32, msg).
     result_bind (pq_copymsgbytes msg 4) (\<lambda>(l32, msg).
       Inr (push_bit 32 (ucast (ntohl h32)) OR ucast (ntohl l32), msg)))"

definition pq_getmsgfloat4 :: "StringInfoData \<Rightarrow> pq_error + uint32 \<times> StringInfoData" where
  "pq_getmsgfloat4 msg = pq_getmsgint 4 msg"

definition pq_getmsgfloat8 :: "StringInfoData \<Rightarrow> pq_error + 64 word \<times> StringInfoData" where
  "pq_getmsgfloat8 msg = pq_getmsgint64 msg"

definition pq_getmsgtext :: "(bytes \<Rightarrow> bytes option) \<Rightarrow> StringInfoData \<Rightarrow> int \<Rightarrow> pq_error + bytes \<times> StringInfoData" where
  "pq_getmsgtext pg_client_to_server msg rawbytes =
     (if rawbytes < 0 \<or> rawbytes > len msg - cursor msg then Inl InsufficientData
      else Inr (converted pg_client_to_server (take (nat rawbytes) (drop (nat (cursor msg)) (sdata msg))),
                msg\<lparr>cursor := cursor msg + rawbytes\<rparr>))"

definition strlen :: "bytes \<Rightarrow> int" where
  "strlen str = int (length (takeWhile (\<lambda>c. c \<noteq> 0) str))"

definition pq_getmsgstring :: "(bytes \<Rightarrow> bytes option) \<Rightarrow> StringInfoData \<Rightarrow> pq_error + bytes \<times> StringInfoData" where
  "pq_getmsgstring pg_client_to_server msg =
     (let str = drop (nat (cursor msg)) (sdata msg); slen = strlen str
      in if cursor msg + slen \<ge> len msg then Inl InvalidString
         else Inr (converted pg_client_to_server (take (nat slen) str), msg\<lparr>cursor := cursor msg + slen + 1\<rparr>))"

definition pq_getmsgend :: "StringInfoData \<Rightarrow> pq_error + unit" where
  "pq_getmsgend msg = (if cursor msg \<noteq> len msg then Inl InvalidMessageFormat else Inr ())"


text \<open>A number of items read one after the other.\<close>

fun read_many :: "nat \<Rightarrow> ('m \<Rightarrow> 'e + 'a \<times> 'm) \<Rightarrow> 'm \<Rightarrow> 'e + 'a list \<times> 'm" where
  "read_many 0 get m = Inr ([], m)"
| "read_many (Suc n) get m = result_bind (get m) (\<lambda>(x, m). result_bind (read_many n get m) (\<lambda>(xs, m). Inr (x # xs, m)))"


subsection \<open>Bytes of words\<close>

lemma ntohs_htons [simp]: "ntohs (htons w @ r) = w" "ntohs (htons w) = w"
proof -
  show "ntohs (htons w @ r) = w"
    by (rule bit_word_eqI) (auto simp: ntohs_def htons_def bit_simps)
  then show "ntohs (htons w) = w" by (simp add: ntohs_def htons_def)
qed

lemma ntohl_htonl [simp]: "ntohl (htonl w @ r) = w" "ntohl (htonl w) = w"
proof -
  show "ntohl (htonl w @ r) = w"
  proof (rule bit_word_eqI)
    fix n assume "n < LENGTH(32)"
    then consider "n < 8" | "8 \<le> n" "n < 16" | "16 \<le> n" "n < 24" | "24 \<le> n" "n < 32" by force
    then show "bit (ntohl (htonl w @ r)) n = bit w n"
      by cases (auto simp: ntohl_def htonl_def bit_simps)
  qed
  then show "ntohl (htonl w) = w" by (simp add: ntohl_def htonl_def)
qed

lemma length_hton [simp]: "length (htons h) = 2" "length (htonl w) = 4"
  by (simp_all add: htons_def htonl_def)

definition int64_bytes :: "64 word \<Rightarrow> bytes" where
  "int64_bytes i = htonl (ucast (signed_drop_bit 32 i)) @ htonl (ucast i)"

lemma int64_halves: "push_bit 32 (ucast (ucast (signed_drop_bit 32 i) :: uint32)) OR ucast (ucast i :: uint32) = (i :: 64 word)"
  by (rule bit_word_eqI) (auto simp: bit_simps bit_signed_drop_bit_iff)


subsection \<open>What is written\<close>

text \<open>An operation that sends bytes: it succeeds while the buffer has room, and adds them.\<close>

definition sends :: "(StringInfoData \<Rightarrow> pq_error + StringInfoData) \<Rightarrow> bytes \<Rightarrow> bool" where
  "sends f bs \<longleftrightarrow> (\<forall>s. sinfo_ok s \<longrightarrow> len s + int (length bs) + 1 < 1073741823 \<longrightarrow>
     (\<exists>s'. f s = Inr s' \<and> sinfo_ok s' \<and> contents s' = contents s @ bs \<and> len s' = len s + int (length bs) \<and> cursor s' = cursor s))"

named_theorems sends_intros

lemma lift_sinfo_Inr [simp]: "lift_sinfo (Inr x) = Inr x"
  by (simp add: lift_sinfo_def)

lemma sends_append: "(\<And>s. f s = lift_sinfo (appendBinaryStringInfo s bs)) \<Longrightarrow> sends f bs"
  unfolding sends_def using append_ok by fastforce

lemma sends_seq [sends_intros]:
  assumes "sends f a" "sends g b"
  shows "sends (\<lambda>s. result_bind (f s) g) (a @ b)"
  unfolding sends_def
proof (intro allI impI)
  fix s assume s: "sinfo_ok s" "len s + int (length (a @ b)) + 1 < 1073741823"
  have room: "len s + int (length a) + 1 < 1073741823" using s(2) by simp
  obtain t where t: "f s = Inr t" "sinfo_ok t" "contents t = contents s @ a" "len t = len s + int (length a)" "cursor t = cursor s"
    using assms(1) s(1) room unfolding sends_def by blast
  have "len t + int (length b) + 1 < 1073741823" using s(2) t(4) by simp
  then obtain u where "g t = Inr u" "sinfo_ok u" "contents u = contents t @ b" "len u = len t + int (length b)" "cursor u = cursor t"
    using assms(2) t(2) unfolding sends_def by blast
  then show "\<exists>s'. result_bind (f s) g = Inr s' \<and> sinfo_ok s' \<and> contents s' = contents s @ a @ b \<and> len s' = len s + int (length (a @ b)) \<and> cursor s' = cursor s"
    using t by simp
qed

lemma sends_int:
  shows sends_int1 [sends_intros]: "sends (\<lambda>s. pq_sendint s i 1) [word_of_int i]"
    and sends_int2 [sends_intros]: "sends (\<lambda>s. pq_sendint s i 2) (htons (word_of_int i))"
    and sends_int4 [sends_intros]: "sends (\<lambda>s. pq_sendint s i 4) (htonl (word_of_int i))"
  by (intro sends_append; simp add: pq_sendint_def)+

lemma sends_bytes [sends_intros]: "sends (\<lambda>s. pq_sendbytes s bs) bs"
  by (intro sends_append) (simp add: pq_sendbytes_def)

lemma sends_string [sends_intros]: "sends (\<lambda>s. pq_sendstring conv s str) (converted conv str @ [0])"
  by (intro sends_append) (simp add: pq_sendstring_def)

lemma sends_text [sends_intros]: "sends (\<lambda>s. pq_sendtext conv s str) (converted conv str)"
  by (intro sends_append) (simp add: pq_sendtext_def)

lemma sends_byte [sends_intros]: "sends (\<lambda>s. pq_sendbyte s i) [word_of_int i]"
  using append_char_macro append_ok unfolding sends_def pq_sendbyte_def by fastforce

lemma sends_int64 [sends_intros]: "sends (\<lambda>s. pq_sendint64 s i) (int64_bytes i)"
proof -
  have "sends (\<lambda>s. lift_sinfo (appendBinaryStringInfo s bs)) bs" for bs by (rule sends_append) (rule refl)
  from sends_seq[OF this this] show ?thesis by (simp add: pq_sendint64_def int64_bytes_def)
qed

lemma sends_countedtext [sends_intros]:
  "sends (\<lambda>s. pq_sendcountedtext conv s str self)
     (htonl (word_of_int (int (length (converted conv str)) + (if self then 4 else 0))) @ converted conv str)"
proof -
  have "sends (\<lambda>s. lift_sinfo (appendBinaryStringInfo s bs)) bs" for bs by (rule sends_append) (rule refl)
  from sends_seq[OF sends_int4[of "int (length (converted conv str)) + (if self then 4 else 0)"] this[of "converted conv str"]]
  show ?thesis unfolding pq_sendcountedtext_def Let_def .
qed

lemma sends_ascii [sends_intros]:
  "sends (\<lambda>s. pq_send_ascii_string s str) (map (\<lambda>ch. if bit ch 7 then 0x3f else ch) str @ [0])"
proof (induction str)
  case Nil
  show ?case using append_char append_ok unfolding sends_def by fastforce
next
  case (Cons ch str)
  have "sends (\<lambda>s. lift_sinfo (appendStringInfoCharMacro s c)) [c]" for c
    using append_char_macro append_ok unfolding sends_def by fastforce
  from sends_seq[OF this Cons.IH] show ?case by simp
qed


subsection \<open>What is read\<close>

text \<open>
  An input that is read from front to back: the bytes that are left and the step over some of
  them.  The server reads a message buffer and the client its connection in this way.
\<close>

locale input =
  fixes ok :: "'m \<Rightarrow> bool" and left :: "'m \<Rightarrow> bytes" and skip :: "nat \<Rightarrow> 'm \<Rightarrow> 'm"
  assumes skip_ok: "ok m \<Longrightarrow> n \<le> length (left m) \<Longrightarrow> ok (skip n m)"
    and skip_left: "ok m \<Longrightarrow> n \<le> length (left m) \<Longrightarrow> left (skip n m) = drop n (left m)"
    and skip_skip: "skip k (skip n m) = skip (n + k) m"
    and skip_0: "skip 0 m = m"

text \<open>A representation of values by bytes that a read operation inverts.\<close>

locale wire_format = input ok left skip
  for ok :: "'m \<Rightarrow> bool" and left :: "'m \<Rightarrow> bytes" and skip :: "nat \<Rightarrow> 'm \<Rightarrow> 'm" +
  fixes enc :: "'a \<Rightarrow> bytes" and valid :: "'a \<Rightarrow> bool" and get :: "'m \<Rightarrow> 'e + 'a \<times> 'm"
  assumes get_enc: "ok m \<Longrightarrow> valid x \<Longrightarrow> left m = enc x @ r \<Longrightarrow> get m = Inr (x, skip (length (enc x)) m)"
begin

lemma get_many:
  assumes "ok m" "list_all valid xs" "left m = concat (map enc xs) @ r"
  shows "read_many (length xs) get m = Inr (xs, skip (length (concat (map enc xs))) m)"
  using assms
proof (induction xs arbitrary: m)
  case Nil
  then show ?case by (simp add: skip_0)
next
  case (Cons x xs)
  let ?m = "skip (length (enc x)) m"
  have l: "left m = enc x @ concat (map enc xs) @ r" using Cons.prems by simp
  then have "get m = Inr (x, ?m)" "ok ?m" "left ?m = concat (map enc xs) @ r"
    using Cons.prems get_enc skip_ok[of m "length (enc x)"] skip_left[of m "length (enc x)"] by auto
  then show ?case using Cons.IH[of ?m] Cons.prems(2) by (simp add: skip_skip)
qed

end

text \<open>The message buffer of the server.\<close>

definition msg_ok :: "StringInfoData \<Rightarrow> bool" where
  "msg_ok m \<longleftrightarrow> sinfo_ok m \<and> 0 \<le> cursor m \<and> cursor m \<le> len m"

definition msg_left :: "StringInfoData \<Rightarrow> bytes" where
  "msg_left m = drop (nat (cursor m)) (contents m)"

definition msg_skip :: "nat \<Rightarrow> StringInfoData \<Rightarrow> StringInfoData" where
  "msg_skip n m = m\<lparr>cursor := cursor m + int n\<rparr>"

lemma length_msg_left: "msg_ok m \<Longrightarrow> int (length (msg_left m)) = len m - cursor m"
  using len_contents[of m] by (auto simp: msg_ok_def msg_left_def of_nat_diff)

interpretation msg: input msg_ok msg_left msg_skip
proof
  fix m :: StringInfoData and n k :: nat
  assume m: "msg_ok m" "n \<le> length (msg_left m)"
  then have "int n \<le> len m - cursor m" using length_msg_left[of m] by simp
  then show "msg_ok (msg_skip n m)" using m(1) by (simp add: msg_ok_def msg_skip_def sinfo_ok_def)
  show "msg_left (msg_skip n m) = drop n (msg_left m)" using m(1) by (simp add: msg_left_def msg_skip_def msg_ok_def nat_add_distrib contents_def add.commute)
qed (simp_all add: msg_skip_def)

lemma copy_left:
  assumes "msg_ok m" "msg_left m = bs @ r"
  shows "pq_copymsgbytes m (int (length bs)) = Inr (bs, msg_skip (length bs) m)"
proof -
  have l: "int (length bs + length r) = len m - cursor m" using length_msg_left[OF assms(1)] assms(2) by simp
  have "take (length bs) (drop (nat (cursor m)) (sdata m)) = take (length bs) (drop (nat (cursor m)) (contents m))"
    using l assms(1) by (simp add: contents_def drop_take msg_ok_def sinfo_ok_def min_def) linarith
  also have "\<dots> = bs" using assms(2) by (simp add: msg_left_def)
  finally show ?thesis using l by (simp add: pq_copymsgbytes_def msg_skip_def)
qed

lemma narrow_word:
  "uint x < 2 ^ 8 \<Longrightarrow> ucast (ucast x :: uint8) = x" "uint x < 2 ^ 16 \<Longrightarrow> ucast (ucast x :: uint16) = x" for x :: uint32
  by (simp_all add: word_uint_eq_iff unsigned_ucast_eq unsigned_take_bit_eq take_bit_int_eq_self)

interpretation msg_int1: wire_format msg_ok msg_left msg_skip "\<lambda>w. [ucast w]" "\<lambda>w :: uint32. uint w < 2 ^ 8" "pq_getmsgint 1"
proof
  fix m :: StringInfoData and x :: uint32 and r assume "msg_ok m" "uint x < 2 ^ 8" "msg_left m = [ucast x] @ r"
  then show "pq_getmsgint 1 m = Inr (x, msg_skip (length [ucast x]) m)"
    using copy_left[of m "[ucast x]" r] narrow_word(1)[of x] by (simp add: pq_getmsgint_def)
qed

interpretation msg_int2: wire_format msg_ok msg_left msg_skip "\<lambda>w. htons (ucast w)" "\<lambda>w :: uint32. uint w < 2 ^ 16" "pq_getmsgint 2"
proof
  fix m :: StringInfoData and x :: uint32 and r assume "msg_ok m" "uint x < 2 ^ 16" "msg_left m = htons (ucast x) @ r"
  then show "pq_getmsgint 2 m = Inr (x, msg_skip (length (htons (ucast x))) m)"
    using copy_left[of m "htons (ucast x)" r] narrow_word(2)[of x] by (simp add: pq_getmsgint_def)
qed

interpretation msg_int4: wire_format msg_ok msg_left msg_skip htonl "\<lambda>w. True" "pq_getmsgint 4"
proof
  fix m :: StringInfoData and x :: uint32 and r assume "msg_ok m" "msg_left m = htonl x @ r"
  then show "pq_getmsgint 4 m = Inr (x, msg_skip (length (htonl x)) m)"
    using copy_left[of m "htonl x" r] by (simp add: pq_getmsgint_def)
qed

interpretation msg_int64: wire_format msg_ok msg_left msg_skip int64_bytes "\<lambda>w. True" pq_getmsgint64
proof
  fix m :: StringInfoData and x :: "64 word" and r assume m: "msg_ok m" "msg_left m = int64_bytes x @ r"
  let ?h = "htonl (ucast (signed_drop_bit 32 x))" and ?l = "htonl (ucast x)"
  have h: "pq_copymsgbytes m 4 = Inr (?h, msg_skip 4 m)" using copy_left[of m ?h "?l @ r"] m by (simp add: int64_bytes_def)
  have "msg_ok (msg_skip 4 m)" "msg_left (msg_skip 4 m) = ?l @ r"
    using msg.skip_ok[OF m(1), of 4] msg.skip_left[OF m(1), of 4] m(2) by (simp_all add: int64_bytes_def)
  from copy_left[OF this] have "pq_copymsgbytes (msg_skip 4 m) 4 = Inr (?l, msg_skip 8 m)" by (simp add: msg.skip_skip)
  then show "pq_getmsgint64 m = Inr (x, msg_skip (length (int64_bytes x)) m)"
    using h int64_halves[of x] by (simp add: pq_getmsgint64_def int64_bytes_def)
qed

interpretation msg_string: wire_format msg_ok msg_left msg_skip "\<lambda>str. str @ [0]" "\<lambda>str. 0 \<notin> set str" "pq_getmsgstring (\<lambda>_. None)"
proof
  fix m :: StringInfoData and x r assume m: "msg_ok m" "0 \<notin> set x" "msg_left m = (x @ [0]) @ r"
  let ?d = "drop (nat (cursor m)) (sdata m)"
  have l: "int (length x + 1 + length r) = len m - cursor m" using length_msg_left[OF m(1)] m(3) by simp
  have d: "?d = x @ [0] @ r @ drop (nat (len m)) (sdata m)"
  proof -
    have "sdata m = contents m @ drop (nat (len m)) (sdata m)" by (simp add: contents_def)
    then have "?d = drop (nat (cursor m)) (contents m @ drop (nat (len m)) (sdata m))" by simp
    also have "\<dots> = msg_left m @ drop (nat (len m)) (sdata m)"
      using m(1) len_contents[of m] by (auto simp: msg_left_def msg_ok_def)
    finally show ?thesis using m(3) by simp
  qed
  have "takeWhile (\<lambda>c. c \<noteq> 0) ?d = x" unfolding d using m(2) by (induction x) auto
  then have "strlen ?d = int (length x)" by (simp add: strlen_def)
  then show "pq_getmsgstring (\<lambda>_. None) m = Inr (x, msg_skip (length (x @ [0])) m)"
    using l d by (simp add: pq_getmsgstring_def Let_def converted_def msg_skip_def add.commute)
qed

text \<open>Whatever a message holds, a read stays inside it.\<close>

definition stays :: "(StringInfoData \<Rightarrow> pq_error + 'a \<times> StringInfoData) \<Rightarrow> bool" where
  "stays get \<longleftrightarrow> (\<forall>m. msg_ok m \<longrightarrow> (case get m of Inl e \<Rightarrow> True | Inr (x, m') \<Rightarrow> \<exists>n. n \<le> length (msg_left m) \<and> m' = msg_skip n m))"

lemma stays_copy: "stays (\<lambda>m. pq_copymsgbytes m n)"
proof -
  have "\<exists>k. k \<le> length (msg_left m) \<and> m\<lparr>cursor := cursor m + n\<rparr> = msg_skip k m" if "msg_ok m" "0 \<le> n" "n \<le> len m - cursor m" for m
    using that length_msg_left[OF that(1)] by (intro exI[of _ "nat n"]) (auto simp: msg_skip_def)
  then show ?thesis unfolding stays_def pq_copymsgbytes_def by auto
qed

lemma stays_bind:
  assumes "stays f" "\<And>x. stays (g x)"
  shows "stays (\<lambda>m. result_bind (f m) (\<lambda>(x, m). g x m))"
  unfolding stays_def
proof (intro allI impI)
  fix m assume m: "msg_ok m"
  show "case result_bind (f m) (\<lambda>(x, m). g x m) of Inl e \<Rightarrow> True | Inr (x, m') \<Rightarrow> \<exists>n\<le>length (msg_left m). m' = msg_skip n m"
  proof (cases "f m")
    case (Inr xm)
    obtain x k where k: "xm = (x, msg_skip k m)" "k \<le> length (msg_left m)" using assms(1) m Inr unfolding stays_def by (cases xm) fastforce
    have s: "msg_ok (msg_skip k m)" "length (msg_left (msg_skip k m)) = length (msg_left m) - k"
      using msg.skip_ok[OF m k(2)] msg.skip_left[OF m k(2)] by simp_all
    show ?thesis
    proof (cases "g x (msg_skip k m)")
      case inner: (Inr ym)
      obtain y j where "ym = (y, msg_skip j (msg_skip k m))" "j \<le> length (msg_left (msg_skip k m))"
        using assms(2)[of x] s(1) inner unfolding stays_def by (cases ym) fastforce
      then show ?thesis using Inr k s(2) inner by (auto simp: msg.skip_skip intro!: exI[of _ "k + j"])
    qed (use Inr k in simp)
  qed simp
qed

lemma stays_pure: "stays (\<lambda>m. Inr (x, m))"
  unfolding stays_def using msg.skip_0 by force


lemma stays_getbyte: "stays pq_getmsgbyte"
proof -
  have "\<exists>k. k \<le> length (msg_left m) \<and> m\<lparr>cursor := cursor m + 1\<rparr> = msg_skip k m" if "msg_ok m" "\<not> cursor m \<ge> len m" for m
    using that length_msg_left[OF that(1)] by (intro exI[of _ 1]) (auto simp: msg_skip_def)
  then show ?thesis unfolding stays_def pq_getmsgbyte_def by auto
qed

lemma stays_getint: "stays (pq_getmsgint b)"
proof -
  have "stays (\<lambda>m. result_bind (pq_copymsgbytes m n) (\<lambda>(x, m). Inr (h x, m)))" for n and h :: "bytes \<Rightarrow> uint32"
    by (rule stays_bind[OF stays_copy stays_pure])
  moreover have "stays (\<lambda>m. Inl e)" for e by (simp add: stays_def)
  ultimately show ?thesis unfolding pq_getmsgint_def by (cases "b = 1"; cases "b = 2"; cases "b = 4") simp_all
qed

lemma stays_getint64: "stays pq_getmsgint64"
  unfolding pq_getmsgint64_def by (intro stays_bind stays_copy stays_pure)

lemma stays_getstring: "stays (pq_getmsgstring conv)"
proof -
  have "\<exists>k. k \<le> length (msg_left m) \<and> m\<lparr>cursor := cursor m + strlen d + 1\<rparr> = msg_skip k m" if "msg_ok m" "\<not> cursor m + strlen d \<ge> len m" for m d
    using that length_msg_left[OF that(1)] by (intro exI[of _ "nat (strlen d) + 1"]) (auto simp: msg_skip_def strlen_def)
  then show ?thesis unfolding stays_def pq_getmsgstring_def Let_def by auto
qed

lemma stays_gettext: "stays (\<lambda>m. pq_getmsgtext conv m n)" "stays (\<lambda>m. pq_getmsgbytes m n)"
  using stays_copy[of n] unfolding stays_def pq_copymsgbytes_def pq_getmsgtext_def pq_getmsgbytes_def by auto

text \<open>The message that is written is the one that is read.\<close>

lemma written_left:
  assumes "sends f bs" "sinfo_ok b" "len b + int (length bs) + 1 < 1073741823"
  shows "\<exists>b'. f b = Inr b' \<and> msg_ok (b'\<lparr>cursor := len b\<rparr>) \<and> msg_left (b'\<lparr>cursor := len b\<rparr>) = bs @ [] \<and>
    msg_skip (length bs) (b'\<lparr>cursor := len b\<rparr>) = b'\<lparr>cursor := len b'\<rparr>"
proof -
  obtain b' where b': "f b = Inr b'" "sinfo_ok b'" "contents b' = contents b @ bs" "len b' = len b + int (length bs)"
    using assms unfolding sends_def by blast
  have "sinfo_ok (b'\<lparr>cursor := c\<rparr>)" "contents (b'\<lparr>cursor := c\<rparr>) = contents b'" for c
    using b'(2) by (simp_all add: sinfo_ok_def contents_def)
  then show ?thesis using b' assms(2) len_contents[OF assms(2)] by (auto simp: msg_ok_def msg_left_def msg_skip_def sinfo_ok_def)
qed

lemma low_bits:
  "ucast (word_of_int (i mod 2 ^ 8) :: uint32) = (word_of_int i :: uint8)" "uint (word_of_int (i mod 2 ^ 8) :: uint32) < 2 ^ 8"
  "ucast (word_of_int (i mod 2 ^ 16) :: uint32) = (word_of_int i :: uint16)" "uint (word_of_int (i mod 2 ^ 16) :: uint32) < 2 ^ 16"
proof -
  have u: "uint (word_of_int k :: uint32) = k" if "0 \<le> k" "k < 2 ^ 16" for k
    using that by (simp add: unsigned_of_int take_bit_int_eq_self)
  have b: "0 \<le> i mod 2 ^ 8" "i mod 2 ^ 8 < 2 ^ 8" "0 \<le> i mod 2 ^ 16" "i mod 2 ^ 16 < 2 ^ 16" by simp_all
  show "uint (word_of_int (i mod 2 ^ 8) :: uint32) < 2 ^ 8" "uint (word_of_int (i mod 2 ^ 16) :: uint32) < 2 ^ 16"
    using u[of "i mod 2 ^ 8"] u[of "i mod 2 ^ 16"] b by simp_all
  show "ucast (word_of_int (i mod 2 ^ 8) :: uint32) = (word_of_int i :: uint8)"
    using u[of "i mod 2 ^ 8"] b by (simp add: word_uint_eq_iff unsigned_ucast_eq unsigned_of_int take_bit_eq_mod)
  show "ucast (word_of_int (i mod 2 ^ 16) :: uint32) = (word_of_int i :: uint16)"
    using u[of "i mod 2 ^ 16"] b by (simp add: word_uint_eq_iff unsigned_ucast_eq unsigned_of_int take_bit_eq_mod)
qed

text \<open>
  C31: Round trip of the message format: an integer of each width and a string that are appended to
  a buffer with room for them are read back, and the read ends where the value ends.
\<close>

theorem pq_send_get:
  assumes "sinfo_ok b" "len b + 9 < 1073741823" "len b + int (length str) + 2 < 1073741823" "0 \<notin> set str"
  shows "(\<exists>b'. pq_sendint b i 1 = Inr b' \<and> pq_getmsgint 1 (b'\<lparr>cursor := len b\<rparr>) = Inr (word_of_int (i mod 2 ^ 8), b'\<lparr>cursor := len b'\<rparr>)) \<and>
    (\<exists>b'. pq_sendint b i 2 = Inr b' \<and> pq_getmsgint 2 (b'\<lparr>cursor := len b\<rparr>) = Inr (word_of_int (i mod 2 ^ 16), b'\<lparr>cursor := len b'\<rparr>)) \<and>
    (\<exists>b'. pq_sendint b i 4 = Inr b' \<and> pq_getmsgint 4 (b'\<lparr>cursor := len b\<rparr>) = Inr (word_of_int i, b'\<lparr>cursor := len b'\<rparr>)) \<and>
    (\<exists>b'. pq_sendint64 b j = Inr b' \<and> pq_getmsgint64 (b'\<lparr>cursor := len b\<rparr>) = Inr (j, b'\<lparr>cursor := len b'\<rparr>)) \<and>
    (\<exists>b'. pq_sendstring (\<lambda>_. None) b str = Inr b' \<and> pq_getmsgstring (\<lambda>_. None) (b'\<lparr>cursor := len b\<rparr>) = Inr (str, b'\<lparr>cursor := len b'\<rparr>))"
proof (intro conjI)
  have n8: "ucast (word_of_int (i mod 2 ^ 8) :: uint32) = (word_of_int i :: uint8)" "uint (word_of_int (i mod 2 ^ 8) :: uint32) < 2 ^ 8"
    using low_bits[of i] by auto
  show "\<exists>b'. pq_sendint b i 1 = Inr b' \<and> pq_getmsgint 1 (b'\<lparr>cursor := len b\<rparr>) = Inr (word_of_int (i mod 2 ^ 8), b'\<lparr>cursor := len b'\<rparr>)"
    using written_left[OF sends_int1 assms(1), of i] assms(2) msg_int1.get_enc[OF _ n8(2), unfolded n8(1)] by fastforce
  have n16: "ucast (word_of_int (i mod 2 ^ 16) :: uint32) = (word_of_int i :: uint16)" "uint (word_of_int (i mod 2 ^ 16) :: uint32) < 2 ^ 16"
    using low_bits[of i] by auto
  show "\<exists>b'. pq_sendint b i 2 = Inr b' \<and> pq_getmsgint 2 (b'\<lparr>cursor := len b\<rparr>) = Inr (word_of_int (i mod 2 ^ 16), b'\<lparr>cursor := len b'\<rparr>)"
    using written_left[OF sends_int2 assms(1), of i] assms(2) msg_int2.get_enc[OF _ n16(2), unfolded n16(1)] by fastforce
  show "\<exists>b'. pq_sendint b i 4 = Inr b' \<and> pq_getmsgint 4 (b'\<lparr>cursor := len b\<rparr>) = Inr (word_of_int i, b'\<lparr>cursor := len b'\<rparr>)"
    using written_left[OF sends_int4 assms(1), of i] assms(2) msg_int4.get_enc[of _ "word_of_int i"] by fastforce
  show "\<exists>b'. pq_sendint64 b j = Inr b' \<and> pq_getmsgint64 (b'\<lparr>cursor := len b\<rparr>) = Inr (j, b'\<lparr>cursor := len b'\<rparr>)"
    using written_left[OF sends_int64 assms(1), of j] assms(2) msg_int64.get_enc[of _ j] by (fastforce simp: int64_bytes_def)
  show "\<exists>b'. pq_sendstring (\<lambda>_. None) b str = Inr b' \<and> pq_getmsgstring (\<lambda>_. None) (b'\<lparr>cursor := len b\<rparr>) = Inr (str, b'\<lparr>cursor := len b'\<rparr>)"
    using written_left[OF sends_string assms(1), of "\<lambda>_. None" str] assms(3,4) msg_string.get_enc[of _ str] by (fastforce simp: converted_def)
qed

theorem pq_send_get_witness:
  "\<exists>b'. pq_sendint \<lparr>sdata = replicate 1024 0, len = 0, maxlen = 1024, cursor = 0\<rparr> 258 1 = Inr b' \<and>
     pq_getmsgint 1 (b'\<lparr>cursor := 0\<rparr>) = Inr (2, b'\<lparr>cursor := len b'\<rparr>)"
  using pq_send_get[of "\<lparr>sdata = replicate 1024 0, len = 0, maxlen = 1024, cursor = 0\<rparr>" "[0x61, 0x62]" 258 0]
  by (simp add: sinfo_ok_def)

text \<open>
  C32: Whatever bytes a client sends, a read operation of the server raises an error or stays inside
  the message: the cursor moves on by at most what is left, and nothing else changes.
\<close>

theorem pq_reads_stay:
  "stays pq_getmsgbyte \<and> stays (pq_getmsgint b) \<and> stays pq_getmsgint64 \<and> stays (\<lambda>m. pq_getmsgbytes m n) \<and>
   stays (\<lambda>m. pq_copymsgbytes m n) \<and> stays (\<lambda>m. pq_getmsgtext conv m n) \<and> stays (pq_getmsgstring conv)"
  by (intro conjI stays_getbyte stays_getint stays_getint64 stays_gettext stays_copy stays_getstring)

end
