(* ===== verification/Pq_Client.thy ===== *)
theory Pq_Client
  imports Pq_Format
begin

text \<open>
  The client library reads the answer to a query (\<^verbatim>\<open>fe-misc.c\<close>, \<^verbatim>\<open>fe-protocol3.c\<close> and the results of
  \<^verbatim>\<open>fe-exec.c\<close>).  The input buffer of a connection holds what has arrived; \<^verbatim>\<open>inStart\<close> is the first byte
  of the next message, \<^verbatim>\<open>inCursor\<close> the next byte to parse and \<^verbatim>\<open>inEnd\<close> the end of the data.

  The error \<^verbatim>\<open>EOF\<close> is \<open>Inl ()\<close>.  Memory is always available.  The kinds of messages with a handler of
  their own outside the model are an argument, which returns \<open>Inl ()\<close> to stop the parser.
\<close>


subsection \<open>State\<close>

datatype PGAsyncStatusType = PGASYNC_IDLE | PGASYNC_BUSY | PGASYNC_READY | PGASYNC_COPY_IN | PGASYNC_COPY_OUT | PGASYNC_COPY_BOTH

datatype ExecStatusType =
  PGRES_EMPTY_QUERY | PGRES_COMMAND_OK | PGRES_TUPLES_OK | PGRES_COPY_OUT | PGRES_COPY_IN | PGRES_BAD_RESPONSE
| PGRES_NONFATAL_ERROR | PGRES_FATAL_ERROR | PGRES_COPY_BOTH | PGRES_SINGLE_TUPLE

datatype PGQueryClass = PGQUERY_SIMPLE | PGQUERY_EXTENDED | PGQUERY_PREPARE | PGQUERY_DESCRIBE

record PGresAttDesc =
  att_name :: bytes
  tableid :: int
  columnid :: int
  att_format :: int
  typid :: int
  typlen :: int
  atttypmod :: int

text \<open>A value of a tuple is \<open>None\<close> when it is null.\<close>

record PGresult =
  resultStatus :: ExecStatusType
  numAttributes :: int
  attDescs :: "PGresAttDesc list"
  tuples :: "bytes option list list"
  binary :: bool
  cmdStatus :: bytes

record PGconn =
  inBuffer :: bytes
  inStart :: int
  inCursor :: int
  inEnd :: int
  conn_async :: PGAsyncStatusType
  queryclass :: PGQueryClass
  conn_result :: "PGresult option"
  sync_lost :: bool

definition PQmakeEmptyPGresult :: "ExecStatusType \<Rightarrow> PGresult" where
  "PQmakeEmptyPGresult st = \<lparr>resultStatus = st, numAttributes = 0, attDescs = [], tuples = [], binary = False, cmdStatus = []\<rparr>"

text \<open>The messages of error results are not part of the model.\<close>

definition pqSaveErrorResult :: "PGconn \<Rightarrow> PGconn" where
  "pqSaveErrorResult conn = (case conn_result conn of
     None \<Rightarrow> conn\<lparr>conn_result := Some (PQmakeEmptyPGresult PGRES_FATAL_ERROR)\<rparr>
   | Some r \<Rightarrow> if resultStatus r \<noteq> PGRES_FATAL_ERROR
               then conn\<lparr>conn_result := Some (PQmakeEmptyPGresult PGRES_FATAL_ERROR)\<rparr> else conn)"

definition handleSyncLoss :: "PGconn \<Rightarrow> PGconn" where
  "handleSyncLoss conn = (pqSaveErrorResult conn)\<lparr>conn_async := PGASYNC_READY, sync_lost := True\<rparr>"


subsection \<open>Reading values\<close>

definition pqGetc :: "PGconn \<Rightarrow> unit + uint8 \<times> PGconn" where
  "pqGetc conn =
     (if inCursor conn \<ge> inEnd conn then Inl ()
      else Inr (inBuffer conn ! nat (inCursor conn), conn\<lparr>inCursor := inCursor conn + 1\<rparr>))"

definition pqGetInt :: "nat \<Rightarrow> PGconn \<Rightarrow> unit + int \<times> PGconn" where
  "pqGetInt n conn =
     (if n = 2 then
        if inCursor conn + 2 > inEnd conn then Inl ()
        else Inr (uint (ntohs (take 2 (drop (nat (inCursor conn)) (inBuffer conn)))), conn\<lparr>inCursor := inCursor conn + 2\<rparr>)
      else if n = 4 then
        if inCursor conn + 4 > inEnd conn then Inl ()
        else Inr (sint (ntohl (take 4 (drop (nat (inCursor conn)) (inBuffer conn)))), conn\<lparr>inCursor := inCursor conn + 4\<rparr>)
      else Inl ())"

text \<open>The loop over the bytes up to a null or the end of the data.\<close>

definition pqGets :: "PGconn \<Rightarrow> unit + bytes \<times> PGconn" where
  "pqGets conn =
     (let data = take (nat (inEnd conn - inCursor conn)) (drop (nat (inCursor conn)) (inBuffer conn));
          str = takeWhile (\<lambda>c. c \<noteq> 0) data
      in if inCursor conn + int (length str) \<ge> inEnd conn then Inl ()
         else Inr (str, conn\<lparr>inCursor := inCursor conn + int (length str) + 1\<rparr>))"

definition pqSkipnchar :: "int \<Rightarrow> PGconn \<Rightarrow> unit + PGconn" where
  "pqSkipnchar n conn =
     (if n > inEnd conn - inCursor conn then Inl () else Inr (conn\<lparr>inCursor := inCursor conn + n\<rparr>))"

definition pqGetnchar :: "int \<Rightarrow> PGconn \<Rightarrow> unit + bytes \<times> PGconn" where
  "pqGetnchar n conn =
     (if n > inEnd conn - inCursor conn then Inl ()
      else Inr (take (nat n) (drop (nat (inCursor conn)) (inBuffer conn)), conn\<lparr>inCursor := inCursor conn + n\<rparr>))"


subsection \<open>Rows\<close>

definition int16_cast :: "int \<Rightarrow> int" where
  "int16_cast i = sint (word_of_int i :: uint16)"

definition get_attdesc :: "PGconn \<Rightarrow> unit + PGresAttDesc \<times> PGconn" where
  "get_attdesc conn =
     result_bind (pqGets conn) (\<lambda>(name, conn).
     result_bind (pqGetInt 4 conn) (\<lambda>(tableid, conn).
     result_bind (pqGetInt 2 conn) (\<lambda>(columnid, conn).
     result_bind (pqGetInt 4 conn) (\<lambda>(typid, conn).
     result_bind (pqGetInt 2 conn) (\<lambda>(typlen, conn).
     result_bind (pqGetInt 4 conn) (\<lambda>(atttypmod, conn).
     result_bind (pqGetInt 2 conn) (\<lambda>(fmt, conn).
       Inr (\<lparr>att_name = name, tableid = tableid, columnid = int16_cast columnid, att_format = int16_cast fmt,
             typid = typid, typlen = int16_cast typlen, atttypmod = atttypmod\<rparr>, conn))))))))"

definition advance_and_error :: "int \<Rightarrow> PGconn \<Rightarrow> PGconn" where
  "advance_and_error msgLength conn =
     pqSaveErrorResult (conn\<lparr>inStart := inStart conn + 5 + msgLength, conn_result := None\<rparr>)"

definition getRowDescriptions :: "int \<Rightarrow> PGconn \<Rightarrow> PGconn" where
  "getRowDescriptions msgLength conn =
     (let res = (if queryclass conn = PGQUERY_DESCRIBE
                 then (case conn_result conn of Some r \<Rightarrow> r | None \<Rightarrow> PQmakeEmptyPGresult PGRES_COMMAND_OK)
                 else PQmakeEmptyPGresult PGRES_TUPLES_OK)
      in case result_bind (pqGetInt 2 conn) (\<lambda>(nfields, conn).
                result_bind (read_many (nat nfields) get_attdesc conn) (\<lambda>(atts, conn). Inr (nfields, atts, conn))) of
           Inl _ \<Rightarrow> advance_and_error msgLength conn
         | Inr (nfields, atts, conn) \<Rightarrow>
             if inCursor conn \<noteq> inStart conn + 5 + msgLength then advance_and_error msgLength conn
             else (let conn = conn\<lparr>conn_result := Some (res\<lparr>numAttributes := nfields, attDescs := atts,
                                    binary := (nfields > 0 \<and> list_all (\<lambda>a. att_format a = 1) atts)\<rparr>),
                                   inStart := inCursor conn\<rparr>
                   in if queryclass conn = PGQUERY_DESCRIBE then conn\<lparr>conn_async := PGASYNC_READY\<rparr> else conn))"

text \<open>A field: its length and, for a length that is not negative, its bytes.\<close>

definition get_field :: "PGconn \<Rightarrow> unit + (int \<times> int) \<times> PGconn" where
  "get_field conn =
     result_bind (pqGetInt 4 conn) (\<lambda>(vlen, conn).
       let pos = inCursor conn
       in if vlen > 0 then result_bind (pqSkipnchar vlen conn) (\<lambda>conn. Inr ((vlen, pos), conn))
          else Inr ((vlen, pos), conn))"

definition pqRowProcessor :: "(int \<times> int) list \<Rightarrow> PGconn \<Rightarrow> PGconn" where
  "pqRowProcessor columns conn = (case conn_result conn of
     None \<Rightarrow> conn
   | Some res \<Rightarrow>
       (let tup = map (\<lambda>(clen, pos). if clen < 0 then None else Some (take (nat clen) (drop (nat pos) (inBuffer conn)))) columns
        in conn\<lparr>conn_result := Some (res\<lparr>tuples := tuples res @ [tup]\<rparr>)\<rparr>))"

definition getAnotherTuple :: "int \<Rightarrow> PGconn \<Rightarrow> PGconn" where
  "getAnotherTuple msgLength conn =
     (let nfields = numAttributes (the (conn_result conn))
      in case pqGetInt 2 conn of
           Inl _ \<Rightarrow> advance_and_error msgLength conn
         | Inr (tupnfields, conn) \<Rightarrow>
             if tupnfields \<noteq> nfields then advance_and_error msgLength conn
             else (case read_many (nat nfields) get_field conn of
                     Inl _ \<Rightarrow> advance_and_error msgLength conn
                   | Inr (rowbuf, conn) \<Rightarrow>
                       if inCursor conn \<noteq> inStart conn + 5 + msgLength then advance_and_error msgLength conn
                       else pqRowProcessor rowbuf (conn\<lparr>inStart := inCursor conn\<rparr>)))"


subsection \<open>The parser\<close>

definition VALID_LONG_MESSAGE_TYPE :: "char \<Rightarrow> bool" where
  "VALID_LONG_MESSAGE_TYPE mid \<longleftrightarrow> mid \<in> set ''TDdVENAYyo''"

definition CMDSTATUS_LEN :: nat where "CMDSTATUS_LEN = 72"

definition make_result :: "ExecStatusType \<Rightarrow> PGconn \<Rightarrow> PGconn" where
  "make_result st conn = (if conn_result conn = None then conn\<lparr>conn_result := Some (PQmakeEmptyPGresult st)\<rparr> else conn)"

definition command_complete :: "PGconn \<Rightarrow> unit + PGconn" where
  "command_complete conn =
     result_bind (pqGets conn) (\<lambda>(workBuffer, conn).
       let conn = make_result PGRES_COMMAND_OK conn;
           res = (the (conn_result conn))\<lparr>cmdStatus := take (CMDSTATUS_LEN - 1) workBuffer\<rparr>
       in Inr (conn\<lparr>conn_result := Some res, conn_async := PGASYNC_READY\<rparr>))"

text \<open>A message handler ends with \<open>Inl\<close> when the parser returns, with \<open>Inr\<close> when the loop goes on.\<close>

definition consumed :: "int \<Rightarrow> PGconn \<Rightarrow> PGconn" where
  "consumed msgLength conn =
     (if inCursor conn = inStart conn + 5 + msgLength then conn\<lparr>inStart := inCursor conn\<rparr>
      else (pqSaveErrorResult conn)\<lparr>conn_async := PGASYNC_READY, inStart := inStart conn + 5 + msgLength\<rparr>)"

definition consume :: "int \<Rightarrow> PGconn \<Rightarrow> unit + PGconn \<Rightarrow> PGconn + PGconn" where
  "consume msgLength conn r = (case r of Inl _ \<Rightarrow> Inl conn | Inr conn \<Rightarrow> Inr (consumed msgLength conn))"

definition skip_message :: "int \<Rightarrow> PGconn \<Rightarrow> PGconn" where
  "skip_message msgLength conn = conn\<lparr>inCursor := inCursor conn + msgLength\<rparr>"

definition busy_message :: "(char \<Rightarrow> int \<Rightarrow> PGconn \<Rightarrow> unit + PGconn) \<Rightarrow> char \<Rightarrow> int \<Rightarrow> PGconn \<Rightarrow> PGconn + PGconn" where
  "busy_message other mid msgLength conn =
     (if mid = CHR ''C'' then consume msgLength conn (command_complete conn)
      else if mid = CHR ''Z'' then
        consume msgLength conn (result_bind (pqGetc conn) (\<lambda>(xact_status, conn). Inr (conn\<lparr>conn_async := PGASYNC_IDLE\<rparr>)))
      else if mid = CHR ''I'' then
        consume msgLength conn (Inr ((make_result PGRES_EMPTY_QUERY conn)\<lparr>conn_async := PGASYNC_READY\<rparr>))
      else if mid = CHR ''1'' then
        consume msgLength conn (Inr (if queryclass conn = PGQUERY_PREPARE
          then (make_result PGRES_COMMAND_OK conn)\<lparr>conn_async := PGASYNC_READY\<rparr> else conn))
      else if mid = CHR ''2'' \<or> mid = CHR ''3'' then consume msgLength conn (Inr conn)
      else if mid = CHR ''K'' then
        consume msgLength conn (result_bind (pqGetInt 4 conn) (\<lambda>(be_pid, conn).
          result_bind (pqGetInt 4 conn) (\<lambda>(be_key, conn). Inr conn)))
      else if mid = CHR ''T'' then
        if conn_result conn = None \<or> queryclass conn = PGQUERY_DESCRIBE then Inr (getRowDescriptions msgLength conn)
        else Inl (conn\<lparr>conn_async := PGASYNC_READY\<rparr>)
      else if mid = CHR ''n'' then
        consume msgLength conn (Inr (if queryclass conn = PGQUERY_DESCRIBE
          then (make_result PGRES_COMMAND_OK conn)\<lparr>conn_async := PGASYNC_READY\<rparr> else conn))
      else if mid = CHR ''D'' then
        (case conn_result conn of
           None \<Rightarrow> consume msgLength conn (Inr (skip_message msgLength (pqSaveErrorResult conn)))
         | Some r \<Rightarrow>
             if resultStatus r = PGRES_TUPLES_OK then Inr (getAnotherTuple msgLength conn)
             else if resultStatus r = PGRES_FATAL_ERROR then consume msgLength conn (Inr (skip_message msgLength conn))
             else consume msgLength conn (Inr (skip_message msgLength (pqSaveErrorResult conn))))
      else if mid = CHR ''d'' then consume msgLength conn (Inr (skip_message msgLength conn))
      else if mid = CHR ''c'' then consume msgLength conn (Inr conn)
      else if mid \<in> set ''oEStGHWjYy'' then consume msgLength conn (other mid msgLength conn)
      else consume msgLength conn (Inr (skip_message msgLength ((pqSaveErrorResult conn)\<lparr>conn_async := PGASYNC_READY\<rparr>))))"

definition dispatch_message :: "(char \<Rightarrow> int \<Rightarrow> PGconn \<Rightarrow> unit + PGconn) \<Rightarrow> char \<Rightarrow> int \<Rightarrow> PGconn \<Rightarrow> PGconn + PGconn" where
  "dispatch_message other mid msgLength conn =
     (if mid \<in> set ''ANk'' then consume msgLength conn (other mid msgLength conn)
      else if conn_async conn \<noteq> PGASYNC_BUSY then
        if conn_async conn \<noteq> PGASYNC_IDLE then Inl conn
        else if mid \<in> set ''ES'' then consume msgLength conn (other mid msgLength conn)
        else consume msgLength conn (Inr (skip_message msgLength conn))
      else busy_message other mid msgLength conn)"

definition parse_message :: "(char \<Rightarrow> int \<Rightarrow> PGconn \<Rightarrow> unit + PGconn) \<Rightarrow> PGconn \<Rightarrow> PGconn + PGconn" where
  "parse_message other conn =
     (let conn = conn\<lparr>inCursor := inStart conn\<rparr>
      in case pqGetc conn of
           Inl _ \<Rightarrow> Inl conn
         | Inr (b, conn) \<Rightarrow>
         (case pqGetInt 4 conn of
            Inl _ \<Rightarrow> Inl conn
          | Inr (msgLength, conn) \<Rightarrow>
              (let mid = char_of (unat b)
               in if msgLength < 4 then Inl (handleSyncLoss conn)
                  else if msgLength > 30000 \<and> \<not> VALID_LONG_MESSAGE_TYPE mid then Inl (handleSyncLoss conn)
                  else (let msgLength = msgLength - 4; avail = inEnd conn - inCursor conn
                        in if avail < msgLength then Inl conn
                           else dispatch_message other mid msgLength conn))))"

partial_function (option) pqParseInput3 :: "(char \<Rightarrow> int \<Rightarrow> PGconn \<Rightarrow> unit + PGconn) \<Rightarrow> PGconn \<Rightarrow> PGconn option" where
  "pqParseInput3 other conn = (case parse_message other conn of
     Inl conn \<Rightarrow> Some conn
   | Inr conn \<Rightarrow> pqParseInput3 other conn)"

definition PQnfields :: "PGresult \<Rightarrow> int" where
  "PQnfields res = numAttributes res"

definition PQntuples :: "PGresult \<Rightarrow> int" where
  "PQntuples res = int (length (tuples res))"

text \<open>The memory at the value: its bytes and a null.  \<open>None\<close> is the null pointer.\<close>

definition PQgetvalue :: "PGresult \<Rightarrow> int \<Rightarrow> int \<Rightarrow> bytes option" where
  "PQgetvalue res tup_num field_num =
     (if tup_num < 0 \<or> tup_num \<ge> PQntuples res \<or> field_num < 0 \<or> field_num \<ge> numAttributes res then None
      else Some ((case tuples res ! nat tup_num ! nat field_num of None \<Rightarrow> [] | Some v \<Rightarrow> v) @ [0]))"


subsection \<open>The parser ends\<close>

definition conn_ok :: "PGconn \<Rightarrow> bool" where
  "conn_ok conn \<longleftrightarrow> 0 \<le> inStart conn \<and> inStart conn \<le> inEnd conn \<and> inEnd conn \<le> int (length (inBuffer conn))"

definition same_input :: "PGconn \<Rightarrow> PGconn \<Rightarrow> bool" where
  "same_input a b \<longleftrightarrow> inBuffer b = inBuffer a \<and> inStart b = inStart a \<and> inEnd b = inEnd a"

lemma same_input_simps [simp]:
  "same_input a a" "same_input a (pqSaveErrorResult b) = same_input a b" "same_input a (make_result st b) = same_input a b"
  "same_input a (b\<lparr>inCursor := c\<rparr>) = same_input a b" "same_input a (b\<lparr>conn_async := s\<rparr>) = same_input a b"
  "same_input a (b\<lparr>conn_result := r\<rparr>) = same_input a b" "same_input a (skip_message n b) = same_input a b"
  by (auto simp: same_input_def pqSaveErrorResult_def make_result_def skip_message_def split: option.split)






text \<open>A message that is parsed moves the start of the input past it.\<close>

definition past :: "int \<Rightarrow> PGconn \<Rightarrow> PGconn \<Rightarrow> bool" where
  "past n a b \<longleftrightarrow> inBuffer b = inBuffer a \<and> inEnd b = inEnd a \<and> inStart b = inStart a + 5 + n"



lemma past_same_input: "same_input a b \<Longrightarrow> past n b c \<Longrightarrow> past n a c"
  by (simp add: past_def same_input_def)
















lemma sync_loss_same_input [simp]: "same_input a (handleSyncLoss b) = same_input a b"
  by (simp add: handleSyncLoss_def same_input_def pqSaveErrorResult_def split: option.split)





subsection \<open>The input of a connection\<close>

definition in_ok :: "PGconn \<Rightarrow> bool" where
  "in_ok c \<longleftrightarrow> 0 \<le> inCursor c \<and> inCursor c \<le> inEnd c \<and> inEnd c \<le> int (length (inBuffer c))"

definition in_left :: "PGconn \<Rightarrow> bytes" where
  "in_left c = take (nat (inEnd c - inCursor c)) (drop (nat (inCursor c)) (inBuffer c))"

definition in_skip :: "nat \<Rightarrow> PGconn \<Rightarrow> PGconn" where
  "in_skip n c = c\<lparr>inCursor := inCursor c + int n\<rparr>"

lemma length_in_left: "in_ok c \<Longrightarrow> int (length (in_left c)) = inEnd c - inCursor c"
  by (auto simp: in_ok_def in_left_def min_def nat_le_iff)

interpretation inp: input in_ok in_left in_skip
proof
  fix m :: PGconn and n :: nat assume m: "in_ok m" "n \<le> length (in_left m)"
  then have n: "int n \<le> inEnd m - inCursor m" using length_in_left[of m] by simp
  then show "in_ok (in_skip n m)" using m(1) by (simp add: in_ok_def in_skip_def)
  have "nat (inEnd m - (inCursor m + int n)) = nat (inEnd m - inCursor m) - n" by simp
  then show "in_left (in_skip n m) = drop n (in_left m)"
    using m(1) by (simp add: in_left_def in_skip_def in_ok_def nat_add_distrib drop_take add.commute)
qed (simp_all add: in_skip_def)

lemma in_left_data:
  assumes "in_ok c" "in_left c = bs @ r"
  shows "inCursor c + int (length bs) \<le> inEnd c" "take (length bs) (drop (nat (inCursor c)) (inBuffer c)) = bs"
proof -
  show l: "inCursor c + int (length bs) \<le> inEnd c" using length_in_left[OF assms(1)] assms(2) by simp
  have "take (length bs) (in_left c) = take (length bs) (drop (nat (inCursor c)) (inBuffer c))"
    using l by (simp add: in_left_def min_def) linarith
  then show "take (length bs) (drop (nat (inCursor c)) (inBuffer c)) = bs" using assms(2) by simp
qed

lemma sint_range: "- (2 ^ 31) \<le> x \<Longrightarrow> x < 2 ^ 31 \<Longrightarrow> sint (word_of_int x :: uint32) = x"
  by (simp add: signed_of_int signed_take_bit_int_eq_self)

interpretation in_int2: wire_format in_ok in_left in_skip "\<lambda>i. htons (word_of_int i)" "\<lambda>i. 0 \<le> i \<and> i < 2 ^ 16" "pqGetInt 2"
proof
  fix m :: PGconn and x r assume m: "in_ok m" "0 \<le> x \<and> x < 2 ^ 16" "in_left m = htons (word_of_int x) @ r"
  then show "pqGetInt 2 m = Inr (x, in_skip (length (htons (word_of_int x))) m)"
    using in_left_data[OF m(1,3)] by (simp add: pqGetInt_def in_skip_def unsigned_of_int take_bit_int_eq_self)
qed

interpretation in_int4: wire_format in_ok in_left in_skip "\<lambda>i. htonl (word_of_int i)" "\<lambda>i. - (2 ^ 31) \<le> i \<and> i < 2 ^ 31" "pqGetInt 4"
proof
  fix m :: PGconn and x r assume m: "in_ok m" "- (2 ^ 31) \<le> x \<and> x < 2 ^ 31" "in_left m = htonl (word_of_int x) @ r"
  then show "pqGetInt 4 m = Inr (x, in_skip (length (htonl (word_of_int x))) m)"
    using in_left_data[OF m(1,3)] sint_range[of x] by (simp add: pqGetInt_def in_skip_def)
qed

interpretation in_string: wire_format in_ok in_left in_skip "\<lambda>str. str @ [0]" "\<lambda>str. 0 \<notin> set str" pqGets
proof
  fix m :: PGconn and x r assume m: "in_ok m" "0 \<notin> set x" "in_left m = (x @ [0]) @ r"
  have "takeWhile (\<lambda>c. c \<noteq> 0) (in_left m) = x" unfolding m(3) using m(2) by (induction x) auto
  then show "pqGets m = Inr (x, in_skip (length (x @ [0])) m)"
    using in_left_data[OF m(1,3)] unfolding pqGets_def in_left_def[symmetric] by (simp add: Let_def in_skip_def)
qed

text \<open>A description of a column, as a row description holds it.\<close>

definition attdesc_bytes :: "PGresAttDesc \<Rightarrow> bytes" where
  "attdesc_bytes a = (att_name a @ [0]) @ htonl (word_of_int (tableid a)) @ htons (word_of_int (columnid a)) @
     htonl (word_of_int (typid a)) @ htons (word_of_int (typlen a)) @ htonl (word_of_int (atttypmod a)) @
     htons (word_of_int (att_format a))"

definition int16_range :: "int \<Rightarrow> bool" where
  "int16_range i \<longleftrightarrow> - (2 ^ 15) \<le> i \<and> i < 2 ^ 15"

definition int32_range :: "int \<Rightarrow> bool" where
  "int32_range i \<longleftrightarrow> - (2 ^ 31) \<le> i \<and> i < 2 ^ 31"

definition attdesc_ok :: "PGresAttDesc \<Rightarrow> bool" where
  "attdesc_ok a \<longleftrightarrow> 0 \<notin> set (att_name a) \<and> int32_range (tableid a) \<and> int16_range (columnid a) \<and> int32_range (typid a) \<and>
     int16_range (typlen a) \<and> int32_range (atttypmod a) \<and> int16_range (att_format a)"

lemma int16_cast_uint: "int16_range i \<Longrightarrow> int16_cast (uint (word_of_int i :: uint16)) = i"
  by (simp add: int16_range_def int16_cast_def signed_of_int signed_take_bit_int_eq_self)

lemma in_step: "in_ok m \<Longrightarrow> in_left m = e @ r \<Longrightarrow> in_ok (in_skip (length e) m) \<and> in_left (in_skip (length e) m) = r"
  using inp.skip_ok[of m "length e"] inp.skip_left[of m "length e"] by simp

lemma get_int16:
  assumes "in_ok m" "in_left m = htons (word_of_int i) @ r"
  shows "pqGetInt 2 m = Inr (uint (word_of_int i :: uint16), in_skip 2 m)" "in_ok (in_skip 2 m)" "in_left (in_skip 2 m) = r"
proof -
  let ?u = "uint (word_of_int i :: uint16)"
  have "0 \<le> ?u \<and> ?u < 2 ^ 16" using uint_lt2p[of "word_of_int i :: uint16"] by simp
  moreover have "in_left m = htons (word_of_int ?u) @ r" using assms(2) by simp
  ultimately show "pqGetInt 2 m = Inr (?u, in_skip 2 m)" using in_int2.get_enc[OF assms(1), of ?u r] by simp
  show "in_ok (in_skip 2 m)" "in_left (in_skip 2 m) = r" using in_step[OF assms] by simp_all
qed

lemma get_int32:
  assumes "in_ok m" "in_left m = htonl (word_of_int i) @ r" "int32_range i"
  shows "pqGetInt 4 m = Inr (i, in_skip 4 m)" "in_ok (in_skip 4 m)" "in_left (in_skip 4 m) = r"
  using in_int4.get_enc[OF assms(1) _ assms(2)] in_step[OF assms(1,2)] assms(3) by (simp_all add: int32_range_def)

interpretation in_attdesc: wire_format in_ok in_left in_skip attdesc_bytes attdesc_ok get_attdesc
proof
  fix m :: PGconn and x r assume m: "in_ok m" "attdesc_ok x" "in_left m = attdesc_bytes x @ r"
  let ?n = "length (att_name x @ [0])"
  have left: "in_left m = (att_name x @ [0]) @ htonl (word_of_int (tableid x)) @ htons (word_of_int (columnid x)) @
     htonl (word_of_int (typid x)) @ htons (word_of_int (typlen x)) @ htonl (word_of_int (atttypmod x)) @
     htons (word_of_int (att_format x)) @ r" using m(3) by (simp add: attdesc_bytes_def)
  have ok: "0 \<notin> set (att_name x)" "int32_range (tableid x)" "int16_range (columnid x)" "int32_range (typid x)" "int16_range (typlen x)"
    "int32_range (atttypmod x)" "int16_range (att_format x)" using m(2) by (simp_all add: attdesc_ok_def)
  have s0: "pqGets m = Inr (att_name x, in_skip ?n m)" using in_string.get_enc[OF m(1) ok(1) left] .
  have m1: "in_ok (in_skip ?n m)" using in_step[OF m(1) left] by blast
  note l1 = in_step[OF m(1) left, THEN conjunct2]
  note s1 = get_int32[OF m1 l1 ok(2)]
  note s2 = get_int16[OF s1(2,3)]
  note s3 = get_int32[OF s2(2,3) ok(4)]
  note s4 = get_int16[OF s3(2,3)]
  note s5 = get_int32[OF s4(2,3) ok(6)]
  note s6 = get_int16[OF s5(2,3)]
  show "get_attdesc m = Inr (x, in_skip (length (attdesc_bytes x)) m)"
    unfolding get_attdesc_def using s0 s1(1) s2(1) s3(1) s4(1) s5(1) s6(1) ok
    by (simp add: int16_cast_uint inp.skip_skip attdesc_bytes_def add.commute)
qed

text \<open>A field with a value.\<close>

definition field_bytes :: "bytes \<Rightarrow> bytes" where
  "field_bytes v = htonl (word_of_int (int (length v))) @ v"

lemma get_fields:
  assumes "in_ok m" "in_left m = concat (map field_bytes vs) @ r" "list_all (\<lambda>v. v \<noteq> [] \<and> int32_range (int (length v))) vs"
  shows "\<exists>cols. read_many (length vs) get_field m = Inr (cols, in_skip (length (concat (map field_bytes vs))) m) \<and>
    map (\<lambda>(clen, pos). if clen < 0 then None else Some (take (nat clen) (drop (nat pos) (inBuffer m)))) cols = map Some vs"
  using assms
proof (induction vs arbitrary: m)
  case Nil
  then show ?case by (simp add: inp.skip_0)
next
  case (Cons v vs)
  have left: "in_left m = htonl (word_of_int (int (length v))) @ v @ concat (map field_bytes vs) @ r"
    using Cons.prems(2) by (simp add: field_bytes_def[of v])
  have v: "v \<noteq> []" "int32_range (int (length v))" using Cons.prems(3) by auto
  note s = get_int32[OF Cons.prems(1) left v(2)]
  note d = in_left_data[OF s(2,3)]
  let ?m = "in_skip (length v) (in_skip 4 m)"
  have f: "get_field m = Inr ((int (length v), inCursor (in_skip 4 m)), ?m)"
    unfolding get_field_def using s(1) v(1) d(1) by (simp add: pqSkipnchar_def in_skip_def)
  note t = in_step[OF s(2,3)]
  obtain cols where c: "read_many (length vs) get_field ?m = Inr (cols, in_skip (length (concat (map field_bytes vs))) ?m)"
    "map (\<lambda>(clen, pos). if clen < 0 then None else Some (take (nat clen) (drop (nat pos) (inBuffer ?m)))) cols = map Some vs"
    using Cons.IH[OF t[THEN conjunct1] t[THEN conjunct2]] Cons.prems(3) by auto
  have b: "inBuffer ?m = inBuffer m" by (simp add: in_skip_def)
  show ?case using f c d(2) unfolding b by (simp add: inp.skip_skip field_bytes_def[of v] in_skip_def add.assoc)
qed


subsection \<open>The answer to a query\<close>

text \<open>A message with its type and length.\<close>

definition framed :: "uint8 \<Rightarrow> bytes \<Rightarrow> bytes" where
  "framed mid body = [mid] @ htonl (word_of_int (int (length body) + 4)) @ body"

definition at_start :: "PGconn \<Rightarrow> PGconn" where
  "at_start c = c\<lparr>inCursor := inStart c\<rparr>"

lemma in_ok_at_start: "conn_ok c \<Longrightarrow> in_ok (at_start c)"
  by (simp add: conn_ok_def in_ok_def at_start_def)

lemma parse_frame:
  assumes "conn_ok c" "in_left (at_start c) = framed mid body @ r" "length body < 29996"
  shows "parse_message other c = dispatch_message other (char_of (unat mid)) (int (length body)) (in_skip 5 (at_start c)) \<and>
    in_ok (in_skip 5 (at_start c)) \<and> in_left (in_skip 5 (at_start c)) = body @ r"
proof -
  note ok = in_ok_at_start[OF assms(1)]
  have l: "in_left (at_start c) = [mid] @ htonl (word_of_int (int (length body) + 4)) @ body @ r" using assms(2) by (simp add: framed_def)
  note d = in_left_data[OF ok l]
  let ?k = "nat (inCursor (at_start c))"
  have "take 1 (drop ?k (inBuffer (at_start c))) ! 0 = mid" using d(2) by simp
  moreover have "?k \<le> length (inBuffer (at_start c))" using ok unfolding in_ok_def by linarith
  ultimately have "inBuffer (at_start c) ! ?k = mid" by simp
  then have 1: "pqGetc (at_start c) = Inr (mid, in_skip 1 (at_start c))" using d(1) by (simp add: pqGetc_def in_skip_def)
  have ok1: "in_ok (in_skip 1 (at_start c))" and l1: "in_left (in_skip 1 (at_start c)) = htonl (word_of_int (int (length body) + 4)) @ body @ r"
    using in_step[OF ok l] by simp_all
  have "int32_range (int (length body) + 4)" using assms(3) by (simp add: int32_range_def)
  note 2 = get_int32[OF ok1 l1 this]
  have e: "int (length body) \<le> inEnd (in_skip 5 (at_start c)) - inCursor (in_skip 5 (at_start c))"
    using in_left_data(1)[OF 2(2,3)] by (simp add: in_skip_def)
  have "parse_message other c = dispatch_message other (char_of (unat mid)) (int (length body)) (in_skip 5 (at_start c))"
    unfolding parse_message_def at_start_def[symmetric] Let_def using 1 2(1) e assms(3) by (simp add: inp.skip_skip)
  then show ?thesis using 2(2,3) by (simp add: inp.skip_skip)
qed

lemma parse_rows:
  assumes "conn_ok c" "in_left (at_start c) = framed 0x54 (htons (word_of_int (int (length atts))) @ concat (map attdesc_bytes atts)) @ r"
    "length (concat (map attdesc_bytes atts)) < 29994" "length atts < 2 ^ 16" "list_all attdesc_ok atts"
    "conn_async c = PGASYNC_BUSY" "queryclass c = PGQUERY_SIMPLE" "conn_result c = None"
  shows "\<exists>c'. parse_message other c = Inr c' \<and> conn_ok c' \<and> in_left (at_start c') = r \<and> conn_async c' = PGASYNC_BUSY \<and>
    queryclass c' = PGQUERY_SIMPLE \<and> conn_result c' = Some \<lparr>resultStatus = PGRES_TUPLES_OK, numAttributes = int (length atts),
      attDescs = atts, tuples = [], binary = (atts \<noteq> [] \<and> list_all (\<lambda>a. att_format a = 1) atts), cmdStatus = []\<rparr>"
proof -
  let ?body = "htons (word_of_int (int (length atts))) @ concat (map attdesc_bytes atts)"
  let ?c = "in_skip 5 (at_start c)"
  have f: "parse_message other c = dispatch_message other (char_of (unat (0x54 :: uint8))) (int (length ?body)) ?c" "in_ok ?c" "in_left ?c = ?body @ r"
    using parse_frame[OF assms(1,2)] assms(3) by simp_all
  have T: "char_of (unat (0x54 :: uint8)) = CHR ''T''" by (simp add: char_of_def bit_iff_odd)
  have disp: "parse_message other c = Inr (getRowDescriptions (int (length ?body)) ?c)"
    unfolding f(1) T dispatch_message_def busy_message_def using assms(6-8) by (simp add: in_skip_def at_start_def)
  have l: "in_left ?c = htons (word_of_int (int (length atts))) @ concat (map attdesc_bytes atts) @ r" using f(3) by simp
  have n: "uint (word_of_int (int (length atts)) :: uint16) = int (length atts)" using assms(4) by (simp add: unsigned_of_nat take_bit_nat_eq_self)
  note g = get_int16[OF f(2) l, unfolded n]
  have a: "read_many (length atts) get_attdesc (in_skip 2 ?c) = Inr (atts, in_skip (length (concat (map attdesc_bytes atts))) (in_skip 2 ?c))"
    using in_attdesc.get_many[OF g(2) assms(5) g(3)] .
  let ?d = "in_skip (length ?body) ?c"
  let ?res = "\<lparr>resultStatus = PGRES_TUPLES_OK, numAttributes = int (length atts), attDescs = atts, tuples = [],
      binary = (atts \<noteq> [] \<and> list_all (\<lambda>a. att_format a = 1) atts), cmdStatus = []\<rparr>"
  have rows: "getRowDescriptions (int (length ?body)) ?c = ?d\<lparr>conn_result := Some ?res, inStart := inCursor ?d\<rparr>"
    unfolding getRowDescriptions_def Let_def using g(1) a assms(7)
    by (simp add: inp.skip_skip PQmakeEmptyPGresult_def) (simp add: in_skip_def at_start_def)
  have ok: "in_ok ?d" "in_left ?d = r" using in_step[OF f(2), of ?body r] l by simp_all
  have "at_start (?d\<lparr>conn_result := Some ?res, inStart := inCursor ?d\<rparr>) = ?d\<lparr>conn_result := Some ?res, inStart := inCursor ?d\<rparr>"
    by (simp add: at_start_def in_skip_def)
  then show ?thesis unfolding disp rows using ok assms(6,7)
    by (simp add: conn_ok_def in_ok_def in_left_def at_start_def in_skip_def)
qed


lemma row_processor:
  "conn_result d = Some res \<Longrightarrow> inBuffer d = buf \<Longrightarrow>
   map (\<lambda>(clen, pos). if clen < 0 then None else Some (take (nat clen) (drop (nat pos) buf))) cols = tup \<Longrightarrow>
   pqRowProcessor cols d = d\<lparr>conn_result := Some (res\<lparr>tuples := tuples res @ [tup]\<rparr>)\<rparr>"
  by (hypsubst, simp add: pqRowProcessor_def)

lemma parse_tuple:
  assumes "conn_ok c" "in_left (at_start c) = framed 0x44 (htons (word_of_int (int (length vs))) @ concat (map field_bytes vs)) @ r"
    "length (concat (map field_bytes vs)) < 29994" "length vs < 2 ^ 16" "list_all (\<lambda>v. v \<noteq> [] \<and> int32_range (int (length v))) vs"
    "conn_async c = PGASYNC_BUSY" "conn_result c = Some res" "resultStatus res = PGRES_TUPLES_OK" "numAttributes res = int (length vs)"
  shows "\<exists>c'. parse_message other c = Inr c' \<and> conn_ok c' \<and> in_left (at_start c') = r \<and> conn_async c' = PGASYNC_BUSY \<and>
    conn_result c' = Some (res\<lparr>tuples := tuples res @ [map Some vs]\<rparr>)"
proof -
  let ?body = "htons (word_of_int (int (length vs))) @ concat (map field_bytes vs)"
  let ?c = "in_skip 5 (at_start c)"
  have f: "parse_message other c = dispatch_message other (char_of (unat (0x44 :: uint8))) (int (length ?body)) ?c" "in_ok ?c" "in_left ?c = ?body @ r"
    using parse_frame[OF assms(1,2)] assms(3) by simp_all
  have D: "char_of (unat (0x44 :: uint8)) = CHR ''D''" by (simp add: char_of_def bit_iff_odd)
  have disp: "parse_message other c = Inr (getAnotherTuple (int (length ?body)) ?c)"
    unfolding f(1) D dispatch_message_def busy_message_def using assms(6-8) by (simp add: in_skip_def at_start_def)
  have l: "in_left ?c = htons (word_of_int (int (length vs))) @ concat (map field_bytes vs) @ r" using f(3) by simp
  have n: "uint (word_of_int (int (length vs)) :: uint16) = int (length vs)" using assms(4) by (simp add: unsigned_of_nat take_bit_nat_eq_self)
  note g = get_int16[OF f(2) l, unfolded n]
  obtain cols where a: "read_many (length vs) get_field (in_skip 2 ?c) = Inr (cols, in_skip (length (concat (map field_bytes vs))) (in_skip 2 ?c))"
    "map (\<lambda>(clen, pos). if clen < 0 then None else Some (take (nat clen) (drop (nat pos) (inBuffer (in_skip 2 ?c))))) cols = map Some vs"
    using get_fields[OF g(2,3) assms(5)] by blast
  let ?d = "in_skip (length ?body) ?c"
  have res: "conn_result ?c = Some res" "inBuffer (in_skip 2 ?c) = inBuffer c" "inBuffer ?d = inBuffer c" "conn_result ?d = Some res"
    using assms(7) by (simp_all add: in_skip_def at_start_def)
  have row: "getAnotherTuple (int (length ?body)) ?c = ?d\<lparr>inStart := inCursor ?d, conn_result := Some (res\<lparr>tuples := tuples res @ [map Some vs]\<rparr>)\<rparr>"
  proof -
    define d where "d = ?d"
    have d: "in_skip (length (concat (map field_bytes vs))) (in_skip 2 ?c) = d" by (simp add: inp.skip_skip d_def)
    have d_simps: "inCursor d = inStart d + 5 + int (length ?body)" "inBuffer d = inBuffer c" "conn_result d = Some res"
      using res by (simp_all add: in_skip_def at_start_def d_def)
    have "getAnotherTuple (int (length ?body)) ?c = pqRowProcessor cols (d\<lparr>inStart := inCursor d\<rparr>)"
      unfolding getAnotherTuple_def Let_def using g(1) a(1)[unfolded d] res(1) assms(9) d_simps(1) by simp
    also have "\<dots> = d\<lparr>inStart := inCursor d, conn_result := Some (res\<lparr>tuples := tuples res @ [map Some vs]\<rparr>)\<rparr>"
      by (rule row_processor) (use a(2)[unfolded res(2)] d_simps in simp_all)
    also have "\<dots> = ?d\<lparr>inStart := inCursor ?d, conn_result := Some (res\<lparr>tuples := tuples res @ [map Some vs]\<rparr>)\<rparr>" by (simp only: d_def)
    finally show ?thesis .
  qed
  have ok: "in_ok ?d" "in_left ?d = r" using in_step[OF f(2), of ?body r] l by simp_all
  show ?thesis unfolding disp row using ok assms(6)
    by (simp add: conn_ok_def in_ok_def in_left_def at_start_def in_skip_def)
qed

lemma parse_complete:
  assumes "conn_ok c" "in_left (at_start c) = framed 0x43 (tag @ [0]) @ r" "length tag < 29995" "0 \<notin> set tag"
    "conn_async c = PGASYNC_BUSY" "conn_result c = Some res"
  shows "\<exists>c'. parse_message other c = Inr c' \<and> conn_ok c' \<and> in_left (at_start c') = r \<and> conn_async c' = PGASYNC_READY \<and>
    conn_result c' = Some (res\<lparr>cmdStatus := take (CMDSTATUS_LEN - 1) tag\<rparr>)"
proof -
  let ?c = "in_skip 5 (at_start c)" and ?body = "tag @ [0]"
  have f: "parse_message other c = dispatch_message other (char_of (unat (0x43 :: uint8))) (int (length ?body)) ?c" "in_ok ?c" "in_left ?c = ?body @ r"
    using parse_frame[OF assms(1,2)] assms(3) by simp_all
  have C: "char_of (unat (0x43 :: uint8)) = CHR ''C''" by (simp add: char_of_def bit_iff_odd)
  let ?d = "in_skip (length ?body) ?c" and ?res = "res\<lparr>cmdStatus := take (CMDSTATUS_LEN - 1) tag\<rparr>"
  have "pqGets ?c = Inr (tag, ?d)" using in_string.get_enc[OF f(2) assms(4) f(3)] .
  then have "command_complete ?c = Inr (?d\<lparr>conn_result := Some ?res, conn_async := PGASYNC_READY\<rparr>)"
    using assms(6) by (simp add: command_complete_def make_result_def in_skip_def at_start_def)
  then have "parse_message other c = Inr (?d\<lparr>conn_result := Some ?res, conn_async := PGASYNC_READY, inStart := inCursor ?d\<rparr>)"
    unfolding f(1) C dispatch_message_def busy_message_def consume_def consumed_def using assms(5)
    by (simp add: in_skip_def at_start_def)
  moreover have "in_ok ?d" "in_left ?d = r" using in_step[OF f(2), of ?body r] f(3) by simp_all
  ultimately show ?thesis by (simp add: conn_ok_def in_ok_def in_left_def at_start_def in_skip_def)
qed

text \<open>A row description, one row and the end of the command make the result of the query.\<close>

lemma query_answer:
  assumes "conn_ok c" "conn_async c = PGASYNC_BUSY" "queryclass c = PGQUERY_SIMPLE" "conn_result c = None" "length vs = length atts"
    "length atts < 2 ^ 16" "list_all attdesc_ok atts" "list_all (\<lambda>v. v \<noteq> [] \<and> int32_range (int (length v))) vs" "0 \<notin> set tag"
    "length (concat (map attdesc_bytes atts)) < 29994" "length (concat (map field_bytes vs)) < 29994" "length tag < 29995"
    "in_left (at_start c) = framed 0x54 (htons (word_of_int (int (length atts))) @ concat (map attdesc_bytes atts)) @
       framed 0x44 (htons (word_of_int (int (length vs))) @ concat (map field_bytes vs)) @ framed 0x43 (tag @ [0])"
  shows "\<exists>c'. pqParseInput3 other c = Some c' \<and> conn_async c' = PGASYNC_READY \<and> conn_result c' =
    Some \<lparr>resultStatus = PGRES_TUPLES_OK, numAttributes = int (length atts), attDescs = atts, tuples = [map Some vs],
      binary = (atts \<noteq> [] \<and> list_all (\<lambda>a. att_format a = 1) atts), cmdStatus = take (CMDSTATUS_LEN - 1) tag\<rparr>"
proof -
  let ?res = "\<lparr>resultStatus = PGRES_TUPLES_OK, numAttributes = int (length atts), attDescs = atts, tuples = [],
      binary = (atts \<noteq> [] \<and> list_all (\<lambda>a. att_format a = 1) atts), cmdStatus = []\<rparr>"
  obtain c1 where 1: "parse_message other c = Inr c1" "conn_ok c1"
    "in_left (at_start c1) = framed 0x44 (htons (word_of_int (int (length vs))) @ concat (map field_bytes vs)) @ framed 0x43 (tag @ [0])"
    "conn_async c1 = PGASYNC_BUSY" "conn_result c1 = Some ?res"
    using parse_rows[OF assms(1,13,10,6,7,2,3,4)] by blast
  obtain c2 where 2: "parse_message other c1 = Inr c2" "conn_ok c2" "in_left (at_start c2) = framed 0x43 (tag @ [0]) @ []"
    "conn_async c2 = PGASYNC_BUSY" "conn_result c2 = Some (?res\<lparr>tuples := [map Some vs]\<rparr>)"
    using parse_tuple[OF 1(2,3) assms(11) _ assms(8) 1(4,5)] assms(5,6) by auto
  obtain c3 where 3: "parse_message other c2 = Inr c3" "conn_ok c3" "in_left (at_start c3) = []" "conn_async c3 = PGASYNC_READY"
    "conn_result c3 = Some (?res\<lparr>tuples := [map Some vs], cmdStatus := take (CMDSTATUS_LEN - 1) tag\<rparr>)"
    using parse_complete[OF 2(2,3) assms(12,9) 2(4,5)] by auto
  have "inEnd (at_start c3) \<le> inCursor (at_start c3)" using length_in_left[OF in_ok_at_start[OF 3(2)]] 3(3) by simp
  then have 4: "parse_message other c3 = Inl (at_start c3)"
    unfolding parse_message_def at_start_def[symmetric] Let_def by (simp add: pqGetc_def)
  have "pqParseInput3 other c = Some (at_start c3)"
    by (subst pqParseInput3.simps, simp add: 1(1), subst pqParseInput3.simps, simp add: 2(1), subst pqParseInput3.simps, simp add: 3(1),
        subst pqParseInput3.simps, simp add: 4)
  then show ?thesis using 3(4,5) by (simp add: at_start_def)
qed

end
