(* ===== verification/Fts_Probe.thy ===== *)
theory Fts_Probe
  imports Pq_Client
begin

text \<open>
  The fault tolerance prober of the master (\<^verbatim>\<open>fts/ftsprobe.c\<close>, with the catalog update of
  \<^verbatim>\<open>fts/fts.c\<close>).  In a probe cycle it messages every primary, marks mirrors up or down, and
  promotes the mirror of a primary that does not answer.

  The connection library, the network and the clock are the environment: each pass of the main
  loop takes a record of what they return.  A connection holds the parts that the prober reads:
  its status, the status of its query and what its error message says about recovery.  The
  configuration table is a map from segment ids to role, mode and status.  Assertions, which
  production builds leave out, are not part of the definitions.
\<close>


subsection \<open>Configuration\<close>

definition GP_SEGMENT_CONFIGURATION_ROLE_PRIMARY :: char where "GP_SEGMENT_CONFIGURATION_ROLE_PRIMARY = CHR ''p''"
definition GP_SEGMENT_CONFIGURATION_ROLE_MIRROR :: char where "GP_SEGMENT_CONFIGURATION_ROLE_MIRROR = CHR ''m''"
definition GP_SEGMENT_CONFIGURATION_STATUS_UP :: char where "GP_SEGMENT_CONFIGURATION_STATUS_UP = CHR ''u''"
definition GP_SEGMENT_CONFIGURATION_STATUS_DOWN :: char where "GP_SEGMENT_CONFIGURATION_STATUS_DOWN = CHR ''d''"
definition GP_SEGMENT_CONFIGURATION_MODE_INSYNC :: char where "GP_SEGMENT_CONFIGURATION_MODE_INSYNC = CHR ''s''"
definition GP_SEGMENT_CONFIGURATION_MODE_NOTINSYNC :: char where "GP_SEGMENT_CONFIGURATION_MODE_NOTINSYNC = CHR ''n''"

lemmas config_chars = GP_SEGMENT_CONFIGURATION_ROLE_PRIMARY_def GP_SEGMENT_CONFIGURATION_ROLE_MIRROR_def
  GP_SEGMENT_CONFIGURATION_STATUS_UP_def GP_SEGMENT_CONFIGURATION_STATUS_DOWN_def
  GP_SEGMENT_CONFIGURATION_MODE_INSYNC_def GP_SEGMENT_CONFIGURATION_MODE_NOTINSYNC_def

record CdbComponentDatabaseInfo =
  dbid :: int
  segindex :: int
  role :: char
  mode :: char
  status :: char

definition SEGMENT_IS_ACTIVE_PRIMARY :: "CdbComponentDatabaseInfo \<Rightarrow> bool" where
  "SEGMENT_IS_ACTIVE_PRIMARY p \<longleftrightarrow> role p = GP_SEGMENT_CONFIGURATION_ROLE_PRIMARY"

definition SEGMENT_IS_ALIVE :: "CdbComponentDatabaseInfo \<Rightarrow> bool" where
  "SEGMENT_IS_ALIVE p \<longleftrightarrow> status p = GP_SEGMENT_CONFIGURATION_STATUS_UP"

definition SEGMENT_IS_IN_SYNC :: "CdbComponentDatabaseInfo \<Rightarrow> bool" where
  "SEGMENT_IS_IN_SYNC p \<longleftrightarrow> mode p = GP_SEGMENT_CONFIGURATION_MODE_INSYNC"

text \<open>The catalog tables and the shared status array; a history entry has the values of its text.\<close>

record fts_global =
  config :: "int \<Rightarrow> CdbComponentDatabaseInfo option"
  history :: "(int \<times> int \<times> char \<times> char \<times> char) list"
  fts_status :: "int \<Rightarrow> 8 word"


subsection \<open>Messages and connections\<close>

datatype FtsMessageState =
  FTS_PROBE_SEGMENT | FTS_SYNCREP_OFF_SEGMENT | FTS_PROMOTE_SEGMENT
| FTS_PROBE_RETRY_WAIT | FTS_SYNCREP_OFF_RETRY_WAIT | FTS_PROMOTE_RETRY_WAIT
| FTS_PROBE_SUCCESS | FTS_SYNCREP_OFF_SUCCESS | FTS_PROMOTE_SUCCESS
| FTS_PROBE_FAILED | FTS_SYNCREP_OFF_FAILED | FTS_PROMOTE_FAILED
| FTS_RESPONSE_PROCESSED

definition IsFtsMessageStateSuccess :: "FtsMessageState \<Rightarrow> bool" where
  "IsFtsMessageStateSuccess state \<longleftrightarrow>
     state = FTS_PROBE_SUCCESS \<or> state = FTS_SYNCREP_OFF_SUCCESS \<or> state = FTS_PROMOTE_SUCCESS"

definition IsFtsMessageStateFailed :: "FtsMessageState \<Rightarrow> bool" where
  "IsFtsMessageStateFailed state \<longleftrightarrow>
     state = FTS_PROBE_FAILED \<or> state = FTS_SYNCREP_OFF_FAILED \<or> state = FTS_PROMOTE_FAILED"

datatype fts_error =
  NoNextSuccessState FtsMessageState | NoNextFailedState FtsMessageState | InvalidInternalState FtsMessageState
| UnknownDbid int | CannotCreateConnection | InvalidConnectPoll | PollFailed

record XLogRecPtr =
  xlogid :: "32 word"
  xrecoff :: "32 word"

definition XLByteLE :: "XLogRecPtr \<Rightarrow> XLogRecPtr \<Rightarrow> bool" where
  "XLByteLE a b \<longleftrightarrow> xlogid a < xlogid b \<or> xlogid a = xlogid b \<and> xrecoff a \<le> xrecoff b"

text \<open>
  What an error message says about recovery: nothing, that the segment is in recovery without a
  readable location, or the location up to which it has replayed the log.
\<close>

datatype recovery_message = NotInRecovery | InRecoveryUnreadable | InRecovery XLogRecPtr

datatype ConnStatusType = CONNECTION_OK | CONNECTION_BAD | CONNECTION_IN_PROGRESS
datatype PostgresPollingStatusType =
  PGRES_POLLING_FAILED | PGRES_POLLING_READING | PGRES_POLLING_WRITING | PGRES_POLLING_OK | PGRES_POLLING_ACTIVE

record pg_conn =
  conn_status :: ConnStatusType
  asyncStatus :: PGAsyncStatusType
  errorMessage :: recovery_message

definition PQstatus :: "pg_conn option \<Rightarrow> ConnStatusType" where
  "PQstatus conn = (case conn of None \<Rightarrow> CONNECTION_BAD | Some c \<Rightarrow> conn_status c)"

text \<open>
  The flags of a response.  The source reads an \<^verbatim>\<open>int\<close> at the address of a value of one byte and
  assigns it to a \<^verbatim>\<open>bool\<close>, which is a \<^verbatim>\<open>char\<close>: on a little-endian machine the first byte remains.
\<close>

definition Natts_fts_message_response :: int where "Natts_fts_message_response = 5"
definition Anum_fts_message_response_is_mirror_up :: int where "Anum_fts_message_response_is_mirror_up = 0"
definition Anum_fts_message_response_is_in_sync :: int where "Anum_fts_message_response_is_in_sync = 1"
definition Anum_fts_message_response_is_syncrep_enabled :: int where "Anum_fts_message_response_is_syncrep_enabled = 2"
definition Anum_fts_message_response_is_role_mirror :: int where "Anum_fts_message_response_is_role_mirror = 3"
definition Anum_fts_message_response_request_retry :: int where "Anum_fts_message_response_request_retry = 4"

lemmas fts_message_nums = Natts_fts_message_response_def Anum_fts_message_response_is_mirror_up_def
  Anum_fts_message_response_is_in_sync_def Anum_fts_message_response_is_syncrep_enabled_def
  Anum_fts_message_response_is_role_mirror_def Anum_fts_message_response_request_retry_def

definition response_flag :: "PGresult \<Rightarrow> int \<Rightarrow> bool" where
  "response_flag res anum = (case PQgetvalue res 0 anum of None \<Rightarrow> False | Some mem \<Rightarrow> mem ! 0 \<noteq> 0)"

definition is_mirror_up :: "PGresult \<Rightarrow> bool" where
  "is_mirror_up res = response_flag res Anum_fts_message_response_is_mirror_up"

definition is_in_sync :: "PGresult \<Rightarrow> bool" where
  "is_in_sync res = response_flag res Anum_fts_message_response_is_in_sync"

definition is_syncrep_enabled :: "PGresult \<Rightarrow> bool" where
  "is_syncrep_enabled res = response_flag res Anum_fts_message_response_is_syncrep_enabled"

definition is_role_mirror :: "PGresult \<Rightarrow> bool" where
  "is_role_mirror res = response_flag res Anum_fts_message_response_is_role_mirror"

definition request_retry :: "PGresult \<Rightarrow> bool" where
  "request_retry res = response_flag res Anum_fts_message_response_request_retry"

definition tuples_ok :: "PGresult \<Rightarrow> bool" where
  "tuples_ok res \<longleftrightarrow> resultStatus res = PGRES_TUPLES_OK"

record fts_result =
  isPrimaryAlive :: bool
  isMirrorAlive :: bool
  isInSync :: bool
  isSyncRepEnabled :: bool
  isRoleMirror :: bool
  retryRequested :: bool

definition zero_result :: fts_result where
  "zero_result = \<lparr>isPrimaryAlive = False, isMirrorAlive = False, isInSync = False, isSyncRepEnabled = False,
     isRoleMirror = False, retryRequested = False\<rparr>"

type_synonym pollbits = "16 word"

definition POLLIN :: pollbits where "POLLIN = 1"
definition POLLOUT :: pollbits where "POLLOUT = 4"
definition POLLERR :: pollbits where "POLLERR = 8"
definition POLLHUP :: pollbits where "POLLHUP = 16"

record fts_segment_info =
  primary_cdbinfo :: CdbComponentDatabaseInfo
  mirror_cdbinfo :: CdbComponentDatabaseInfo
  result :: fts_result
  state :: FtsMessageState
  poll_events :: pollbits
  poll_revents :: pollbits
  fd_index :: int
  startTime :: int
  retryStartTime :: int
  conn :: "pg_conn option"
  retry_count :: int
  xlogrecptr :: XLogRecPtr
  recovery_making_progress :: bool


subsection \<open>Environment\<close>

text \<open>The results of the connection library for one segment in one pass of the main loop.\<close>

record seg_env =
  PQconnectStart :: "pg_conn option"
  start_time :: int
  PQconnectPoll :: "PostgresPollingStatusType \<times> pg_conn"
  revents :: pollbits
  PQsendQuery :: "bool \<times> pg_conn"
  PQconsumeInput :: "bool \<times> pg_conn"
  PQisBusy :: "bool \<times> pg_conn"
  PQgetResult :: "PGresult option \<times> pg_conn"

text \<open>
  One pass: the segments, whether \<^verbatim>\<open>poll\<close> fails, the clock as \<^verbatim>\<open>ftsPoll\<close> and \<^verbatim>\<open>processRetry\<close> read
  it, and the answers of \<^verbatim>\<open>FtsIsActive\<close> at the loop head and before each response.
\<close>

record round_env =
  seg :: "nat \<Rightarrow> seg_env"
  poll_failed :: bool
  poll_time :: int
  retry_time :: int
  active :: bool
  active_response :: "nat \<Rightarrow> bool"

record fts_guc =
  gp_fts_probe_retries :: int
  gp_fts_probe_timeout :: int

text \<open>The cast \<^verbatim>\<open>(int)\<close> of a difference of two times.\<close>

definition int_cast :: "int \<Rightarrow> int" where
  "int_cast t = sint (word_of_int t :: 32 word)"


subsection \<open>Transitions\<close>

fun nextSuccessState :: "FtsMessageState \<Rightarrow> fts_error + FtsMessageState" where
  "nextSuccessState FTS_PROBE_SEGMENT = Inr FTS_PROBE_SUCCESS"
| "nextSuccessState FTS_SYNCREP_OFF_SEGMENT = Inr FTS_SYNCREP_OFF_SUCCESS"
| "nextSuccessState FTS_PROMOTE_SEGMENT = Inr FTS_PROMOTE_SUCCESS"
| "nextSuccessState s = Inl (NoNextSuccessState s)"

fun nextFailedState :: "FtsMessageState \<Rightarrow> fts_error + FtsMessageState" where
  "nextFailedState FTS_PROBE_SEGMENT = Inr FTS_PROBE_FAILED"
| "nextFailedState FTS_SYNCREP_OFF_SEGMENT = Inr FTS_SYNCREP_OFF_FAILED"
| "nextFailedState FTS_PROMOTE_SEGMENT = Inr FTS_PROMOTE_FAILED"
| "nextFailedState FTS_PROBE_FAILED = Inr FTS_PROBE_FAILED"
| "nextFailedState FTS_SYNCREP_OFF_FAILED = Inr FTS_SYNCREP_OFF_FAILED"
| "nextFailedState FTS_PROMOTE_FAILED = Inr FTS_PROMOTE_FAILED"
| "nextFailedState FTS_PROBE_RETRY_WAIT = Inr FTS_PROBE_FAILED"
| "nextFailedState FTS_SYNCREP_OFF_RETRY_WAIT = Inr FTS_SYNCREP_OFF_FAILED"
| "nextFailedState FTS_PROMOTE_RETRY_WAIT = Inr FTS_PROMOTE_FAILED"
| "nextFailedState s = Inl (NoNextFailedState s)"

definition messaging :: "FtsMessageState \<Rightarrow> bool" where
  "messaging s \<longleftrightarrow> s = FTS_PROBE_SEGMENT \<or> s = FTS_SYNCREP_OFF_SEGMENT \<or> s = FTS_PROMOTE_SEGMENT"

definition fail_segment :: "fts_segment_info \<Rightarrow> fts_error + fts_segment_info" where
  "fail_segment info = result_bind (nextFailedState (state info)) (\<lambda>s. Inr (info\<lparr>state := s\<rparr>))"

definition allDone :: "fts_segment_info list \<Rightarrow> bool" where
  "allDone infos \<longleftrightarrow> list_all (\<lambda>info. state info = FTS_RESPONSE_PROCESSED) infos"

text \<open>A loop over the segments that replaces the entry of each.\<close>

definition foreach_segment ::
  "(nat \<Rightarrow> fts_segment_info \<Rightarrow> fts_error + fts_segment_info) \<Rightarrow> fts_segment_info list \<Rightarrow> fts_error + fts_segment_info list" where
  "foreach_segment f infos =
     for_result 0 (length infos) (\<lambda>i infos. result_bind (f i (infos ! i)) (\<lambda>info. Inr (infos[i := info]))) infos"


subsection \<open>Connecting\<close>

definition ftsConnectStart :: "seg_env \<Rightarrow> fts_segment_info \<Rightarrow> fts_error + bool \<times> fts_segment_info" where
  "ftsConnectStart env info = (case PQconnectStart env of
     None \<Rightarrow> Inl CannotCreateConnection
   | Some c \<Rightarrow>
       (let info = info\<lparr>conn := Some c\<rparr>
        in if conn_status c = CONNECTION_BAD then Inr (False, info)
           else Inr (True, info\<lparr>poll_events := poll_events info OR POLLOUT, startTime := start_time env\<rparr>)))"

definition checkIfFailedDueToRecoveryInProgress :: "fts_segment_info \<Rightarrow> fts_segment_info" where
  "checkIfFailedDueToRecoveryInProgress info = (case map_option errorMessage (conn info) of
     Some (InRecovery tmpptr) \<Rightarrow>
       if XLByteLE tmpptr (xlogrecptr info) then info
       else info\<lparr>recovery_making_progress := True, xlogrecptr := tmpptr\<rparr>
   | _ \<Rightarrow> info)"

definition connect_poll :: "seg_env \<Rightarrow> fts_segment_info \<Rightarrow> fts_error + fts_segment_info" where
  "connect_poll env info =
     (let (polling, c) = PQconnectPoll env; info = info\<lparr>conn := Some c\<rparr>
      in case polling of
           PGRES_POLLING_OK \<Rightarrow> Inr (info\<lparr>poll_events := POLLOUT\<rparr>)
         | PGRES_POLLING_READING \<Rightarrow> Inr (info\<lparr>poll_events := poll_events info OR POLLIN\<rparr>)
         | PGRES_POLLING_WRITING \<Rightarrow> Inr (info\<lparr>poll_events := poll_events info OR POLLOUT\<rparr>)
         | PGRES_POLLING_FAILED \<Rightarrow>
             result_bind (fail_segment info) (\<lambda>info. Inr (checkIfFailedDueToRecoveryInProgress info))
         | PGRES_POLLING_ACTIVE \<Rightarrow> Inl InvalidConnectPoll)"

definition ftsConnect_segment :: "seg_env \<Rightarrow> fts_segment_info \<Rightarrow> fts_error + fts_segment_info" where
  "ftsConnect_segment env info =
     (if conn info \<noteq> None \<and> PQstatus (conn info) = CONNECTION_OK then Inr info
      else if messaging (state info)
      then (let info = info\<lparr>recovery_making_progress := False\<rparr>
            in if conn info = None
               then result_bind (ftsConnectStart env info) (\<lambda>(started, info).
                      if \<not> started then fail_segment info else Inr info)
               else if poll_revents info AND (POLLOUT OR POLLIN) \<noteq> 0 then connect_poll env info
               else Inr info)
      else Inr info)"

definition ftsConnect :: "round_env \<Rightarrow> fts_segment_info list \<Rightarrow> fts_error + fts_segment_info list" where
  "ftsConnect renv infos = foreach_segment (\<lambda>i. ftsConnect_segment (seg renv i)) infos"


subsection \<open>Polling\<close>

definition ftsCheckTimeout :: "fts_guc \<Rightarrow> int \<Rightarrow> fts_segment_info \<Rightarrow> fts_error + fts_segment_info" where
  "ftsCheckTimeout guc now info =
     (if \<not> IsFtsMessageStateSuccess (state info) \<and> int_cast (now - startTime info) > gp_fts_probe_timeout guc
      then fail_segment info else Inr info)"

definition polled :: "fts_segment_info \<Rightarrow> bool" where
  "polled info \<longleftrightarrow> poll_events info AND (POLLIN OR POLLOUT) \<noteq> 0"

text \<open>The first loop fills the array of descriptors; a descriptor stands for its segment.\<close>

fun poll_setup :: "nat \<Rightarrow> fts_segment_info list \<Rightarrow> nat list \<Rightarrow> fts_segment_info list \<times> nat list" where
  "poll_setup i [] fds = ([], fds)"
| "poll_setup i (info # infos) fds =
     (if polled info
      then (let (infos, fds') = poll_setup (Suc i) infos (fds @ [i])
            in (info\<lparr>fd_index := int (length fds)\<rparr> # infos, fds'))
      else (let (infos, fds') = poll_setup (Suc i) infos fds in (info\<lparr>fd_index := -1\<rparr> # infos, fds')))"

definition poll_response :: "fts_guc \<Rightarrow> int \<Rightarrow> pollbits \<Rightarrow> fts_segment_info \<Rightarrow> fts_error + fts_segment_info" where
  "poll_response guc now ev info =
     (let info = info\<lparr>poll_revents := ev\<rparr>
      in result_bind
           (if ev AND poll_events info \<noteq> 0 then Inr (info\<lparr>poll_events := 0\<rparr>)
            else if ev AND (POLLHUP OR POLLERR) \<noteq> 0 then fail_segment info
            else if ev \<noteq> 0 then fail_segment info
            else Inr info)
           (\<lambda>info. ftsCheckTimeout guc now info))"

definition ftsPoll :: "fts_guc \<Rightarrow> round_env \<Rightarrow> fts_segment_info list \<Rightarrow> fts_error + fts_segment_info list" where
  "ftsPoll guc renv infos =
     (let (infos, PollFds) = poll_setup 0 infos []
      in if length PollFds = 0 then Inr infos
         else if poll_failed renv then Inl PollFailed
         else foreach_segment (\<lambda>i info.
                if polled info
                then poll_response guc (poll_time renv) (revents (seg renv (PollFds ! nat (fd_index info)))) info
                else Inr info) infos)"


subsection \<open>Sending and receiving\<close>

definition ftsSend_segment :: "seg_env \<Rightarrow> fts_segment_info \<Rightarrow> fts_error + fts_segment_info" where
  "ftsSend_segment env info =
     (if messaging (state info)
      then if PQstatus (conn info) \<noteq> CONNECTION_OK \<or> asyncStatus (the (conn info)) \<noteq> PGASYNC_IDLE \<or>
              poll_revents info AND POLLOUT = 0
           then Inr info
           else (let (sent, c) = PQsendQuery env; info = info\<lparr>conn := Some c\<rparr>
                 in if sent then Inr (info\<lparr>poll_events := POLLIN\<rparr>) else fail_segment info)
      else Inr info)"

definition ftsSend :: "round_env \<Rightarrow> fts_segment_info list \<Rightarrow> fts_error + fts_segment_info list" where
  "ftsSend renv infos = foreach_segment (\<lambda>i. ftsSend_segment (seg renv i)) infos"

definition FTS_MESSAGE_RESPONSE_NTUPLES :: int where "FTS_MESSAGE_RESPONSE_NTUPLES = 1"

definition probeRecordResponse :: "fts_segment_info \<Rightarrow> PGresult \<Rightarrow> fts_segment_info" where
  "probeRecordResponse info res = info\<lparr>result :=
     \<lparr>isPrimaryAlive = True, isMirrorAlive = is_mirror_up res, isInSync = is_in_sync res,
      isSyncRepEnabled = is_syncrep_enabled res, isRoleMirror = is_role_mirror res, retryRequested = request_retry res\<rparr>\<rparr>"

definition ftsReceive_segment :: "seg_env \<Rightarrow> fts_segment_info \<Rightarrow> fts_error + fts_segment_info" where
  "ftsReceive_segment env info =
     (if messaging (state info)
      then if PQstatus (conn info) \<noteq> CONNECTION_OK \<or> poll_revents info AND POLLIN = 0 then Inr info
           else (let (consumed, c) = PQconsumeInput env; info = info\<lparr>conn := Some c\<rparr>
                 in if \<not> consumed then fail_segment info
                    else (let (busy, c) = PQisBusy env; info = info\<lparr>conn := Some c\<rparr>
                          in if busy then fail_segment info
                             else (let (res, c) = PQgetResult env; info = info\<lparr>conn := Some c\<rparr>
                                   in case res of
                                        None \<Rightarrow> fail_segment info
                                      | Some r \<Rightarrow>
                                          if PQstatus (conn info) = CONNECTION_BAD \<or> \<not> tuples_ok r \<or>
                                             PQnfields r \<noteq> Natts_fts_message_response \<or>
                                             PQntuples r \<noteq> FTS_MESSAGE_RESPONSE_NTUPLES
                                          then fail_segment info
                                          else (let info = probeRecordResponse info r
                                                in result_bind (nextSuccessState (state info))
                                                     (\<lambda>s. Inr (info\<lparr>state := s\<rparr>))))))
      else Inr info)"

definition ftsReceive :: "round_env \<Rightarrow> fts_segment_info list \<Rightarrow> fts_error + fts_segment_info list" where
  "ftsReceive renv infos = foreach_segment (\<lambda>i. ftsReceive_segment (seg renv i)) infos"


subsection \<open>Retrying\<close>

definition retryForFtsFailed :: "fts_guc \<Rightarrow> int \<Rightarrow> fts_segment_info \<Rightarrow> fts_segment_info" where
  "retryForFtsFailed guc now info =
     (if retry_count info = gp_fts_probe_retries guc then info
      else info\<lparr>
        retry_count := retry_count info + 1,
        state := (if state info = FTS_PROBE_SUCCESS \<or> state info = FTS_PROBE_FAILED then FTS_PROBE_RETRY_WAIT
                  else if state info = FTS_SYNCREP_OFF_FAILED then FTS_SYNCREP_OFF_RETRY_WAIT
                  else FTS_PROMOTE_RETRY_WAIT),
        retryStartTime := now,
        conn := None, poll_events := 0, poll_revents := 0,
        result := zero_result\<rparr>)"

definition processRetry_segment :: "fts_guc \<Rightarrow> int \<Rightarrow> fts_segment_info \<Rightarrow> fts_segment_info" where
  "processRetry_segment guc now info = (case state info of
     FTS_PROBE_SUCCESS \<Rightarrow>
       if \<not> (retryRequested (result info) \<and> SEGMENT_IS_ALIVE (mirror_cdbinfo info)) then info
       else retryForFtsFailed guc now info
   | FTS_PROBE_FAILED \<Rightarrow> retryForFtsFailed guc now info
   | FTS_SYNCREP_OFF_FAILED \<Rightarrow> retryForFtsFailed guc now info
   | FTS_PROMOTE_FAILED \<Rightarrow> retryForFtsFailed guc now info
   | FTS_PROBE_RETRY_WAIT \<Rightarrow> if int_cast (now - retryStartTime info) < 1 then info else info\<lparr>state := FTS_PROBE_SEGMENT\<rparr>
   | FTS_SYNCREP_OFF_RETRY_WAIT \<Rightarrow>
       if int_cast (now - retryStartTime info) < 1 then info else info\<lparr>state := FTS_SYNCREP_OFF_SEGMENT\<rparr>
   | FTS_PROMOTE_RETRY_WAIT \<Rightarrow> if int_cast (now - retryStartTime info) < 1 then info else info\<lparr>state := FTS_PROMOTE_SEGMENT\<rparr>
   | _ \<Rightarrow> info)"

definition processRetry :: "fts_guc \<Rightarrow> round_env \<Rightarrow> fts_segment_info list \<Rightarrow> fts_error + fts_segment_info list" where
  "processRetry guc renv infos = foreach_segment (\<lambda>i info. Inr (processRetry_segment guc (retry_time renv) info)) infos"


subsection \<open>Updating the configuration\<close>

definition status_char :: "bool \<Rightarrow> char" where
  "status_char IsSegmentAlive =
     (if IsSegmentAlive then GP_SEGMENT_CONFIGURATION_STATUS_UP else GP_SEGMENT_CONFIGURATION_STATUS_DOWN)"

definition mode_char :: "bool \<Rightarrow> char" where
  "mode_char IsInSync =
     (if IsInSync then GP_SEGMENT_CONFIGURATION_MODE_INSYNC else GP_SEGMENT_CONFIGURATION_MODE_NOTINSYNC)"

definition probeWalRepUpdateConfig :: "int \<Rightarrow> int \<Rightarrow> char \<Rightarrow> bool \<Rightarrow> bool \<Rightarrow> fts_global \<Rightarrow> fts_error + fts_global" where
  "probeWalRepUpdateConfig db segidx newrole IsSegmentAlive IsInSync g =
     (let g = g\<lparr>history := history g @ [(db, segidx, newrole, status_char IsSegmentAlive, mode_char IsInSync)]\<rparr>
      in case config g db of
           None \<Rightarrow> Inl (UnknownDbid db)
         | Some tuple \<Rightarrow> Inr (g\<lparr>config := (config g)(db \<mapsto>
             tuple\<lparr>role := newrole, status := status_char IsSegmentAlive, mode := mode_char IsInSync\<rparr>)\<rparr>))"

definition FTS_STATUS_SET_UP :: "8 word \<Rightarrow> 8 word" where
  "FTS_STATUS_SET_UP st = st OR 1"

definition FTS_STATUS_SET_DOWN :: "8 word \<Rightarrow> 8 word" where
  "FTS_STATUS_SET_DOWN st = st AND NOT 1"

definition set_status :: "int \<Rightarrow> bool \<Rightarrow> fts_global \<Rightarrow> fts_global" where
  "set_status db alive g = g\<lparr>fts_status := (fts_status g)(db :=
     (if alive then FTS_STATUS_SET_UP (fts_status g db) else FTS_STATUS_SET_DOWN (fts_status g db)))\<rparr>"

definition updateConfiguration ::
  "CdbComponentDatabaseInfo \<Rightarrow> CdbComponentDatabaseInfo \<Rightarrow> char \<Rightarrow> char \<Rightarrow> bool \<Rightarrow> bool \<Rightarrow> bool \<Rightarrow> fts_global \<Rightarrow>
     fts_error + bool \<times> fts_global" where
  "updateConfiguration primary mirror newPrimaryRole newMirrorRole IsInSync IsPrimaryAlive IsMirrorAlive g =
     (let UpdatePrimary = (IsPrimaryAlive \<noteq> SEGMENT_IS_ALIVE primary);
          UpdateMirror = (IsMirrorAlive \<noteq> SEGMENT_IS_ALIVE mirror);
          both = (IsInSync \<noteq> SEGMENT_IS_IN_SYNC primary);
          UpdatePrimary = (both \<or> UpdatePrimary);
          UpdateMirror = (both \<or> UpdateMirror);
          UpdateNeeded = (UpdatePrimary \<or> UpdateMirror)
      in if UpdateNeeded
         then result_bind
                (if UpdatePrimary
                 then probeWalRepUpdateConfig (dbid primary) (segindex primary) newPrimaryRole IsPrimaryAlive IsInSync g
                 else Inr g) (\<lambda>g. result_bind
                (if UpdateMirror
                 then probeWalRepUpdateConfig (dbid mirror) (segindex mirror) newMirrorRole IsMirrorAlive IsInSync g
                 else Inr g) (\<lambda>g.
              Inr (True, set_status (dbid mirror) IsMirrorAlive (set_status (dbid primary) IsPrimaryAlive g))))
         else Inr (False, g))"


subsection \<open>Processing the responses\<close>

definition ftsResponseReady :: "fts_segment_info \<Rightarrow> bool" where
  "ftsResponseReady info \<longleftrightarrow> IsFtsMessageStateSuccess (state info) \<or> IsFtsMessageStateFailed (state info)"

definition reset_segment :: "fts_segment_info \<Rightarrow> fts_segment_info" where
  "reset_segment info = info\<lparr>result := zero_result, conn := None, poll_events := 0, poll_revents := 0, retry_count := 0\<rparr>"

text \<open>The switch of \<^verbatim>\<open>processResponse\<close> and the reset after it, for a segment whose response is ready.\<close>

definition processResponse_segment ::
  "fts_segment_info \<Rightarrow> fts_global \<Rightarrow> fts_error + fts_segment_info \<times> bool \<times> fts_global" where
  "processResponse_segment info g =
     (let primary = primary_cdbinfo info;
          mirror = mirror_cdbinfo info;
          IsPrimaryAlive = isPrimaryAlive (result info);
          IsMirrorAlive = (if IsPrimaryAlive then isMirrorAlive (result info) else SEGMENT_IS_ALIVE mirror);
          IsInSync = (if IsPrimaryAlive then isInSync (result info) else False)
      in result_bind
        (case state info of
           FTS_PROBE_SUCCESS \<Rightarrow>
             if isSyncRepEnabled (result info) \<and> \<not> IsMirrorAlive
             then if \<not> retryRequested (result info)
                  then result_bind (updateConfiguration primary mirror GP_SEGMENT_CONFIGURATION_ROLE_PRIMARY
                                      GP_SEGMENT_CONFIGURATION_ROLE_MIRROR IsInSync IsPrimaryAlive IsMirrorAlive g)
                         (\<lambda>(updated, g). Inr (info\<lparr>state := FTS_SYNCREP_OFF_SEGMENT\<rparr>, updated, g))
                  else Inr (info\<lparr>state := FTS_RESPONSE_PROCESSED\<rparr>, False, g)
             else if isRoleMirror (result info)
             then Inr (info\<lparr>state := FTS_PROMOTE_SEGMENT\<rparr>, False, g)
             else result_bind (updateConfiguration primary mirror GP_SEGMENT_CONFIGURATION_ROLE_PRIMARY
                                 GP_SEGMENT_CONFIGURATION_ROLE_MIRROR IsInSync IsPrimaryAlive IsMirrorAlive g)
                    (\<lambda>(updated, g). Inr (info\<lparr>state := FTS_RESPONSE_PROCESSED\<rparr>, updated, g))
         | FTS_PROBE_FAILED \<Rightarrow>
             if recovery_making_progress info then Inr (info\<lparr>state := FTS_RESPONSE_PROCESSED\<rparr>, False, g)
             else if SEGMENT_IS_IN_SYNC mirror
             then result_bind (updateConfiguration primary mirror GP_SEGMENT_CONFIGURATION_ROLE_MIRROR
                                 GP_SEGMENT_CONFIGURATION_ROLE_PRIMARY IsInSync IsPrimaryAlive IsMirrorAlive g)
                    (\<lambda>(updated, g). Inr (info\<lparr>state := FTS_PROMOTE_SEGMENT, primary_cdbinfo := mirror,
                                              mirror_cdbinfo := primary\<rparr>, updated, g))
             else Inr (info\<lparr>state := FTS_RESPONSE_PROCESSED\<rparr>, False, g)
         | FTS_SYNCREP_OFF_FAILED \<Rightarrow> Inr (info\<lparr>state := FTS_RESPONSE_PROCESSED\<rparr>, False, g)
         | FTS_PROMOTE_FAILED \<Rightarrow> Inr (info\<lparr>state := FTS_RESPONSE_PROCESSED\<rparr>, False, g)
         | FTS_PROMOTE_SUCCESS \<Rightarrow> Inr (info\<lparr>state := FTS_RESPONSE_PROCESSED\<rparr>, False, g)
         | FTS_SYNCREP_OFF_SUCCESS \<Rightarrow> Inr (info\<lparr>state := FTS_RESPONSE_PROCESSED\<rparr>, False, g)
         | s \<Rightarrow> Inl (InvalidInternalState s))
        (\<lambda>(info, updated, g). Inr (reset_segment info, updated, g)))"

fun processResponse ::
  "(nat \<Rightarrow> bool) \<Rightarrow> nat \<Rightarrow> fts_segment_info list \<Rightarrow> bool \<Rightarrow> fts_global \<Rightarrow> fts_error + fts_segment_info list \<times> bool \<times> fts_global" where
  "processResponse act i [] is_updated g = Inr ([], is_updated, g)"
| "processResponse act i (info # infos) is_updated g =
     (if \<not> act i then Inr (info # infos, is_updated, g)
      else if \<not> ftsResponseReady info
      then result_bind (processResponse act (Suc i) infos is_updated g) (\<lambda>(infos, u, g). Inr (info # infos, u, g))
      else result_bind (processResponse_segment info g) (\<lambda>(info, updated, g).
             result_bind (processResponse act (Suc i) infos (is_updated \<or> updated) g)
               (\<lambda>(infos, u, g). Inr (info # infos, u, g))))"


subsection \<open>The probe cycle\<close>

definition FtsGetPeerSegment :: "CdbComponentDatabaseInfo list \<Rightarrow> int \<Rightarrow> int \<Rightarrow> CdbComponentDatabaseInfo option" where
  "FtsGetPeerSegment segment_db_info content db =
     for_return 0 (length segment_db_info)
       (\<lambda>i. let segInfo = segment_db_info ! i
            in if segindex segInfo = content \<and> dbid segInfo \<noteq> db then Some segInfo else None)"

definition new_segment :: "CdbComponentDatabaseInfo \<Rightarrow> CdbComponentDatabaseInfo \<Rightarrow> fts_segment_info" where
  "new_segment primary mirror = \<lparr>primary_cdbinfo = primary, mirror_cdbinfo = mirror, result = zero_result,
     state = FTS_PROBE_SEGMENT, poll_events = 0, poll_revents = 0, fd_index = 0, startTime = 0, retryStartTime = 0,
     conn = None, retry_count = 0, xlogrecptr = \<lparr>xlogid = 0, xrecoff = 0\<rparr>, recovery_making_progress = False\<rparr>"

text \<open>The entries of the primaries that have a mirror, in the order of the configuration.\<close>

definition FtsWalRepInitProbeContext :: "CdbComponentDatabaseInfo list \<Rightarrow> fts_segment_info list" where
  "FtsWalRepInitProbeContext segment_db_info =
     concat (map (\<lambda>primary.
       if \<not> SEGMENT_IS_ACTIVE_PRIMARY primary then []
       else (case FtsGetPeerSegment segment_db_info (segindex primary) (dbid primary) of
               None \<Rightarrow> [] | Some mirror \<Rightarrow> [new_segment primary mirror])) segment_db_info)"

text \<open>One pass of the main loop.\<close>

definition fts_messages :: "fts_guc \<Rightarrow> round_env \<Rightarrow> fts_segment_info list \<Rightarrow> fts_error + fts_segment_info list" where
  "fts_messages guc renv infos =
     result_bind (ftsConnect renv infos) (\<lambda>infos.
     result_bind (ftsPoll guc renv infos) (\<lambda>infos.
     result_bind (ftsSend renv infos) (\<lambda>infos.
     result_bind (ftsReceive renv infos) (\<lambda>infos. processRetry guc renv infos))))"

type_synonym fts_state = "fts_segment_info list \<times> bool \<times> fts_global"

definition fts_round :: "fts_guc \<Rightarrow> round_env \<Rightarrow> fts_state \<Rightarrow> fts_error + fts_state" where
  "fts_round guc renv = (\<lambda>(infos, is_updated, g).
     result_bind (fts_messages guc renv infos) (\<lambda>infos. processResponse (active_response renv) 0 infos is_updated g))"

partial_function (option) fts_loop :: "fts_guc \<Rightarrow> (nat \<Rightarrow> round_env) \<Rightarrow> nat \<Rightarrow> fts_state \<Rightarrow> (fts_error + fts_state) option" where
  "fts_loop guc envs k st =
     (if \<not> allDone (fst st) \<and> active (envs k)
      then (case fts_round guc (envs k) st of
              Inl e \<Rightarrow> Some (Inl e)
            | Inr st \<Rightarrow> fts_loop guc envs (Suc k) st)
      else Some (Inr st))"

definition FtsWalRepMessageSegments ::
  "fts_guc \<Rightarrow> (nat \<Rightarrow> round_env) \<Rightarrow> CdbComponentDatabaseInfo list \<Rightarrow> fts_global \<Rightarrow> (fts_error + bool \<times> fts_global) option" where
  "FtsWalRepMessageSegments guc envs segment_db_info g =
     Option.bind (fts_loop guc envs 0 (FtsWalRepInitProbeContext segment_db_info, False, g))
       (\<lambda>r. Some (result_bind r (\<lambda>(infos, is_updated, g). Inr (is_updated, g))))"

end
