(* ===== verification/Fts_Segment.thy ===== *)
theory Fts_Segment
  imports Fts_Probe
begin

text \<open>
  One segment in one pass of the prober's main loop.  The loops over the segments treat each segment
  alone; a pass keeps the invariant of a segment, reaches no internal error, and hands a failure on
  only when all its retries are used.
\<close>


subsection \<open>Loops over segments\<close>

lemma foreach_prefix:
  fixes f :: "nat \<Rightarrow> fts_segment_info \<Rightarrow> fts_error + fts_segment_info"
  assumes "k \<le> length xs"
  shows "case for_result 0 k (\<lambda>i ys. result_bind (f i (ys ! i)) (\<lambda>y. Inr (ys[i := y]))) xs of
      Inl e \<Rightarrow> \<exists>i<k. f i (xs ! i) = Inl e
    | Inr ys \<Rightarrow> length ys = length xs \<and> (\<forall>i<k. f i (xs ! i) = Inr (ys ! i)) \<and> (\<forall>i. k \<le> i \<longrightarrow> ys ! i = xs ! i)"
  using assms
proof (induction k)
  case 0
  then show ?case by (simp add: for_result_def)
next
  case (Suc k)
  let ?r = "for_result 0 k (\<lambda>i ys. result_bind (f i (ys ! i)) (\<lambda>y. Inr (ys[i := y]))) xs"
  show ?case
  proof (cases ?r)
    case (Inl e)
    then obtain i where "i < k" "f i (xs ! i) = Inl e" using Suc by auto
    then show ?thesis using Inl by (auto simp: for_result_Suc intro: exI[of _ i])
  next
    case (Inr ys)
    then have ys: "length ys = length xs" "\<forall>i<k. f i (xs ! i) = Inr (ys ! i)" "\<forall>i. k \<le> i \<longrightarrow> ys ! i = xs ! i"
      using Suc by auto
    show ?thesis
    proof (cases "f k (xs ! k)")
      case (Inl e)
      then show ?thesis using Inr ys by (auto simp: for_result_Suc intro: exI[of _ k])
    next
      case (Inr y)
      then show ?thesis using \<open>?r = Inr ys\<close> ys Suc.prems by (auto simp: for_result_Suc nth_list_update less_Suc_eq)
    qed
  qed
qed

lemma foreach_segment_Inr:
  "foreach_segment f xs = Inr ys \<Longrightarrow> length ys = length xs \<and> (\<forall>i<length xs. f i (xs ! i) = Inr (ys ! i))"
  using foreach_prefix[of "length xs" xs f] by (simp add: foreach_segment_def)

lemma foreach_segment_Inl:
  "foreach_segment f xs = Inl e \<Longrightarrow> \<exists>i<length xs. f i (xs ! i) = Inl e"
  using foreach_prefix[of "length xs" xs f] by (simp add: foreach_segment_def)

lemma poll_setup:
  assumes "poll_setup i infos fds = (infos', fds')"
  shows "length infos' = length infos \<and> length fds \<le> length fds' \<and> take (length fds) fds' = fds \<and>
    (\<forall>j<length infos. infos' ! j = (infos ! j)\<lparr>fd_index := fd_index (infos' ! j)\<rparr> \<and>
      (polled (infos ! j) \<longrightarrow> 0 \<le> fd_index (infos' ! j) \<and> nat (fd_index (infos' ! j)) < length fds' \<and>
         fds' ! nat (fd_index (infos' ! j)) = i + j)) \<and>
    (length fds' = length fds \<longrightarrow> (\<forall>j<length infos. \<not> polled (infos ! j)))"
  using assms
proof (induction infos arbitrary: i fds infos' fds')
  case Nil
  then show ?case by simp
next
  case (Cons info infos)
  let ?fds = "if polled info then fds @ [i] else fds"
  obtain rest where r: "poll_setup (Suc i) infos ?fds = (rest, fds')"
    "infos' = info\<lparr>fd_index := if polled info then int (length fds) else -1\<rparr> # rest"
    using Cons.prems by (auto split: if_splits prod.splits)
  note IH = Cons.IH[OF r(1)]
  have head: "fds' ! length fds = i" "length fds < length fds'" if "polled info"
    using IH that nth_take[of "length fds" "Suc (length fds)" fds'] by auto
  show ?case
  proof (intro conjI allI impI)
    fix j assume j: "j < length (info # infos)"
    show "infos' ! j = ((info # infos) ! j)\<lparr>fd_index := fd_index (infos' ! j)\<rparr>"
      using IH r(2) j by (cases j) auto
    assume p: "polled ((info # infos) ! j)"
    show "0 \<le> fd_index (infos' ! j)" "nat (fd_index (infos' ! j)) < length fds'" "fds' ! nat (fd_index (infos' ! j)) = i + j"
      using IH r(2) j p head by (cases j; simp)+
  next
    fix j assume "length fds' = length fds" "j < length (info # infos)"
    then show "\<not> polled ((info # infos) ! j)" using IH head by (cases j) (auto split: if_splits)
  qed (use IH r(2) in \<open>auto split: if_splits simp: take_Suc_conv_app_nth\<close>)
qed


definition poll_step :: "fts_guc \<Rightarrow> round_env \<Rightarrow> nat \<Rightarrow> fts_segment_info \<Rightarrow> fts_segment_info \<Rightarrow> bool" where
  "poll_step guc renv i a b \<longleftrightarrow> (\<exists>d.
     (if polled a then poll_response guc (poll_time renv) (revents (seg renv i)) (a\<lparr>fd_index := d\<rparr>)
      else Inr (a\<lparr>fd_index := d\<rparr>)) = Inr b)"

lemma polled_fd_index [simp]: "polled (info\<lparr>fd_index := d\<rparr>) = polled info"
  by (simp add: polled_def)

lemma poll_setup_nth:
  assumes "poll_setup 0 xs [] = (zs, fds)"
  shows "length zs = length xs" "i < length xs \<Longrightarrow> \<exists>d. zs ! i = (xs ! i)\<lparr>fd_index := d\<rparr> \<and> (polled (xs ! i) \<longrightarrow> fds ! nat d = i)"
    "fds = [] \<Longrightarrow> i < length xs \<Longrightarrow> \<not> polled (xs ! i)"
proof -
  note s = poll_setup[OF assms]
  show "length zs = length xs" "fds = [] \<Longrightarrow> i < length xs \<Longrightarrow> \<not> polled (xs ! i)" using s by auto
  assume "i < length xs"
  then have "zs ! i = (xs ! i)\<lparr>fd_index := fd_index (zs ! i)\<rparr>" "polled (xs ! i) \<longrightarrow> fds ! nat (fd_index (zs ! i)) = i"
    using s by simp_all
  then show "\<exists>d. zs ! i = (xs ! i)\<lparr>fd_index := d\<rparr> \<and> (polled (xs ! i) \<longrightarrow> fds ! nat d = i)" by blast
qed

lemma ftsPoll_Inr:
  assumes "ftsPoll guc renv xs = Inr ys"
  shows "length ys = length xs \<and> (\<forall>i<length xs. poll_step guc renv i (xs ! i) (ys ! i))"
proof -
  obtain zs fds where z: "poll_setup 0 xs [] = (zs, fds)" by fastforce
  note s = poll_setup_nth[OF z]
  show ?thesis
  proof (cases "fds = []")
    case True
    then have "ys = zs" using assms z by (simp add: ftsPoll_def)
    then show ?thesis using s True by (metis poll_step_def)
  next
    case False
    then have f: "length ys = length zs \<and> (\<forall>i<length zs.
        (if polled (zs ! i) then poll_response guc (poll_time renv) (revents (seg renv (fds ! nat (fd_index (zs ! i))))) (zs ! i)
         else Inr (zs ! i)) = Inr (ys ! i))"
      using assms z by (intro foreach_segment_Inr) (simp add: ftsPoll_def split: if_splits)
    have "poll_step guc renv i (xs ! i) (ys ! i)" if i: "i < length xs" for i
    proof -
      obtain d where d: "zs ! i = (xs ! i)\<lparr>fd_index := d\<rparr>" "polled (xs ! i) \<longrightarrow> fds ! nat d = i" using s(2)[OF i] by blast
      have "(if polled (zs ! i) then poll_response guc (poll_time renv) (revents (seg renv (fds ! nat (fd_index (zs ! i))))) (zs ! i)
         else Inr (zs ! i)) = Inr (ys ! i)" using f i s(1) by simp
      then show ?thesis using d unfolding poll_step_def by (cases "polled (xs ! i)") auto
    qed
    then show ?thesis using s(1) f by simp
  qed
qed

lemma ftsPoll_Inl:
  assumes "ftsPoll guc renv xs = Inl e"
  shows "e = PollFailed \<or> (\<exists>i<length xs. polled (xs ! i) \<and> (\<exists>ev d. poll_response guc (poll_time renv) ev ((xs ! i)\<lparr>fd_index := d\<rparr>) = Inl e))"
proof -
  obtain zs fds where z: "poll_setup 0 xs [] = (zs, fds)" by fastforce
  note s = poll_setup_nth[OF z]
  show ?thesis
  proof (cases "poll_failed renv")
    case True
    then show ?thesis using assms z by (auto simp: ftsPoll_def split: if_splits)
  next
    case False
    then have "foreach_segment (\<lambda>i info. if polled info
        then poll_response guc (poll_time renv) (revents (seg renv (fds ! nat (fd_index info)))) info else Inr info) zs = Inl e"
      using assms z by (simp add: ftsPoll_def split: if_splits)
    from foreach_segment_Inl[OF this] obtain i where i: "i < length zs" "polled (zs ! i)"
      "poll_response guc (poll_time renv) (revents (seg renv (fds ! nat (fd_index (zs ! i))))) (zs ! i) = Inl e"
      by (auto split: if_splits)
    moreover obtain d where "zs ! i = (xs ! i)\<lparr>fd_index := d\<rparr>" using s(1) s(2)[of i] i(1) by auto
    ultimately show ?thesis using s(1) by auto
  qed
qed

text \<open>One segment in one pass, up to the processing of its response.\<close>

definition seg_pass :: "fts_guc \<Rightarrow> round_env \<Rightarrow> nat \<Rightarrow> fts_segment_info \<Rightarrow> fts_segment_info \<Rightarrow> bool" where
  "seg_pass guc renv i info info' \<longleftrightarrow> (\<exists>a b c d.
     ftsConnect_segment (seg renv i) info = Inr a \<and> poll_step guc renv i a b \<and>
     ftsSend_segment (seg renv i) b = Inr c \<and> ftsReceive_segment (seg renv i) c = Inr d \<and>
     info' = processRetry_segment guc (retry_time renv) d)"

lemma seg_passE:
  assumes "seg_pass guc renv i info info'"
  obtains (step) a b c d where "ftsConnect_segment (seg renv i) info = Inr a" "poll_step guc renv i a b"
    "ftsSend_segment (seg renv i) b = Inr c" "ftsReceive_segment (seg renv i) c = Inr d"
    "info' = processRetry_segment guc (retry_time renv) d"
  using assms by (auto simp: seg_pass_def)

lemma fts_messages_Inr:
  assumes "fts_messages guc renv infos = Inr infos'"
  shows "length infos' = length infos \<and> (\<forall>i<length infos. seg_pass guc renv i (infos ! i) (infos' ! i))"
proof -
  obtain as bs cs ds where *: "ftsConnect renv infos = Inr as" "ftsPoll guc renv as = Inr bs" "ftsSend renv bs = Inr cs"
    "ftsReceive renv cs = Inr ds" "processRetry guc renv ds = Inr infos'"
    using assms by (auto simp: fts_messages_def result_bind_Inr_iff)
  note steps = foreach_segment_Inr[OF *(1)[unfolded ftsConnect_def]] ftsPoll_Inr[OF *(2)]
    foreach_segment_Inr[OF *(3)[unfolded ftsSend_def]] foreach_segment_Inr[OF *(4)[unfolded ftsReceive_def]]
    foreach_segment_Inr[OF *(5)[unfolded processRetry_def]]
  show ?thesis unfolding seg_pass_def using steps by fastforce
qed


subsection \<open>The state of a segment\<close>

definition waiting :: "FtsMessageState \<Rightarrow> bool" where
  "waiting s \<longleftrightarrow> s = FTS_PROBE_RETRY_WAIT \<or> s = FTS_SYNCREP_OFF_RETRY_WAIT \<or> s = FTS_PROMOTE_RETRY_WAIT"

text \<open>
  In every step of a pass: only an open connection is polled, a segment that waits or is done has
  none, a result is recorded with a success only, and the retries are bounded.  \<open>head_ok\<close> holds at the loop head, \<open>mid_ok\<close> up to receiving.
\<close>

definition seg_ok :: "fts_guc \<Rightarrow> fts_segment_info \<Rightarrow> bool" where
  "seg_ok guc info \<longleftrightarrow> (polled info \<longrightarrow> conn info \<noteq> None) \<and>
     (waiting (state info) \<or> state info = FTS_RESPONSE_PROCESSED \<longrightarrow> conn info = None \<and> poll_events info = 0 \<and> poll_revents info = 0) \<and>
     (\<not> IsFtsMessageStateSuccess (state info) \<longrightarrow> result info = zero_result) \<and>
     0 \<le> retry_count info \<and> retry_count info \<le> gp_fts_probe_retries guc"

definition mid_ok :: "fts_guc \<Rightarrow> fts_segment_info \<Rightarrow> bool" where
  "mid_ok guc info \<longleftrightarrow> seg_ok guc info \<and> \<not> IsFtsMessageStateSuccess (state info)"

definition head_ok :: "fts_guc \<Rightarrow> fts_segment_info \<Rightarrow> bool" where
  "head_ok guc info \<longleftrightarrow> seg_ok guc info \<and> (messaging (state info) \<or> waiting (state info) \<or> state info = FTS_RESPONSE_PROCESSED)"

lemmas state_defs = waiting_def messaging_def IsFtsMessageStateSuccess_def IsFtsMessageStateFailed_def

lemma polled_simps [simp]:
  "poll_events info = 0 \<Longrightarrow> \<not> polled info"
  by (simp add: polled_def)

lemma fail_segment_messaging:
  assumes "messaging (state info) \<or> IsFtsMessageStateFailed (state info)"
  shows "\<exists>s. fail_segment info = Inr (info\<lparr>state := s\<rparr>) \<and> IsFtsMessageStateFailed s"
  using assms by (auto simp: fail_segment_def state_defs)

lemma state_cases: "messaging s \<or> waiting s \<or> IsFtsMessageStateSuccess s \<or> IsFtsMessageStateFailed s \<or> s = FTS_RESPONSE_PROCESSED"
  by (cases s) (simp_all add: state_defs)

lemma failed_not: "IsFtsMessageStateFailed s \<Longrightarrow> \<not> messaging s \<and> \<not> waiting s \<and> \<not> IsFtsMessageStateSuccess s \<and> s \<noteq> FTS_RESPONSE_PROCESSED"
  "messaging s \<Longrightarrow> \<not> IsFtsMessageStateFailed s \<and> \<not> waiting s \<and> \<not> IsFtsMessageStateSuccess s \<and> s \<noteq> FTS_RESPONSE_PROCESSED"
  by (auto simp: state_defs)


subsection \<open>No step fails\<close>

definition env_error :: "fts_error \<Rightarrow> bool" where
  "env_error e \<longleftrightarrow> e = CannotCreateConnection \<or> e = InvalidConnectPoll \<or> e = PollFailed"

lemma events_or [simp]:
  "(w OR POLLOUT) AND (POLLIN OR POLLOUT) \<noteq> 0" "(w OR POLLIN) AND (POLLIN OR POLLOUT) \<noteq> 0"
  "POLLIN AND (POLLIN OR POLLOUT) \<noteq> 0" "POLLOUT AND (POLLIN OR POLLOUT) \<noteq> 0"
proof -
  have "bit ((w OR POLLOUT) AND (POLLIN OR POLLOUT)) 2" "bit ((w OR POLLIN) AND (POLLIN OR POLLOUT)) 0" for w :: pollbits
    by (simp_all add: bit_simps POLLIN_def POLLOUT_def)
  moreover have "x \<noteq> 0" if "bit x n" for x :: pollbits and n using that by auto
  ultimately show "(w OR POLLOUT) AND (POLLIN OR POLLOUT) \<noteq> 0" "(w OR POLLIN) AND (POLLIN OR POLLOUT) \<noteq> 0" by blast+
qed (simp_all add: POLLIN_def POLLOUT_def)

lemma fail_mid:
  assumes "messaging (state info) \<or> IsFtsMessageStateFailed (state info)" "polled info \<longrightarrow> conn info \<noteq> None"
    "result info = zero_result" "0 \<le> retry_count info" "retry_count info \<le> gp_fts_probe_retries guc"
  shows "\<exists>s. fail_segment info = Inr (info\<lparr>state := s\<rparr>) \<and> IsFtsMessageStateFailed s \<and> mid_ok guc (info\<lparr>state := s\<rparr>)"
proof -
  obtain s where s: "fail_segment info = Inr (info\<lparr>state := s\<rparr>)" "IsFtsMessageStateFailed s"
    using fail_segment_messaging[OF assms(1)] by blast
  moreover have "mid_ok guc (info\<lparr>state := s\<rparr>)"
    using assms(2-) failed_not(1)[OF s(2)] by (simp add: mid_ok_def seg_ok_def polled_def)
  ultimately show ?thesis by blast
qed

lemma check_recovery_state [simp]:
  "state (checkIfFailedDueToRecoveryInProgress info) = state info"
  "conn (checkIfFailedDueToRecoveryInProgress info) = conn info"
  "poll_events (checkIfFailedDueToRecoveryInProgress info) = poll_events info"
  "poll_revents (checkIfFailedDueToRecoveryInProgress info) = poll_revents info"
  "retry_count (checkIfFailedDueToRecoveryInProgress info) = retry_count info"
  "polled (checkIfFailedDueToRecoveryInProgress info) = polled info"
  "result (checkIfFailedDueToRecoveryInProgress info) = result info"
  by (auto simp: checkIfFailedDueToRecoveryInProgress_def polled_def split: option.split recovery_message.split)

lemma mid_open:
  "messaging (state info) \<Longrightarrow> conn info \<noteq> None \<Longrightarrow> result info = zero_result \<Longrightarrow> 0 \<le> retry_count info \<Longrightarrow>
     retry_count info \<le> gp_fts_probe_retries guc \<Longrightarrow> mid_ok guc info"
  using failed_not(2)[of "state info"] by (simp add: mid_ok_def seg_ok_def)

lemma connect_poll_ok:
  assumes "messaging (state info)" "result info = zero_result" "0 \<le> retry_count info" "retry_count info \<le> gp_fts_probe_retries guc"
  shows "case connect_poll env info of Inl e \<Rightarrow> env_error e | Inr a \<Rightarrow> mid_ok guc a"
proof -
  obtain r c where rc: "PQconnectPoll env = (r, c)" by fastforce
  let ?i = "info\<lparr>conn := Some c\<rparr>"
  obtain s where s: "fail_segment ?i = Inr (?i\<lparr>state := s\<rparr>)" "mid_ok guc (?i\<lparr>state := s\<rparr>)"
    using fail_mid[of ?i guc] assms by auto
  have "mid_ok guc (checkIfFailedDueToRecoveryInProgress (?i\<lparr>state := s\<rparr>))"
    using s(2) by (simp add: mid_ok_def seg_ok_def)
  moreover have "mid_ok guc (?i\<lparr>poll_events := e\<rparr>)" for e using assms by (intro mid_open) simp_all
  ultimately show ?thesis using s(1) by (cases r) (simp_all add: connect_poll_def rc env_error_def)
qed

lemma connect_start_ok:
  assumes "messaging (state info)" "result info = zero_result" "0 \<le> retry_count info" "retry_count info \<le> gp_fts_probe_retries guc"
  shows "case result_bind (ftsConnectStart env info) (\<lambda>(started, info). if \<not> started then fail_segment info else Inr info) of
     Inl e \<Rightarrow> env_error e | Inr a \<Rightarrow> mid_ok guc a"
proof (cases "PQconnectStart env")
  case None
  then show ?thesis by (simp add: ftsConnectStart_def env_error_def)
next
  case (Some c)
  let ?i = "info\<lparr>conn := Some c\<rparr>"
  obtain s where "fail_segment ?i = Inr (?i\<lparr>state := s\<rparr>)" "mid_ok guc (?i\<lparr>state := s\<rparr>)"
    using fail_mid[of ?i guc] assms by auto
  moreover have "mid_ok guc (?i\<lparr>poll_events := e, startTime := t\<rparr>)" for e t using assms by (intro mid_open) simp_all
  ultimately show ?thesis using Some by (simp add: ftsConnectStart_def Let_def)
qed

lemma connect_ok:
  assumes "head_ok guc info"
  shows "case ftsConnect_segment env info of Inl e \<Rightarrow> env_error e | Inr a \<Rightarrow> mid_ok guc a"
proof (cases "messaging (state info) \<and> \<not> (conn info \<noteq> None \<and> PQstatus (conn info) = CONNECTION_OK)")
  case False
  then have "ftsConnect_segment env info = Inr info" by (auto simp: ftsConnect_segment_def)
  then show ?thesis using assms by (auto simp: mid_ok_def head_ok_def state_defs)
next
  case True
  let ?i = "info\<lparr>recovery_making_progress := False\<rparr>"
  have base: "messaging (state ?i)" "result ?i = zero_result" "0 \<le> retry_count ?i" "retry_count ?i \<le> gp_fts_probe_retries guc"
    using True assms failed_not(2)[of "state info"] by (simp_all add: head_ok_def seg_ok_def)
  have step: "ftsConnect_segment env info = (if conn info = None
      then result_bind (ftsConnectStart env ?i) (\<lambda>(started, info). if \<not> started then fail_segment info else Inr info)
      else if poll_revents info AND (POLLOUT OR POLLIN) \<noteq> 0 then connect_poll env ?i else Inr ?i)"
    using True by (auto simp: ftsConnect_segment_def)
  show ?thesis unfolding step
    using connect_start_ok[OF base, of env] connect_poll_ok[OF base, of env] mid_open[OF base(1) _ base(2-4)] by simp
qed

lemma timeout_ok:
  assumes "mid_ok guc info" "messaging (state info) \<or> IsFtsMessageStateFailed (state info)"
  shows "\<exists>b. ftsCheckTimeout guc now info = Inr b \<and> mid_ok guc b"
proof -
  obtain s where "fail_segment info = Inr (info\<lparr>state := s\<rparr>)" "mid_ok guc (info\<lparr>state := s\<rparr>)"
    using fail_mid[OF assms(2), of guc] assms(1) by (auto simp: mid_ok_def seg_ok_def)
  then show ?thesis using assms(1) by (simp add: ftsCheckTimeout_def)
qed

lemma poll_response_ok:
  assumes "mid_ok guc a" "polled a"
  shows "\<exists>b. poll_response guc now ev a = Inr b \<and> mid_ok guc b"
proof -
  let ?a = "a\<lparr>poll_revents := ev\<rparr>"
  have st: "messaging (state a) \<or> IsFtsMessageStateFailed (state a)"
    using assms state_cases[of "state a"] polled_simps[of a] by (auto simp: mid_ok_def seg_ok_def)
  have nw: "\<not> (waiting (state a) \<or> state a = FTS_RESPONSE_PROCESSED)" using st failed_not by blast
  have a: "mid_ok guc ?a" "mid_ok guc (?a\<lparr>poll_events := 0\<rparr>)"
    using assms(1) nw by (auto simp: mid_ok_def seg_ok_def polled_def)
  obtain s where s: "fail_segment ?a = Inr (?a\<lparr>state := s\<rparr>)" "IsFtsMessageStateFailed s" "mid_ok guc (?a\<lparr>state := s\<rparr>)"
    using fail_mid[of ?a guc] st a(1) by (auto simp: mid_ok_def seg_ok_def)
  show ?thesis
    using timeout_ok[OF a(1), of now] timeout_ok[OF a(2), of now] timeout_ok[OF s(3), of now] st s(1,2)
    by (auto simp: poll_response_def Let_def)
qed

lemma poll_step_ok: "mid_ok guc a \<Longrightarrow> poll_step guc renv i a b \<Longrightarrow> mid_ok guc b"
proof -
  assume a: "mid_ok guc a" and "poll_step guc renv i a b"
  then obtain d where d: "(if polled a then poll_response guc (poll_time renv) (revents (seg renv i)) (a\<lparr>fd_index := d\<rparr>)
      else Inr (a\<lparr>fd_index := d\<rparr>)) = Inr b" by (auto simp: poll_step_def)
  have "mid_ok guc (a\<lparr>fd_index := d\<rparr>)" using a by (simp add: mid_ok_def seg_ok_def)
  then show ?thesis
    using d poll_response_ok[of guc "a\<lparr>fd_index := d\<rparr>" "poll_time renv" "revents (seg renv i)"] by (cases "polled a") auto
qed

lemma send_ok:
  assumes "mid_ok guc b"
  shows "\<exists>c. ftsSend_segment env b = Inr c \<and> mid_ok guc c"
proof (cases "messaging (state b) \<and> \<not> (PQstatus (conn b) \<noteq> CONNECTION_OK \<or> asyncStatus (the (conn b)) \<noteq> PGASYNC_IDLE \<or>
              poll_revents b AND POLLOUT = 0)")
  case True
  obtain sent c where sc: "PQsendQuery env = (sent, c)" by fastforce
  have step: "ftsSend_segment env b = (if sent then Inr (b\<lparr>conn := Some c, poll_events := POLLIN\<rparr>) else fail_segment (b\<lparr>conn := Some c\<rparr>))"
    using True sc by (simp add: ftsSend_segment_def)
  have "mid_ok guc (b\<lparr>conn := Some c, poll_events := POLLIN\<rparr>)"
    using True assms failed_not(2)[of "state b"] by (auto simp: mid_ok_def seg_ok_def)
  then show ?thesis using fail_mid[of "b\<lparr>conn := Some c\<rparr>" guc] True assms unfolding step by (auto simp: mid_ok_def seg_ok_def)
next
  case False
  then have "ftsSend_segment env b = Inr b" by (auto simp: ftsSend_segment_def)
  then show ?thesis using assms by simp
qed

lemma nextSuccess_messaging: "messaging s \<Longrightarrow> \<exists>t. nextSuccessState s = Inr t \<and> IsFtsMessageStateSuccess t"
  by (auto simp: state_defs)

lemma receive_ok:
  assumes "mid_ok guc c"
  shows "\<exists>d. ftsReceive_segment env c = Inr d \<and> seg_ok guc d \<and> (IsFtsMessageStateSuccess (state d) \<longrightarrow> isPrimaryAlive (result d))"
proof (cases "messaging (state c)")
  case False
  then show ?thesis using assms by (auto simp: ftsReceive_segment_def mid_ok_def)
next
  case True
  have f: "\<exists>d. fail_segment (c\<lparr>conn := Some x\<rparr>) = Inr d \<and> seg_ok guc d \<and> \<not> IsFtsMessageStateSuccess (state d)" for x
    using fail_mid[of "c\<lparr>conn := Some x\<rparr>" guc] True assms by (fastforce simp: mid_ok_def seg_ok_def)
  obtain t where t: "nextSuccessState (state c) = Inr t" "IsFtsMessageStateSuccess t" using nextSuccess_messaging[OF True] by blast
  then have "\<not> waiting t" "t \<noteq> FTS_RESPONSE_PROCESSED" by (auto simp: state_defs)
  then have g: "seg_ok guc (probeRecordResponse (c\<lparr>conn := Some x\<rparr>) r\<lparr>state := t\<rparr>)" for x r
    using assms t(2) by (auto simp: mid_ok_def seg_ok_def probeRecordResponse_def polled_def)
  obtain b1 c1 b2 c2 r c3 where "PQconsumeInput env = (b1, c1)" "PQisBusy env = (b2, c2)" "PQgetResult env = (r, c3)" by (meson prod.exhaust)
  then show ?thesis using True assms f[of c1] f[of c2] f[of c3] t g
    by (auto simp: ftsReceive_segment_def Let_def mid_ok_def probeRecordResponse_def split: option.split)
qed


text \<open>After the retries: a failure that is left has used all of them.\<close>

definition resp_ok :: "fts_guc \<Rightarrow> fts_segment_info \<Rightarrow> bool" where
  "resp_ok guc info \<longleftrightarrow> seg_ok guc info \<and>
     (IsFtsMessageStateFailed (state info) \<longrightarrow> retry_count info = gp_fts_probe_retries guc) \<and>
     (IsFtsMessageStateSuccess (state info) \<longrightarrow> isPrimaryAlive (result info))"

lemma retry_waiting:
  assumes "seg_ok guc d" "retry_count d \<noteq> gp_fts_probe_retries guc"
  shows "waiting (state (retryForFtsFailed guc now d)) \<and> seg_ok guc (retryForFtsFailed guc now d)"
  using assms by (auto simp: retryForFtsFailed_def waiting_def seg_ok_def)

lemma not_waiting: "waiting s \<Longrightarrow> \<not> IsFtsMessageStateFailed s \<and> \<not> IsFtsMessageStateSuccess s"
  by (auto simp: state_defs)

lemma retry_ok:
  assumes "seg_ok guc d" "IsFtsMessageStateSuccess (state d) \<longrightarrow> isPrimaryAlive (result d)"
  shows "resp_ok guc (processRetry_segment guc now d)"
proof -
  have r: "resp_ok guc (retryForFtsFailed guc now d)"
    using retry_waiting[OF assms(1), of now] not_waiting assms
    by (cases "retry_count d = gp_fts_probe_retries guc") (auto simp: resp_ok_def retryForFtsFailed_def)
  have keep: "resp_ok guc d" if "\<not> IsFtsMessageStateFailed (state d)" using that assms by (simp add: resp_ok_def)
  have m: "resp_ok guc (d\<lparr>state := s\<rparr>)" if "waiting (state d)" "messaging s" for s
    using that assms(1) failed_not(2)[OF that(2)] not_waiting[OF that(1)] by (auto simp: resp_ok_def seg_ok_def)
  show ?thesis using r keep m by (cases "state d") (auto simp: processRetry_segment_def state_defs)
qed

lemma seg_pass_mid:
  assumes "head_ok guc info" "ftsConnect_segment (seg renv i) info = Inr a" "poll_step guc renv i a b"
    "ftsSend_segment (seg renv i) b = Inr c"
  shows "mid_ok guc c"
proof -
  have "mid_ok guc a" using connect_ok[OF assms(1), of "seg renv i"] assms(2) by simp
  then have "mid_ok guc b" using poll_step_ok assms(3) by blast
  then show ?thesis using send_ok[of guc b "seg renv i"] assms(4) by auto
qed

lemma seg_pass_ok:
  assumes "head_ok guc info" "seg_pass guc renv i info info'"
  shows "resp_ok guc info'"
  using assms(2)
proof (cases rule: seg_passE)
  case (step a b c d)
  then show ?thesis using receive_ok[OF seg_pass_mid[OF assms(1) step(1-3)], of "seg renv i"] retry_ok by auto
qed

lemma foreach_invariant:
  assumes "list_all P xs" "\<And>i x. P x \<Longrightarrow> case f i x of Inl e \<Rightarrow> E e | Inr y \<Rightarrow> Q y"
  shows "case foreach_segment f xs of Inl e \<Rightarrow> E e | Inr ys \<Rightarrow> list_all Q ys"
proof (cases "foreach_segment f xs")
  case (Inl e)
  then obtain i where "i < length xs" "f i (xs ! i) = Inl e" using foreach_segment_Inl by blast
  then show ?thesis using assms(2)[of "xs ! i" i] assms(1) Inl by (simp add: list_all_length)
next
  case (Inr ys)
  then have "length ys = length xs" "\<forall>i<length xs. f i (xs ! i) = Inr (ys ! i)" using foreach_segment_Inr by blast+
  moreover have "Q (ys ! i)" if "i < length xs" for i
    using assms(2)[of "xs ! i" i] assms(1) that calculation by (simp add: list_all_length)
  ultimately show ?thesis using Inr by (simp add: list_all_length)
qed

lemma ftsPoll_invariant:
  assumes "list_all (mid_ok guc) xs"
  shows "case ftsPoll guc renv xs of Inl e \<Rightarrow> env_error e | Inr ys \<Rightarrow> list_all (mid_ok guc) ys"
proof (cases "ftsPoll guc renv xs")
  case (Inl e)
  have "poll_response guc (poll_time renv) ev ((xs ! i)\<lparr>fd_index := d\<rparr>) \<noteq> Inl e" if "i < length xs" "polled (xs ! i)" for i ev d
    using poll_response_ok[of guc "(xs ! i)\<lparr>fd_index := d\<rparr>" "poll_time renv" ev] assms that
    by (auto simp: list_all_length mid_ok_def seg_ok_def)
  then show ?thesis using ftsPoll_Inl[OF Inl] Inl by (auto simp: env_error_def)
next
  case (Inr ys)
  then show ?thesis using ftsPoll_Inr[OF Inr] assms poll_step_ok[of guc] by (simp add: list_all_length) blast
qed

lemma fts_messages_ok:
  assumes "list_all (head_ok guc) infos"
  shows "case fts_messages guc renv infos of Inl e \<Rightarrow> env_error e | Inr infos' \<Rightarrow> list_all (resp_ok guc) infos'"
proof -
  let ?Q = "\<lambda>d. seg_ok guc d \<and> (IsFtsMessageStateSuccess (state d) \<longrightarrow> isPrimaryAlive (result d))"
  have a: "case ftsConnect renv infos of Inl e \<Rightarrow> env_error e | Inr as \<Rightarrow> list_all (mid_ok guc) as"
    unfolding ftsConnect_def using assms by (rule foreach_invariant) (rule connect_ok)
  have sc: "case ftsSend_segment env x of Inl e \<Rightarrow> False | Inr y \<Rightarrow> mid_ok guc y" if "mid_ok guc x" for env x
    using send_ok[OF that, of env] by auto
  have rc: "case ftsReceive_segment env x of Inl e \<Rightarrow> False | Inr y \<Rightarrow> ?Q y" if "mid_ok guc x" for env x
    using receive_ok[OF that, of env] by auto
  have c: "case ftsSend renv bs of Inl e \<Rightarrow> False | Inr cs \<Rightarrow> list_all (mid_ok guc) cs" if "list_all (mid_ok guc) bs" for bs
    unfolding ftsSend_def using that by (rule foreach_invariant) (rule sc)
  have d: "case ftsReceive renv cs of Inl e \<Rightarrow> False | Inr ds \<Rightarrow> list_all ?Q ds" if "list_all (mid_ok guc) cs" for cs
    unfolding ftsReceive_def using that by (rule foreach_invariant) (rule rc)
  have r: "case processRetry guc renv ds of Inl e \<Rightarrow> False | Inr es \<Rightarrow> list_all (resp_ok guc) es" if "list_all ?Q ds" for ds
    unfolding processRetry_def using that by (rule foreach_invariant) (auto intro: retry_ok)
  show ?thesis
  proof (cases "ftsConnect renv infos")
    case (Inl e)
    then show ?thesis using a by (simp add: fts_messages_def)
  next
    case (Inr as)
    note as = this
    have "list_all (mid_ok guc) as" using a as by simp
    note p = ftsPoll_invariant[OF this, of renv]
    show ?thesis
    proof (cases "ftsPoll guc renv as")
      case (Inl e)
      then show ?thesis using p as by (simp add: fts_messages_def)
    next
      case (Inr bs)
      then have b: "list_all (mid_ok guc) bs" using p by simp
      obtain cs where cs: "ftsSend renv bs = Inr cs" "list_all (mid_ok guc) cs" using c[OF b] by (cases "ftsSend renv bs") auto
      obtain ds where ds: "ftsReceive renv cs = Inr ds" "list_all ?Q ds" using d[OF cs(2)] by (cases "ftsReceive renv cs") auto
      show ?thesis using r[OF ds(2)] as Inr cs(1) ds(1) by (cases "processRetry guc renv ds") (simp_all add: fts_messages_def)
    qed
  qed
qed

end
