(* ===== verification/Fts_Cycle.thy ===== *)
theory Fts_Cycle
  imports Fts_Segment
begin

text \<open>
  The configuration through a probe cycle.  A pair of a primary and its mirror keeps its roles or has
  its mirror, which was in sync, promoted; the cycle keeps the cluster consistent.
\<close>


subsection \<open>The configuration of a pair\<close>

text \<open>
  A primary and its mirror: the primary is up, both have the same mode, and a mirror that is in
  sync is up.
\<close>

definition pair_ok :: "CdbComponentDatabaseInfo \<Rightarrow> CdbComponentDatabaseInfo \<Rightarrow> bool" where
  "pair_ok p m \<longleftrightarrow>
     role p = GP_SEGMENT_CONFIGURATION_ROLE_PRIMARY \<and> role m = GP_SEGMENT_CONFIGURATION_ROLE_MIRROR \<and>
     SEGMENT_IS_ALIVE p \<and> mode p = mode m \<and> mode m \<in> {GP_SEGMENT_CONFIGURATION_MODE_INSYNC, GP_SEGMENT_CONFIGURATION_MODE_NOTINSYNC} \<and>
     status m \<in> {GP_SEGMENT_CONFIGURATION_STATUS_UP, GP_SEGMENT_CONFIGURATION_STATUS_DOWN} \<and>
     (SEGMENT_IS_IN_SYNC m \<longrightarrow> SEGMENT_IS_ALIVE m)"

text \<open>The catalog holds the entry and the shared status array, which the dispatcher reads, agrees with it.\<close>

definition view_ok :: "fts_global \<Rightarrow> CdbComponentDatabaseInfo \<Rightarrow> bool" where
  "view_ok g s \<longleftrightarrow> config g (dbid s) = Some s \<and> (bit (fts_status g (dbid s)) 0 \<longleftrightarrow> SEGMENT_IS_ALIVE s)"

definition entry :: "CdbComponentDatabaseInfo \<Rightarrow> char \<Rightarrow> bool \<Rightarrow> bool \<Rightarrow> CdbComponentDatabaseInfo" where
  "entry s r alive sync = s\<lparr>role := r, status := status_char alive, mode := mode_char sync\<rparr>"

lemma entry_simps [simp]:
  "dbid (entry s r a i) = dbid s" "segindex (entry s r a i) = segindex s" "role (entry s r a i) = r"
  "SEGMENT_IS_ALIVE (entry s r a i) = a" "SEGMENT_IS_IN_SYNC (entry s r a i) = i"
  "mode (entry s r a i) = mode_char i" "status (entry s r a i) = status_char a"
  by (simp_all add: entry_def SEGMENT_IS_ALIVE_def SEGMENT_IS_IN_SYNC_def status_char_def mode_char_def config_chars)

lemma entry_self:
  assumes "r = role s" "a = SEGMENT_IS_ALIVE s" "i = SEGMENT_IS_IN_SYNC s"
    "mode s \<in> {GP_SEGMENT_CONFIGURATION_MODE_INSYNC, GP_SEGMENT_CONFIGURATION_MODE_NOTINSYNC}"
    "status s \<in> {GP_SEGMENT_CONFIGURATION_STATUS_UP, GP_SEGMENT_CONFIGURATION_STATUS_DOWN}"
  shows "entry s r a i = s"
  using assms by (cases s) (auto simp: entry_def SEGMENT_IS_ALIVE_def SEGMENT_IS_IN_SYNC_def status_char_def mode_char_def)

lemma probeWalRepUpdateConfig_entry:
  "config g (dbid s) = Some s \<Longrightarrow> probeWalRepUpdateConfig (dbid s) x r a i g =
     Inr (g\<lparr>history := history g @ [(dbid s, x, r, status_char a, mode_char i)], config := (config g)(dbid s \<mapsto> entry s r a i)\<rparr>)"
  by (simp add: probeWalRepUpdateConfig_def entry_def)

lemma set_status_simps [simp]:
  "config (set_status d a g) = config g" "bit (fts_status (set_status d a g) d) 0 = a"
  "d' \<noteq> d \<Longrightarrow> fts_status (set_status d a g) d' = fts_status g d'"
  by (simp_all add: set_status_def FTS_STATUS_SET_UP_def FTS_STATUS_SET_DOWN_def bit_simps)

text \<open>The effect of an update: both entries have the new values, whether they were written or not.\<close>

lemma update_effect:
  assumes "view_ok g p" "view_ok g m" "dbid p \<noteq> dbid m"
    and "pa = SEGMENT_IS_ALIVE p \<Longrightarrow> sync = SEGMENT_IS_IN_SYNC p \<Longrightarrow> entry p rp pa sync = p"
    and "ma = SEGMENT_IS_ALIVE m \<Longrightarrow> sync = SEGMENT_IS_IN_SYNC p \<Longrightarrow> entry m rm ma sync = m"
  shows "\<exists>u g'. updateConfiguration p m rp rm sync pa ma g = Inr (u, g') \<and>
    view_ok g' (entry p rp pa sync) \<and> view_ok g' (entry m rm ma sync) \<and>
    (\<forall>s. dbid s \<noteq> dbid p \<longrightarrow> dbid s \<noteq> dbid m \<longrightarrow> view_ok g' s = view_ok g s)"
proof -
  let ?p = "entry p rp pa sync" and ?m = "entry m rm ma sync"
  let ?up = "sync \<noteq> SEGMENT_IS_IN_SYNC p \<or> pa \<noteq> SEGMENT_IS_ALIVE p"
  let ?um = "sync \<noteq> SEGMENT_IS_IN_SYNC p \<or> ma \<noteq> SEGMENT_IS_ALIVE m"
  have cfg: "config g (dbid p) = Some p" "config g (dbid m) = Some m" using assms(1,2) by (simp_all add: view_ok_def)
  define g1 where "g1 = (if ?up then g\<lparr>history := history g @ [(dbid p, segindex p, rp, status_char pa, mode_char sync)],
      config := (config g)(dbid p \<mapsto> ?p)\<rparr> else g)"
  define g2 where "g2 = (if ?um then g1\<lparr>history := history g1 @ [(dbid m, segindex m, rm, status_char ma, mode_char sync)],
      config := (config g1)(dbid m \<mapsto> ?m)\<rparr> else g1)"
  have c1: "config g1 = (config g)(dbid p \<mapsto> ?p)" "fts_status g1 = fts_status g"
    using assms(4) cfg(1) by (cases ?up; simp add: g1_def fun_upd_idem)+
  then have m1: "config g1 (dbid m) = Some m" using cfg(2) assms(3) by simp
  have "config g2 = (config g1)(dbid m \<mapsto> ?m)" "fts_status g2 = fts_status g1"
    using assms(5) m1 by (cases ?um; simp add: g2_def fun_upd_idem)+
  then have c2: "config g2 = (config g)(dbid p \<mapsto> ?p, dbid m \<mapsto> ?m)" "fts_status g2 = fts_status g" using c1 by simp_all
  show ?thesis
  proof (cases "?up \<or> ?um")
    case True
    let ?g = "set_status (dbid m) ma (set_status (dbid p) pa g2)"
    have "(if ?up then probeWalRepUpdateConfig (dbid p) (segindex p) rp pa sync g else Inr g) = Inr g1"
      using probeWalRepUpdateConfig_entry[OF cfg(1)] by (simp add: g1_def)
    moreover have "(if ?um then probeWalRepUpdateConfig (dbid m) (segindex m) rm ma sync g1 else Inr g1) = Inr g2"
      using probeWalRepUpdateConfig_entry[OF m1] by (simp add: g2_def)
    ultimately have "updateConfiguration p m rp rm sync pa ma g = Inr (True, ?g)"
      using True unfolding updateConfiguration_def Let_def by simp
    moreover have "view_ok ?g ?p" "view_ok ?g ?m" using assms(3) by (simp_all add: view_ok_def c2)
    moreover have "view_ok ?g s = view_ok g s" if "dbid s \<noteq> dbid p" "dbid s \<noteq> dbid m" for s
      using that by (simp add: view_ok_def c2)
    ultimately show ?thesis by blast
  next
    case False
    then have "updateConfiguration p m rp rm sync pa ma g = Inr (False, g)" by (simp add: updateConfiguration_def Let_def)
    then show ?thesis using assms(1,2,4,5) False by auto
  qed
qed

text \<open>
  The outcome of a cycle for a pair: the roles are kept, or the mirror, which the configuration
  had in sync, was promoted and the old primary is marked down.
\<close>

definition outcome :: "CdbComponentDatabaseInfo \<Rightarrow> CdbComponentDatabaseInfo \<Rightarrow> fts_global \<Rightarrow> bool" where
  "outcome p m g \<longleftrightarrow> (\<exists>p' m'. dbid p' = dbid p \<and> dbid m' = dbid m \<and> segindex p' = segindex p \<and> segindex m' = segindex m \<and>
     view_ok g p' \<and> view_ok g m' \<and> (pair_ok p' m' \<or> SEGMENT_IS_IN_SYNC m \<and> \<not> SEGMENT_IS_ALIVE p' \<and> pair_ok m' p'))"

lemma mode_status_cases [simp]:
  "mode_char i = GP_SEGMENT_CONFIGURATION_MODE_INSYNC \<or> mode_char i = GP_SEGMENT_CONFIGURATION_MODE_NOTINSYNC"
  "status_char i = GP_SEGMENT_CONFIGURATION_STATUS_UP \<or> status_char i = GP_SEGMENT_CONFIGURATION_STATUS_DOWN"
  by (simp_all add: mode_char_def status_char_def)

lemma update_keeps_roles:
  assumes "pair_ok p m" "view_ok g p" "view_ok g m" "dbid p \<noteq> dbid m" "sync \<longrightarrow> ma"
  shows "\<exists>u g'. updateConfiguration p m GP_SEGMENT_CONFIGURATION_ROLE_PRIMARY GP_SEGMENT_CONFIGURATION_ROLE_MIRROR sync True ma g = Inr (u, g') \<and>
    outcome p m g' \<and> (\<forall>s. dbid s \<noteq> dbid p \<longrightarrow> dbid s \<noteq> dbid m \<longrightarrow> view_ok g' s = view_ok g s)"
proof -
  let ?p = "entry p GP_SEGMENT_CONFIGURATION_ROLE_PRIMARY True sync" and ?m = "entry m GP_SEGMENT_CONFIGURATION_ROLE_MIRROR ma sync"
  have sync: "SEGMENT_IS_IN_SYNC p = SEGMENT_IS_IN_SYNC m" using assms(1) by (simp add: pair_ok_def SEGMENT_IS_IN_SYNC_def)
  have "entry p GP_SEGMENT_CONFIGURATION_ROLE_PRIMARY True sync = p" if "True = SEGMENT_IS_ALIVE p" "sync = SEGMENT_IS_IN_SYNC p"
    using that assms(1) by (intro entry_self) (auto simp: pair_ok_def SEGMENT_IS_ALIVE_def)
  moreover have "entry m GP_SEGMENT_CONFIGURATION_ROLE_MIRROR ma sync = m" if "ma = SEGMENT_IS_ALIVE m" "sync = SEGMENT_IS_IN_SYNC p"
    using that assms(1) sync by (intro entry_self) (auto simp: pair_ok_def)
  moreover have "pair_ok ?p ?m" using assms(5) by (simp add: pair_ok_def)
  ultimately show ?thesis
    using update_effect[OF assms(2,3,4), of True sync GP_SEGMENT_CONFIGURATION_ROLE_PRIMARY ma GP_SEGMENT_CONFIGURATION_ROLE_MIRROR]
    unfolding outcome_def by (fastforce intro: exI[of _ ?p] exI[of _ ?m])
qed

lemma update_promotes:
  assumes "pair_ok p m" "view_ok g p" "view_ok g m" "dbid p \<noteq> dbid m" "SEGMENT_IS_IN_SYNC m"
  shows "\<exists>u g'. updateConfiguration p m GP_SEGMENT_CONFIGURATION_ROLE_MIRROR GP_SEGMENT_CONFIGURATION_ROLE_PRIMARY False False (SEGMENT_IS_ALIVE m) g = Inr (u, g') \<and>
    outcome p m g' \<and> (\<forall>s. dbid s \<noteq> dbid p \<longrightarrow> dbid s \<noteq> dbid m \<longrightarrow> view_ok g' s = view_ok g s)"
proof -
  have al: "SEGMENT_IS_ALIVE m" "SEGMENT_IS_ALIVE p" "SEGMENT_IS_IN_SYNC p"
    using assms(1,5) by (auto simp: pair_ok_def SEGMENT_IS_IN_SYNC_def)
  let ?p = "entry p GP_SEGMENT_CONFIGURATION_ROLE_MIRROR False False" and ?m = "entry m GP_SEGMENT_CONFIGURATION_ROLE_PRIMARY True False"
  have "pair_ok ?m ?p" by (simp add: pair_ok_def)
  then show ?thesis
    using update_effect[OF assms(2,3,4), of False False GP_SEGMENT_CONFIGURATION_ROLE_MIRROR True GP_SEGMENT_CONFIGURATION_ROLE_PRIMARY] al assms(5)
    unfolding outcome_def by (fastforce intro: exI[of _ ?p] exI[of _ ?m])
qed


subsection \<open>A pair through a cycle\<close>

definition probe_phase :: "FtsMessageState \<Rightarrow> bool" where
  "probe_phase s \<longleftrightarrow> s = FTS_PROBE_SEGMENT \<or> s = FTS_PROBE_RETRY_WAIT \<or> s = FTS_PROBE_SUCCESS \<or> s = FTS_PROBE_FAILED"

text \<open>Sending and receiving keep the pair and the phase of a segment.\<close>

definition frame :: "fts_segment_info \<Rightarrow> fts_segment_info \<Rightarrow> bool" where
  "frame a b \<longleftrightarrow> primary_cdbinfo b = primary_cdbinfo a \<and> mirror_cdbinfo b = mirror_cdbinfo a \<and>
     probe_phase (state b) = probe_phase (state a)"

lemma frame_trans: "frame a b \<Longrightarrow> frame b c \<Longrightarrow> frame a c"
  by (simp add: frame_def)

lemma nextFailedState_phase: "nextFailedState s = Inr t \<Longrightarrow> probe_phase t = probe_phase s"
  by (cases s) (auto simp: probe_phase_def)

lemma nextSuccessState_phase: "nextSuccessState s = Inr t \<Longrightarrow> probe_phase t = probe_phase s"
  by (cases s) (auto simp: probe_phase_def)

lemma fail_frame: "fail_segment a = Inr b \<Longrightarrow> frame a b"
  by (auto simp: fail_segment_def result_bind_Inr_iff frame_def nextFailedState_phase)

lemma check_recovery_frame [simp]: "frame a (checkIfFailedDueToRecoveryInProgress b) = frame a b"
  by (auto simp: frame_def checkIfFailedDueToRecoveryInProgress_def split: option.split recovery_message.split)

lemma frame_updates [simp]:
  "frame (a\<lparr>conn := c\<rparr>) b = frame a b" "frame (a\<lparr>recovery_making_progress := r\<rparr>) b = frame a b"
  "frame (a\<lparr>fd_index := d\<rparr>) b = frame a b" "frame (a\<lparr>poll_revents := e\<rparr>) b = frame a b" "frame (a\<lparr>poll_events := e\<rparr>) b = frame a b"
  "frame a (b\<lparr>conn := c\<rparr>) = frame a b" "frame a (b\<lparr>recovery_making_progress := r\<rparr>) = frame a b"
  "frame a (b\<lparr>fd_index := d\<rparr>) = frame a b" "frame a (b\<lparr>poll_revents := e\<rparr>) = frame a b" "frame a (b\<lparr>poll_events := e\<rparr>) = frame a b"
  "frame a (b\<lparr>startTime := t\<rparr>) = frame a b"
  by (simp_all add: frame_def)

lemma frame_refl [simp]: "frame a a"
  by (simp add: frame_def)

lemma connect_start_frame: "ftsConnectStart env a = Inr (r, b) \<Longrightarrow> frame a b"
  by (auto simp: ftsConnectStart_def Let_def split: if_splits option.splits)

lemma connect_poll_frame: "connect_poll env a = Inr b \<Longrightarrow> frame a b"
  by (auto simp: connect_poll_def Let_def result_bind_Inr_iff dest!: fail_frame
      split: prod.splits PostgresPollingStatusType.splits)

lemma connect_frame: "ftsConnect_segment env a = Inr b \<Longrightarrow> frame a b"
  by (auto simp: ftsConnect_segment_def Let_def result_bind_Inr_iff dest!: connect_start_frame connect_poll_frame
      split: if_splits) (blast intro: frame_trans fail_frame)

lemma timeout_frame: "ftsCheckTimeout guc now a = Inr b \<Longrightarrow> frame a b"
  by (auto simp: ftsCheckTimeout_def fail_frame split: if_splits)

lemma poll_response_frame: "poll_response guc now ev a = Inr b \<Longrightarrow> frame a b"
  by (auto simp: poll_response_def Let_def result_bind_Inr_iff split: if_splits
      dest!: fail_frame timeout_frame intro: frame_trans)

lemma poll_frame: "poll_step guc renv i a b \<Longrightarrow> frame a b"
  by (auto simp: poll_step_def dest!: poll_response_frame split: if_splits)

lemma send_frame: "ftsSend_segment env a = Inr b \<Longrightarrow> frame a b"
  by (auto simp: ftsSend_segment_def Let_def dest!: fail_frame split: if_splits prod.splits)

lemma receive_frame: "ftsReceive_segment env a = Inr b \<Longrightarrow> frame a b"
  by (auto simp: ftsReceive_segment_def Let_def probeRecordResponse_def result_bind_Inr_iff dest!: fail_frame
      split: if_splits prod.splits option.splits) (auto simp: frame_def nextSuccessState_phase)

lemma retry_frame: "frame a (processRetry_segment guc now a)"
  by (cases "state a") (auto simp: processRetry_segment_def retryForFtsFailed_def frame_def probe_phase_def)

lemma seg_pass_frame:
  assumes "seg_pass guc renv i info info'"
  shows "frame info info'"
  using assms
proof (cases rule: seg_passE)
  case (step a b c d)
  have "frame info c" using connect_frame[OF step(1)] poll_frame[OF step(2)] send_frame[OF step(3)] frame_trans by metis
  moreover have "frame c info'" unfolding step(5) using receive_frame[OF step(4)] retry_frame by (rule frame_trans)
  ultimately show ?thesis by (rule frame_trans)
qed

text \<open>A segment that reports its mirror as in sync reports it as up.\<close>

definition truthful :: "round_env \<Rightarrow> bool" where
  "truthful renv \<longleftrightarrow> (\<forall>i r c. PQgetResult (seg renv i) = (Some r, c) \<longrightarrow> tuples_ok r \<longrightarrow> is_in_sync r \<longrightarrow> is_mirror_up r)"

definition sync_up :: "fts_segment_info \<Rightarrow> bool" where
  "sync_up info \<longleftrightarrow> (isInSync (result info) \<longrightarrow> isMirrorAlive (result info))"

lemma fail_result: "fail_segment a = Inr b \<Longrightarrow> result b = result a"
  by (auto simp: fail_segment_def result_bind_Inr_iff)

lemma receive_result:
  assumes "ftsReceive_segment env a = Inr b"
  shows "result b = result a \<or> (\<exists>r c. PQgetResult env = (Some r, c) \<and> tuples_ok r \<and> isInSync (result b) = is_in_sync r \<and> isMirrorAlive (result b) = is_mirror_up r)"
  using assms
  by (auto simp: ftsReceive_segment_def Let_def probeRecordResponse_def result_bind_Inr_iff dest!: fail_result
      split: if_splits prod.splits option.splits)

lemma receive_sync_up:
  assumes "truthful renv" "ftsReceive_segment (seg renv i) a = Inr b" "result a = zero_result"
  shows "sync_up b"
  using receive_result[OF assms(2)] assms(1,3) unfolding truthful_def sync_up_def zero_result_def by auto

lemma retry_sync_up: "sync_up a \<Longrightarrow> sync_up (processRetry_segment guc now a)"
  by (cases "state a") (auto simp: processRetry_segment_def retryForFtsFailed_def sync_up_def zero_result_def)

lemma seg_pass_sync_up:
  assumes "truthful renv" "head_ok guc info" "seg_pass guc renv i info info'"
  shows "sync_up info'"
  using assms(3)
proof (cases rule: seg_passE)
  case (step a b c d)
  have "result c = zero_result" using seg_pass_mid[OF assms(2) step(1-3)] by (simp add: mid_ok_def seg_ok_def)
  then show ?thesis using receive_sync_up[OF assms(1) step(4)] retry_sync_up step(5) by blast
qed


text \<open>
  While a segment is probed its configuration is the one read at the start of the cycle;
  afterwards it is an outcome of the cycle.
\<close>

definition tracked :: "CdbComponentDatabaseInfo \<times> CdbComponentDatabaseInfo \<Rightarrow> fts_global \<Rightarrow> fts_segment_info \<Rightarrow> bool" where
  "tracked pr g info \<longleftrightarrow> pair_ok (fst pr) (snd pr) \<and> dbid (fst pr) \<noteq> dbid (snd pr) \<and>
     (if probe_phase (state info)
      then primary_cdbinfo info = fst pr \<and> mirror_cdbinfo info = snd pr \<and> view_ok g (fst pr) \<and> view_ok g (snd pr)
      else outcome (fst pr) (snd pr) g)"

lemma tracked_outcome: "tracked pr g info \<Longrightarrow> outcome (fst pr) (snd pr) g"
  by (auto simp: tracked_def outcome_def split: if_splits)

lemma tracked_frame: "tracked pr g a \<Longrightarrow> frame a b \<Longrightarrow> tracked pr g b"
  by (simp add: tracked_def frame_def)

definition same_view :: "int set \<Rightarrow> fts_global \<Rightarrow> fts_global \<Rightarrow> bool" where
  "same_view D g g' \<longleftrightarrow> (\<forall>s. dbid s \<in> D \<longrightarrow> view_ok g' s = view_ok g s)"

lemma tracked_same_view:
  assumes "same_view D g g'" "dbid (fst pr) \<in> D" "dbid (snd pr) \<in> D"
  shows "tracked pr g' info = tracked pr g info"
proof -
  have "outcome (fst pr) (snd pr) g' = outcome (fst pr) (snd pr) g"
    unfolding outcome_def using assms by (auto simp: same_view_def) metis+
  then show ?thesis using assms by (simp add: tracked_def same_view_def)
qed

definition response_ok ::
  "fts_guc \<Rightarrow> CdbComponentDatabaseInfo \<Rightarrow> CdbComponentDatabaseInfo \<Rightarrow> fts_global \<Rightarrow> fts_error + fts_segment_info \<times> bool \<times> fts_global \<Rightarrow> bool" where
  "response_ok guc p m g r \<longleftrightarrow> (case r of Inl e \<Rightarrow> False
     | Inr (info, u, g') \<Rightarrow> head_ok guc info \<and> tracked (p, m) g' info \<and> same_view (- {dbid p, dbid m}) g g')"

lemma response_okI:
  assumes "state info \<in> {FTS_RESPONSE_PROCESSED, FTS_PROMOTE_SEGMENT, FTS_SYNCREP_OFF_SEGMENT}"
    "outcome p m g'" "same_view (- {dbid p, dbid m}) g g'" "pair_ok p m" "dbid p \<noteq> dbid m" "0 \<le> gp_fts_probe_retries guc"
  shows "response_ok guc p m g (Inr (reset_segment info, u, g'))"
proof -
  have "head_ok guc (reset_segment info)"
    using assms(1,6) by (auto simp: head_ok_def seg_ok_def reset_segment_def messaging_def)
  moreover have "tracked (p, m) g' (reset_segment info)"
    using assms(1,2,4,5) by (auto simp: tracked_def reset_segment_def probe_phase_def)
  ultimately show ?thesis using assms(3) by (simp add: response_ok_def)
qed

lemma response_success:
  assumes "state info = FTS_PROBE_SUCCESS" "isPrimaryAlive (result info)" "sync_up info" "tracked (p, m) g info"
    "0 \<le> gp_fts_probe_retries guc"
  shows "response_ok guc p m g (processResponse_segment info g)"
proof -
  let ?r = "result info"
  have probe: "primary_cdbinfo info = p" "mirror_cdbinfo info = m" "view_ok g p" "view_ok g m" "pair_ok p m" "dbid p \<noteq> dbid m"
    using assms(1,4) by (simp_all add: tracked_def probe_phase_def)
  obtain u g' where upd: "updateConfiguration p m GP_SEGMENT_CONFIGURATION_ROLE_PRIMARY GP_SEGMENT_CONFIGURATION_ROLE_MIRROR
       (isInSync ?r) True (isMirrorAlive ?r) g = Inr (u, g')" "outcome p m g'" "same_view (- {dbid p, dbid m}) g g'"
    using update_keeps_roles[OF probe(5,3,4,6), of "isInSync ?r" "isMirrorAlive ?r"] assms(3) by (auto simp: sync_up_def same_view_def)
  note ok = response_okI[OF _ upd(2,3) probe(5,6) assms(5)]
  have same: "response_ok guc p m g (Inr (reset_segment i, v, g))" if "state i \<in> {FTS_RESPONSE_PROCESSED, FTS_PROMOTE_SEGMENT}" for i v
    using that tracked_outcome[OF assms(4)] probe assms(5) by (intro response_okI) (auto simp: same_view_def)
  have "processResponse_segment info g =
    (if isSyncRepEnabled ?r \<and> \<not> isMirrorAlive ?r
     then if \<not> retryRequested ?r then Inr (reset_segment (info\<lparr>state := FTS_SYNCREP_OFF_SEGMENT\<rparr>), u, g')
          else Inr (reset_segment (info\<lparr>state := FTS_RESPONSE_PROCESSED\<rparr>), False, g)
     else if isRoleMirror ?r then Inr (reset_segment (info\<lparr>state := FTS_PROMOTE_SEGMENT\<rparr>), False, g)
     else Inr (reset_segment (info\<lparr>state := FTS_RESPONSE_PROCESSED\<rparr>), u, g'))"
    using assms(1,2) probe(1,2) upd(1) by (cases "isMirrorAlive ?r") (simp_all add: processResponse_segment_def Let_def)
  then show ?thesis using ok same by simp
qed

lemma response_promote:
  assumes "state info = FTS_PROBE_FAILED" "\<not> recovery_making_progress info" "SEGMENT_IS_IN_SYNC (mirror_cdbinfo info)"
    "result info = zero_result" "tracked (p, m) g info" "0 \<le> gp_fts_probe_retries guc"
  shows "response_ok guc p m g (processResponse_segment info g)"
proof -
  have probe: "primary_cdbinfo info = p" "mirror_cdbinfo info = m" "view_ok g p" "view_ok g m" "pair_ok p m" "dbid p \<noteq> dbid m"
    using assms(1,5) by (simp_all add: tracked_def probe_phase_def)
  obtain u g' where upd: "updateConfiguration p m GP_SEGMENT_CONFIGURATION_ROLE_MIRROR GP_SEGMENT_CONFIGURATION_ROLE_PRIMARY
       False False (SEGMENT_IS_ALIVE m) g = Inr (u, g')" "outcome p m g'" "same_view (- {dbid p, dbid m}) g g'"
    using update_promotes[OF probe(5,3,4,6)] assms(3) probe(2) by (auto simp: same_view_def)
  have "processResponse_segment info g =
    Inr (reset_segment (info\<lparr>state := FTS_PROMOTE_SEGMENT, primary_cdbinfo := m, mirror_cdbinfo := p\<rparr>), u, g')"
    using assms(1-4) probe(1,2) upd(1) by (simp add: processResponse_segment_def Let_def zero_result_def)
  then show ?thesis using response_okI[OF _ upd(2,3) probe(5,6) assms(6)] by simp
qed

lemma response_segment:
  assumes ready: "ftsResponseReady info" and ok: "resp_ok guc info" and up: "sync_up info" and tr: "tracked (p, m) g info"
  shows "response_ok guc p m g (processResponse_segment info g)"
proof -
  have R: "0 \<le> gp_fts_probe_retries guc" using ok by (auto simp: resp_ok_def seg_ok_def)
  have same: "response_ok guc p m g (Inr (reset_segment (info\<lparr>state := FTS_RESPONSE_PROCESSED\<rparr>), v, g))" for v
    using tracked_outcome[OF tr] tr R by (intro response_okI) (auto simp: same_view_def tracked_def)
  consider "state info = FTS_PROBE_SUCCESS"
    | "state info = FTS_PROBE_FAILED" "\<not> recovery_making_progress info" "SEGMENT_IS_IN_SYNC (mirror_cdbinfo info)"
    | "processResponse_segment info g = Inr (reset_segment (info\<lparr>state := FTS_RESPONSE_PROCESSED\<rparr>), False, g)"
    using ready
    by (cases "recovery_making_progress info"; cases "SEGMENT_IS_IN_SYNC (mirror_cdbinfo info)"; cases "state info")
      (simp_all add: ftsResponseReady_def state_defs processResponse_segment_def Let_def)
  then show ?thesis
  proof cases
    case 1
    then show ?thesis using response_success[OF 1 _ up tr R] ok by (simp add: resp_ok_def IsFtsMessageStateSuccess_def)
  next
    case 2
    then show ?thesis using response_promote[OF 2 _ tr R] ok by (simp add: resp_ok_def seg_ok_def IsFtsMessageStateSuccess_def)
  next
    case 3
    then show ?thesis using same by simp
  qed
qed

lemma not_ready_head_ok: "resp_ok guc info \<Longrightarrow> \<not> ftsResponseReady info \<Longrightarrow> head_ok guc info"
  using state_cases[of "state info"] by (auto simp: resp_ok_def ftsResponseReady_def head_ok_def)

definition pair_dbids :: "(CdbComponentDatabaseInfo \<times> CdbComponentDatabaseInfo) list \<Rightarrow> int list" where
  "pair_dbids prs = concat (map (\<lambda>(p, m). [dbid p, dbid m]) prs)"

lemma pair_dbids_mem: "q \<in> set prs \<Longrightarrow> dbid (fst q) \<in> set (pair_dbids prs)" "q \<in> set prs \<Longrightarrow> dbid (snd q) \<in> set (pair_dbids prs)"
  by (induction prs) (auto simp: pair_dbids_def)

lemma same_view_mono: "same_view D g g' \<Longrightarrow> D' \<subseteq> D \<Longrightarrow> same_view D' g g'"
  by (auto simp: same_view_def)

lemma same_view_trans:
  "same_view D g g' \<Longrightarrow> same_view D' g' g'' \<Longrightarrow> same_view (D \<inter> D') g g''"
  by (simp add: same_view_def)

lemma same_view_trans1: "same_view D g g' \<Longrightarrow> same_view D g' g'' \<Longrightarrow> same_view D g g''"
  by (simp add: same_view_def)

lemma process_responses:
  assumes "list_all2 (\<lambda>pr info. resp_ok guc info \<and> sync_up info \<and> tracked pr g info) prs infos" "distinct (pair_dbids prs)"
  shows "\<exists>infos' u' g'. processResponse act i infos u g = Inr (infos', u', g') \<and> list_all2 (\<lambda>pr info. tracked pr g' info) prs infos' \<and>
    ((\<forall>j. act j) \<longrightarrow> list_all (head_ok guc) infos') \<and> same_view (- set (pair_dbids prs)) g g'"
  using assms
proof (induction prs infos arbitrary: i u g rule: list_induct2')
  case (4 pr prs info infos)
  obtain p m where pr: "pr = (p, m)" by fastforce
  have hd: "resp_ok guc info" "sync_up info" "tracked (p, m) g info" using 4(2) pr by auto
  have tl: "list_all2 (\<lambda>pr info. resp_ok guc info \<and> sync_up info \<and> tracked pr g info) prs infos" using 4(2) by auto
  have dist: "distinct (pair_dbids prs)" "dbid p \<notin> set (pair_dbids prs)" "dbid m \<notin> set (pair_dbids prs)"
    using 4(3) pr by (auto simp: pair_dbids_def)
  show ?case
  proof (cases "act i")
    case False
    have "list_all2 (\<lambda>pr info. tracked pr g info) prs infos" using tl by (rule list_all2_mono) simp
    then show ?thesis using hd(3) pr False by (auto simp: same_view_def)
  next
    case act: True
    define step where "step = (if ftsResponseReady info then processResponse_segment info g else Inr (info, False, g))"
    obtain info' u1 g1 where s: "step = Inr (info', u1, g1)" "head_ok guc info'" "tracked (p, m) g1 info'" "same_view (- {dbid p, dbid m}) g g1"
      using response_segment[OF _ hd] not_ready_head_ok[OF hd(1)] hd(3) unfolding step_def
      by (cases "ftsResponseReady info"; cases "processResponse_segment info g") (auto simp: same_view_def response_ok_def)
    have "same_view (set (pair_dbids prs)) g g1" using same_view_mono[OF s(4)] dist(2,3) by auto
    then have "list_all2 (\<lambda>pr info. resp_ok guc info \<and> sync_up info \<and> tracked pr g1 info) prs infos"
      using tl tracked_same_view[OF _ pair_dbids_mem] by (simp add: list_all2_conv_all_nth)
    from 4(1)[OF this dist(1), of "Suc i" "u \<or> u1"]
    obtain infos' u' g' where r: "processResponse act (Suc i) infos (u \<or> u1) g1 = Inr (infos', u', g')"
      "list_all2 (\<lambda>pr info. tracked pr g' info) prs infos'" "(\<forall>j. act j) \<longrightarrow> list_all (head_ok guc) infos'"
      "same_view (- set (pair_dbids prs)) g1 g'" by blast
    have "tracked (p, m) g' info'"
      using s(3) tracked_same_view[OF r(4), of "(p, m)" info'] dist(2,3) by simp
    moreover have "processResponse act i (info # infos) u g = Inr (info' # infos', u', g')"
    proof (cases "ftsResponseReady info")
      case True
      then show ?thesis using act s(1) r(1) by (simp add: step_def)
    next
      case False
      then have "info' = info" "\<not> u1" "g1 = g" using s(1) by (auto simp: step_def)
      then show ?thesis using act False r(1) by simp
    qed
    moreover have "same_view (- set (pair_dbids (pr # prs))) g g'"
      using same_view_trans[OF s(4) r(4)] pr by (auto simp: same_view_def pair_dbids_def)
    ultimately show ?thesis using r(2,3) s(2) pr by auto
  qed
qed (auto simp: same_view_def)


subsection \<open>The cycle\<close>

text \<open>
  \<^verbatim>\<open>FtsIsActive\<close> does not become true again in a cycle: the flag for a shutdown is only ever set, and the
  one that skips probes changes between cycles only.
\<close>

definition shutdown_final :: "(nat \<Rightarrow> round_env) \<Rightarrow> bool" where
  "shutdown_final envs \<longleftrightarrow> (\<forall>k. active (envs (Suc k)) \<longrightarrow> (\<forall>i. active_response (envs k) i))"

definition loop_inv ::
  "fts_guc \<Rightarrow> (CdbComponentDatabaseInfo \<times> CdbComponentDatabaseInfo) list \<Rightarrow> fts_global \<Rightarrow> bool \<Rightarrow> fts_state \<Rightarrow> bool" where
  "loop_inv guc prs g0 act = (\<lambda>(infos, u, g).
     list_all2 (\<lambda>pr info. tracked pr g info) prs infos \<and> (act \<longrightarrow> list_all (head_ok guc) infos) \<and>
     same_view (- set (pair_dbids prs)) g0 g)"

lemma fts_round_inv:
  assumes inv: "loop_inv guc prs g0 True st" and tr: "truthful renv" and dist: "distinct (pair_dbids prs)"
    and act: "act \<longrightarrow> (\<forall>i. active_response renv i)"
  shows "case fts_round guc renv st of Inl e \<Rightarrow> env_error e | Inr st' \<Rightarrow> loop_inv guc prs g0 act st'"
proof -
  obtain infos u g where st: "st = (infos, u, g)" by (cases st)
  have i: "list_all2 (\<lambda>pr info. tracked pr g info) prs infos" "list_all (head_ok guc) infos"
    "same_view (- set (pair_dbids prs)) g0 g"
    using inv st by (simp_all add: loop_inv_def)
  note ok = fts_messages_ok[OF i(2), of renv]
  show ?thesis
  proof (cases "fts_messages guc renv infos")
    case (Inl e)
    then show ?thesis using ok st by (simp add: fts_round_def)
  next
    case (Inr infos')
    note pass = fts_messages_Inr[OF Inr]
    have "resp_ok guc (infos' ! j) \<and> sync_up (infos' ! j) \<and> tracked (prs ! j) g (infos' ! j)" if j: "j < length infos" for j
    proof -
      have p: "seg_pass guc renv j (infos ! j) (infos' ! j)" "head_ok guc (infos ! j)" "tracked (prs ! j) g (infos ! j)"
        using pass i j by (auto simp: list_all2_conv_all_nth list_all_length)
      show ?thesis using seg_pass_ok[OF p(2,1)] seg_pass_sync_up[OF tr p(2,1)] tracked_frame[OF p(3) seg_pass_frame[OF p(1)]] by simp
    qed
    then have "list_all2 (\<lambda>pr info. resp_ok guc info \<and> sync_up info \<and> tracked pr g info) prs infos'"
      using pass i(1) by (simp add: list_all2_conv_all_nth)
    from process_responses[OF this dist, of "active_response renv" 0 u]
    obtain infos'' u' g' where "processResponse (active_response renv) 0 infos' u g = Inr (infos'', u', g')"
      "list_all2 (\<lambda>pr info. tracked pr g' info) prs infos''" "(\<forall>j. active_response renv j) \<longrightarrow> list_all (head_ok guc) infos''"
      "same_view (- set (pair_dbids prs)) g g'" by blast
    then show ?thesis using act same_view_trans1[OF i(3)] Inr st by (auto simp: fts_round_def loop_inv_def)
  qed
qed

text \<open>The rule for loop invariants: what one pass makes of the invariant, the loop makes of it.\<close>

lemma fts_loop_invariant:
  assumes loop: "fts_loop guc envs k st = Some r" and init: "Inv k st"
    and step: "\<And>k st. Inv k st \<Longrightarrow> \<not> allDone (fst st) \<Longrightarrow> active (envs k) \<Longrightarrow>
      case fts_round guc (envs k) st of Inl e \<Rightarrow> Q (Inl e) | Inr st' \<Rightarrow> Inv (Suc k) st'"
    and exit: "\<And>k st. Inv k st \<Longrightarrow> allDone (fst st) \<or> \<not> active (envs k) \<Longrightarrow> Q (Inr st)"
  shows "Q r"
proof -
  let ?P = "\<lambda>guc' envs' k st r. guc' = guc \<and> envs' = envs \<and> Inv k st \<longrightarrow> Q r"
  have "?P guc envs k st r"
  proof (rule fts_loop.raw_induct[where P = ?P, OF _ loop], goal_cases)
    case (1 loop guc' envs' k st r)
    show ?case
    proof
      assume inv: "guc' = guc \<and> envs' = envs \<and> Inv k st"
      show "Q r"
      proof (cases "\<not> allDone (fst st) \<and> active (envs k)")
        case True
        then show ?thesis using 1 inv step[of k st] by (cases "fts_round guc (envs k) st") auto
      next
        case False
        then show ?thesis using 1(2) inv exit[of k st] by auto
      qed
    qed
  qed
  then show ?thesis using init by simp
qed

lemma fts_loop_inv:
  assumes "fts_loop guc envs k st = Some r" "\<forall>k. truthful (envs k)" "shutdown_final envs" "distinct (pair_dbids prs)"
    "loop_inv guc prs g0 (active (envs k)) st"
  shows "case r of Inl e \<Rightarrow> env_error e | Inr st' \<Rightarrow> loop_inv guc prs g0 False st'"
proof (rule fts_loop_invariant[OF assms(1), where Inv = "\<lambda>k. loop_inv guc prs g0 (active (envs k))"])
  fix k st
  assume "loop_inv guc prs g0 (active (envs k)) st" "active (envs k)"
  then have "loop_inv guc prs g0 True st" by simp
  note inv = this
  have act: "active (envs (Suc k)) \<longrightarrow> (\<forall>i. active_response (envs k) i)" using assms(3) by (simp add: shutdown_final_def)
  show "case fts_round guc (envs k) st of
      Inl e \<Rightarrow> (case Inl e of Inl e \<Rightarrow> env_error e | Inr st' \<Rightarrow> loop_inv guc prs g0 False st')
    | Inr st' \<Rightarrow> loop_inv guc prs g0 (active (envs (Suc k))) st'"
    using fts_round_inv[OF inv _ assms(4) act] assms(2) by (cases "fts_round guc (envs k) st") simp_all
qed (use assms(5) in \<open>auto simp: loop_inv_def\<close>)


subsection \<open>The cluster\<close>

text \<open>
  The configuration as it is read at the start of a cycle: every entry is in the catalog and
  agrees with the status array, at most two segments have the same content, and a primary forms
  a pair with the other one.
\<close>

definition cluster_ok :: "CdbComponentDatabaseInfo list \<Rightarrow> fts_global \<Rightarrow> bool" where
  "cluster_ok cdbs g \<longleftrightarrow> distinct (map dbid cdbs) \<and> (\<forall>s\<in>set cdbs. view_ok g s) \<and>
     (\<forall>x\<in>set cdbs. \<forall>y\<in>set cdbs. \<forall>z\<in>set cdbs. segindex y = segindex x \<longrightarrow> segindex z = segindex x \<longrightarrow>
        dbid y \<noteq> dbid x \<longrightarrow> dbid z \<noteq> dbid x \<longrightarrow> dbid y = dbid z) \<and>
     (\<forall>p\<in>set cdbs. \<forall>m\<in>set cdbs. SEGMENT_IS_ACTIVE_PRIMARY p \<longrightarrow> segindex m = segindex p \<longrightarrow> dbid m \<noteq> dbid p \<longrightarrow> pair_ok p m)"

definition peers :: "CdbComponentDatabaseInfo list \<Rightarrow> CdbComponentDatabaseInfo \<Rightarrow> CdbComponentDatabaseInfo \<Rightarrow> bool" where
  "peers cdbs p m \<longleftrightarrow> p \<in> set cdbs \<and> m \<in> set cdbs \<and> SEGMENT_IS_ACTIVE_PRIMARY p \<and> segindex m = segindex p \<and> dbid m \<noteq> dbid p"

definition probe_pairs :: "CdbComponentDatabaseInfo list \<Rightarrow> CdbComponentDatabaseInfo list \<Rightarrow> (CdbComponentDatabaseInfo \<times> CdbComponentDatabaseInfo) list" where
  "probe_pairs cdbs ps = concat (map (\<lambda>primary.
       if \<not> SEGMENT_IS_ACTIVE_PRIMARY primary then []
       else (case FtsGetPeerSegment cdbs (segindex primary) (dbid primary) of
               None \<Rightarrow> [] | Some mirror \<Rightarrow> [(primary, mirror)])) ps)"

lemma init_probe_pairs: "FtsWalRepInitProbeContext cdbs = map (\<lambda>(p, m). new_segment p m) (probe_pairs cdbs cdbs)"
proof -
  have "concat (map (\<lambda>primary.
       if \<not> SEGMENT_IS_ACTIVE_PRIMARY primary then []
       else (case FtsGetPeerSegment cdbs (segindex primary) (dbid primary) of
               None \<Rightarrow> [] | Some mirror \<Rightarrow> [new_segment primary mirror])) ps) = map (\<lambda>(p, m). new_segment p m) (probe_pairs cdbs ps)" for ps
    by (induction ps) (auto simp: probe_pairs_def split: option.split)
  then show ?thesis by (simp add: FtsWalRepInitProbeContext_def)
qed

lemma FtsGetPeerSegment_Some:
  "FtsGetPeerSegment cdbs c d = Some m \<Longrightarrow> m \<in> set cdbs \<and> segindex m = c \<and> dbid m \<noteq> d"
  by (auto simp: FtsGetPeerSegment_def for_return_Some_iff Let_def split: if_splits)

lemma FtsGetPeerSegment_None:
  "FtsGetPeerSegment cdbs c d = None \<Longrightarrow> m \<in> set cdbs \<Longrightarrow> segindex m = c \<Longrightarrow> dbid m = d"
  by (auto simp: FtsGetPeerSegment_def for_return_None_iff Let_def in_set_conv_nth split: if_splits)

lemma probe_pairs_peers: "set ps \<subseteq> set cdbs \<Longrightarrow> (p, m) \<in> set (probe_pairs cdbs ps) \<Longrightarrow> peers cdbs p m \<and> p \<in> set ps"
  by (auto simp: probe_pairs_def peers_def dest!: FtsGetPeerSegment_Some[OF sym] split: if_splits option.splits)

lemma cluster_same: "cluster_ok cdbs g \<Longrightarrow> x \<in> set cdbs \<Longrightarrow> y \<in> set cdbs \<Longrightarrow> dbid x = dbid y \<Longrightarrow> x = y"
  by (auto simp: cluster_ok_def distinct_map inj_on_def)

lemma peers_unique: "cluster_ok cdbs g \<Longrightarrow> peers cdbs p m \<Longrightarrow> peers cdbs p n \<Longrightarrow> m = n"
  unfolding peers_def using cluster_same[of cdbs g m n] unfolding cluster_ok_def by blast

lemma peers_pair_ok: "cluster_ok cdbs g \<Longrightarrow> peers cdbs p m \<Longrightarrow> pair_ok p m"
  by (auto simp: cluster_ok_def peers_def)

lemma probe_pairs_complete:
  assumes "cluster_ok cdbs g" "peers cdbs p m"
  shows "(p, m) \<in> set (probe_pairs cdbs cdbs)"
proof -
  obtain n where n: "FtsGetPeerSegment cdbs (segindex p) (dbid p) = Some n"
    using FtsGetPeerSegment_None[of cdbs "segindex p" "dbid p" m] assms(2) by (auto simp: peers_def)
  then have "peers cdbs p n" using FtsGetPeerSegment_Some[OF n] assms(2) by (auto simp: peers_def)
  then have "n = m" using peers_unique[OF assms(1) _ assms(2)] by simp
  then show ?thesis using n assms(2) by (auto simp: probe_pairs_def peers_def intro!: bexI[of _ p])
qed

text \<open>Two pairs have no segment in common.\<close>

lemma primary_not_mirror:
  "cluster_ok cdbs g \<Longrightarrow> peers cdbs p m \<Longrightarrow> SEGMENT_IS_ACTIVE_PRIMARY q \<Longrightarrow> m \<noteq> q"
  using peers_pair_ok by (auto simp: pair_ok_def SEGMENT_IS_ACTIVE_PRIMARY_def config_chars)

lemma peers_disjoint:
  assumes "cluster_ok cdbs g" "peers cdbs p m" "peers cdbs q n" "p \<noteq> q"
  shows "dbid p \<noteq> dbid q \<and> dbid p \<noteq> dbid n \<and> dbid m \<noteq> dbid q \<and> dbid m \<noteq> dbid n"
proof -
  have mem: "p \<in> set cdbs" "q \<in> set cdbs" "m \<in> set cdbs" "n \<in> set cdbs" using assms(2,3) by (auto simp: peers_def)
  have prim: "SEGMENT_IS_ACTIVE_PRIMARY p" "SEGMENT_IS_ACTIVE_PRIMARY q" using assms(2,3) by (simp_all add: peers_def)
  have "p \<noteq> n" "m \<noteq> q" using primary_not_mirror[OF assms(1,3) prim(1)] primary_not_mirror[OF assms(1,2) prim(2)] by auto
  moreover have "m \<noteq> n"
  proof
    assume "m = n"
    then have "peers cdbs p q" using assms(2-4) cluster_same[OF assms(1) mem(1,2)] by (auto simp: peers_def)
    then show False using primary_not_mirror[OF assms(1), of p q q] assms(3) by (simp add: peers_def)
  qed
  ultimately show ?thesis using cluster_same[OF assms(1)] mem assms(4) by blast
qed

lemma probe_pairs_distinct:
  assumes "cluster_ok cdbs g" "distinct ps" "set ps \<subseteq> set cdbs"
  shows "distinct (pair_dbids (probe_pairs cdbs ps))"
  using assms(2,3)
proof (induction ps)
  case (Cons p ps)
  have IH: "distinct (pair_dbids (probe_pairs cdbs ps))" using Cons by simp
  show ?case
  proof (cases "\<exists>m. probe_pairs cdbs (p # ps) = (p, m) # probe_pairs cdbs ps")
    case True
    then obtain m where m: "probe_pairs cdbs (p # ps) = (p, m) # probe_pairs cdbs ps" by blast
    have pm: "peers cdbs p m" using probe_pairs_peers[OF Cons.prems(2), of p m] m by simp
    have "dbid p \<notin> set (pair_dbids (probe_pairs cdbs ps)) \<and> dbid m \<notin> set (pair_dbids (probe_pairs cdbs ps))"
    proof -
      have "dbid p \<noteq> dbid q \<and> dbid p \<noteq> dbid n \<and> dbid m \<noteq> dbid q \<and> dbid m \<noteq> dbid n" if "(q, n) \<in> set (probe_pairs cdbs ps)" for q n
        using probe_pairs_peers[OF _ that] Cons.prems peers_disjoint[OF assms(1) pm, of q n] by auto
      then show ?thesis by (fastforce simp: pair_dbids_def)
    qed
    then show ?thesis using IH m pm by (auto simp: pair_dbids_def peers_def)
  next
    case False
    then have "probe_pairs cdbs (p # ps) = probe_pairs cdbs ps" by (auto simp: probe_pairs_def split: option.splits)
    then show ?thesis using IH by simp
  qed
qed (simp add: probe_pairs_def pair_dbids_def)

lemma new_segment_ok: "0 \<le> gp_fts_probe_retries guc \<Longrightarrow> head_ok guc (new_segment p m)"
  by (simp add: new_segment_def head_ok_def seg_ok_def state_defs)

lemma init_loop_inv:
  assumes "cluster_ok cdbs g" "0 \<le> gp_fts_probe_retries guc"
  shows "loop_inv guc (probe_pairs cdbs cdbs) g act (FtsWalRepInitProbeContext cdbs, False, g)"
proof -
  have "tracked (p, m) g (new_segment p m)" if "(p, m) \<in> set (probe_pairs cdbs cdbs)" for p m
    using probe_pairs_peers[OF _ that] peers_pair_ok[OF assms(1), of p m] assms(1)
    by (auto simp: tracked_def new_segment_def probe_phase_def peers_def cluster_ok_def)
  then show ?thesis using new_segment_ok[OF assms(2)]
    by (auto simp: loop_inv_def init_probe_pairs same_view_def list_all2_conv_all_nth list_all_length split: prod.split) (metis nth_mem)
qed


definition unpaired :: "CdbComponentDatabaseInfo list \<Rightarrow> CdbComponentDatabaseInfo \<Rightarrow> bool" where
  "unpaired cdbs s \<longleftrightarrow> s \<in> set cdbs \<and> (\<forall>t\<in>set cdbs. \<not> peers cdbs s t \<and> \<not> peers cdbs t s)"

lemma cycle_cases: "s \<in> set cdbs \<Longrightarrow> (\<exists>t. peers cdbs s t \<or> peers cdbs t s) \<or> unpaired cdbs s"
  by (auto simp: unpaired_def)

lemma cycle_result:
  assumes "FtsWalRepMessageSegments guc envs cdbs g = Some r" "cluster_ok cdbs g" "\<forall>k. truthful (envs k)" "shutdown_final envs"
    "0 \<le> gp_fts_probe_retries guc"
  shows "case r of Inl e \<Rightarrow> env_error e
    | Inr (u, g') \<Rightarrow> (\<forall>p m. peers cdbs p m \<longrightarrow> outcome p m g') \<and> (\<forall>s. unpaired cdbs s \<longrightarrow> view_ok g' s)"
proof -
  let ?prs = "probe_pairs cdbs cdbs"
  obtain r' where l: "fts_loop guc envs 0 (FtsWalRepInitProbeContext cdbs, False, g) = Some r'"
    "r = result_bind r' (\<lambda>(infos, is_updated, g). Inr (is_updated, g))"
    using assms(1) by (auto simp: FtsWalRepMessageSegments_def bind_eq_Some_conv)
  have "distinct cdbs" using assms(2) by (simp add: cluster_ok_def distinct_map)
  note dist = probe_pairs_distinct[OF assms(2) this]
  note inv = fts_loop_inv[OF l(1) assms(3,4) dist[simplified] init_loop_inv[OF assms(2,5)]]
  show ?thesis
  proof (cases r')
    case (Inl e)
    then show ?thesis using inv l(2) by simp
  next
    case (Inr st)
    obtain infos u g' where st: "st = (infos, u, g')" by (cases st)
    have i: "list_all2 (\<lambda>pr info. tracked pr g' info) ?prs infos" "same_view (- set (pair_dbids ?prs)) g g'"
      using inv Inr st by (simp_all add: loop_inv_def)
    have "outcome p m g'" if pm: "peers cdbs p m" for p m
    proof -
      obtain j where j: "j < length ?prs" "?prs ! j = (p, m)"
        using probe_pairs_complete[OF assms(2) pm] by (auto simp: in_set_conv_nth)
      then show ?thesis using i(1) tracked_outcome[of "(p, m)" g' "infos ! j"] by (auto simp: list_all2_conv_all_nth)
    qed
    moreover have "view_ok g' s" if s: "unpaired cdbs s" for s
    proof -
      have "dbid s \<noteq> dbid p \<and> dbid s \<noteq> dbid m" if "(p, m) \<in> set ?prs" for p m
      proof -
        have pm: "peers cdbs p m" using probe_pairs_peers[OF _ that] by simp
        then have "p \<in> set cdbs" "m \<in> set cdbs" by (simp_all add: peers_def)
        then show ?thesis using s pm cluster_same[OF assms(2)] unfolding unpaired_def by metis
      qed
      then have "dbid s \<notin> set (pair_dbids ?prs)" by (fastforce simp: pair_dbids_def)
      moreover have "view_ok g s" using s assms(2) by (simp add: unpaired_def cluster_ok_def)
      ultimately show ?thesis using i(2) by (simp add: same_view_def)
    qed
    ultimately show ?thesis using l(2) Inr st by simp
  qed
qed

text \<open>The configuration as the next cycle reads it.\<close>

definition reread :: "fts_global \<Rightarrow> CdbComponentDatabaseInfo list \<Rightarrow> CdbComponentDatabaseInfo list" where
  "reread g cdbs = map (\<lambda>s. the (config g (dbid s))) cdbs"

lemma view_reread: "view_ok g s \<Longrightarrow> dbid s = dbid t \<Longrightarrow> the (config g (dbid t)) = s"
  by (simp add: view_ok_def)

lemma outcome_reread:
  assumes "outcome p m g"
  defines "p' \<equiv> the (config g (dbid p))" and "m' \<equiv> the (config g (dbid m))"
  shows "view_ok g p'" "view_ok g m'" "dbid p' = dbid p" "dbid m' = dbid m" "segindex p' = segindex p" "segindex m' = segindex m"
    "pair_ok p' m' \<or> SEGMENT_IS_IN_SYNC m \<and> \<not> SEGMENT_IS_ALIVE p' \<and> pair_ok m' p'"
proof -
  obtain q n where o: "dbid q = dbid p" "dbid n = dbid m" "segindex q = segindex p" "segindex n = segindex m"
    "view_ok g q" "view_ok g n" "pair_ok q n \<or> SEGMENT_IS_IN_SYNC m \<and> \<not> SEGMENT_IS_ALIVE q \<and> pair_ok n q"
    using assms(1) unfolding outcome_def by blast
  have "p' = q" "m' = n" unfolding p'_def m'_def using view_reread[OF o(5,1)] view_reread[OF o(6,2)] .
  then show "view_ok g p'" "view_ok g m'" "dbid p' = dbid p" "dbid m' = dbid m" "segindex p' = segindex p" "segindex m' = segindex m"
    "pair_ok p' m' \<or> SEGMENT_IS_IN_SYNC m \<and> \<not> SEGMENT_IS_ALIVE p' \<and> pair_ok m' p'"
    using o by simp_all
qed

lemma reread_entry:
  assumes "\<forall>p m. peers cdbs p m \<longrightarrow> outcome p m g" "\<forall>s. unpaired cdbs s \<longrightarrow> view_ok g s" "s \<in> set cdbs"
  shows "view_ok g (the (config g (dbid s))) \<and> dbid (the (config g (dbid s))) = dbid s \<and> segindex (the (config g (dbid s))) = segindex s"
proof (cases "unpaired cdbs s")
  case True
  then show ?thesis using assms(2) view_reread[of g s s] by simp
next
  case False
  then obtain t where "peers cdbs s t \<or> peers cdbs t s" using cycle_cases[OF assms(3)] by blast
  then have "outcome s t g \<or> outcome t s g" using assms(1) by blast
  then show ?thesis using outcome_reread(1,3,5)[of s t g] outcome_reread(2,4,6)[of t s g] by blast
qed

lemma pair_primary: "pair_ok p m \<Longrightarrow> SEGMENT_IS_ACTIVE_PRIMARY p \<and> \<not> SEGMENT_IS_ACTIVE_PRIMARY m"
  by (auto simp: pair_ok_def SEGMENT_IS_ACTIVE_PRIMARY_def config_chars)

lemma peers_other:
  assumes "cluster_ok cdbs g" "x \<in> set cdbs" "y \<in> set cdbs" "segindex y = segindex x" "dbid y \<noteq> dbid x" "\<not> unpaired cdbs x"
  shows "peers cdbs x y \<or> peers cdbs y x"
proof -
  obtain t where t: "peers cdbs x t \<or> peers cdbs t x" using cycle_cases[OF assms(2)] assms(6) by blast
  then have "t \<in> set cdbs" "segindex t = segindex x" "dbid t \<noteq> dbid x" by (auto simp: peers_def)
  then have "dbid y = dbid t" using assms(1-5) unfolding cluster_ok_def by blast
  then show ?thesis using t cluster_same[OF assms(1,3) \<open>t \<in> set cdbs\<close>] by simp
qed

lemma reread_pair:
  assumes "cluster_ok cdbs g" "\<forall>p m. peers cdbs p m \<longrightarrow> outcome p m g'" "\<forall>s. unpaired cdbs s \<longrightarrow> view_ok g' s"
    "x \<in> set cdbs" "y \<in> set cdbs" "segindex y = segindex x" "dbid y \<noteq> dbid x"
    "SEGMENT_IS_ACTIVE_PRIMARY (the (config g' (dbid x)))"
  shows "pair_ok (the (config g' (dbid x))) (the (config g' (dbid y)))"
proof (cases "unpaired cdbs x")
  case True
  then have "the (config g' (dbid x)) = x" using assms(3) view_reread by blast
  then have "peers cdbs x y" using assms(4-8) by (simp add: peers_def)
  then show ?thesis using True assms(5) by (simp add: unpaired_def)
next
  case False
  then have "outcome x y g' \<or> outcome y x g'" using peers_other[OF assms(1,4-7)] assms(2) by blast
  then show ?thesis using assms(8) pair_primary outcome_reread(7)[of x y g'] outcome_reread(7)[of y x g'] by blast
qed

lemma reread_cluster_ok:
  assumes "cluster_ok cdbs g" "\<forall>p m. peers cdbs p m \<longrightarrow> outcome p m g'" "\<forall>s. unpaired cdbs s \<longrightarrow> view_ok g' s"
  shows "cluster_ok (reread g' cdbs) g'"
proof -
  let ?f = "\<lambda>s. the (config g' (dbid s))"
  note e = reread_entry[OF assms(2,3)]
  have ids: "dbid (?f s) = dbid s" "segindex (?f s) = segindex s" if "s \<in> set cdbs" for s using e[OF that] by blast+
  have "map dbid (reread g' cdbs) = map dbid cdbs" using ids by (simp add: reread_def)
  then have dist: "distinct (map dbid (reread g' cdbs))" using assms(1) unfolding cluster_ok_def by simp
  have two: "dbid (?f y) = dbid (?f z)" if "x \<in> set cdbs" "y \<in> set cdbs" "z \<in> set cdbs" "segindex (?f y) = segindex (?f x)"
    "segindex (?f z) = segindex (?f x)" "dbid (?f y) \<noteq> dbid (?f x)" "dbid (?f z) \<noteq> dbid (?f x)" for x y z
  proof -
    have "segindex y = segindex x" "segindex z = segindex x" "dbid y \<noteq> dbid x" "dbid z \<noteq> dbid x" using ids that by metis+
    then have "dbid y = dbid z" using assms(1) that(1-3) unfolding cluster_ok_def by blast
    then show ?thesis by simp
  qed
  have pair: "pair_ok (?f x) (?f y)" if "x \<in> set cdbs" "y \<in> set cdbs" "SEGMENT_IS_ACTIVE_PRIMARY (?f x)"
    "segindex (?f y) = segindex (?f x)" "dbid (?f y) \<noteq> dbid (?f x)" for x y
  proof -
    have "segindex y = segindex x" "dbid y \<noteq> dbid x" using ids that by metis+
    then show ?thesis using reread_pair[OF assms that(1,2) _ _ that(3)] by blast
  qed
  show ?thesis unfolding cluster_ok_def
  proof (intro conjI ballI impI)
    fix s assume "s \<in> set (reread g' cdbs)"
    then show "view_ok g' s" using e by (auto simp: reread_def)
  next
    fix x y z assume mem: "x \<in> set (reread g' cdbs)" "y \<in> set (reread g' cdbs)" "z \<in> set (reread g' cdbs)" and ne:
      "segindex y = segindex x" "segindex z = segindex x" "dbid y \<noteq> dbid x" "dbid z \<noteq> dbid x"
    obtain x' y' z' where "x' \<in> set cdbs" "y' \<in> set cdbs" "z' \<in> set cdbs" "x = ?f x'" "y = ?f y'" "z = ?f z'"
      using mem unfolding reread_def by auto
    then show "dbid y = dbid z" using two[of x' y' z'] ne by metis
  next
    fix p m assume mem: "p \<in> set (reread g' cdbs)" "m \<in> set (reread g' cdbs)" and ne:
      "SEGMENT_IS_ACTIVE_PRIMARY p" "segindex m = segindex p" "dbid m \<noteq> dbid p"
    obtain p' m' where "p' \<in> set cdbs" "m' \<in> set cdbs" "p = ?f p'" "m = ?f m'"
      using mem unfolding reread_def by auto
    then show "pair_ok p m" using pair[of p' m'] ne by metis
  qed (rule dist)
qed

end
