(* ===== verification/Fts_Progress.thy ===== *)
theory Fts_Progress
  imports Fts_Cycle
begin

text \<open>
  A probe cycle ends: with a connection library that behaves as documented and a clock that
  advances, every segment is done after finitely many passes.
\<close>


subsection \<open>The cycle ends\<close>

text \<open>
  What the connection library documents: a new connection is not established yet, polling it
  returns OK when it is established and idle, and asks for reading or writing before that.  With
  memory for the connection and no error of \<^verbatim>\<open>poll\<close> no step of a cycle raises an error.
\<close>

definition libpq_ok :: "round_env \<Rightarrow> bool" where
  "libpq_ok renv \<longleftrightarrow> \<not> poll_failed renv \<and> (\<forall>i.
     (case PQconnectStart (seg renv i) of None \<Rightarrow> False | Some c \<Rightarrow> conn_status c \<noteq> CONNECTION_OK) \<and>
     (case PQconnectPoll (seg renv i) of
        (PGRES_POLLING_OK, c) \<Rightarrow> conn_status c = CONNECTION_OK \<and> asyncStatus c = PGASYNC_IDLE
      | (PGRES_POLLING_READING, c) \<Rightarrow> conn_status c \<noteq> CONNECTION_OK
      | (PGRES_POLLING_WRITING, c) \<Rightarrow> conn_status c \<noteq> CONNECTION_OK
      | (PGRES_POLLING_FAILED, c) \<Rightarrow> True
      | (PGRES_POLLING_ACTIVE, c) \<Rightarrow> False))"

text \<open>The clock passes every time, by less than half the range of the cast in a pass.\<close>

definition ticking :: "(nat \<Rightarrow> int) \<Rightarrow> bool" where
  "ticking f \<longleftrightarrow> (\<forall>B. \<exists>n. B < f n) \<and> (\<forall>n. f (Suc n) \<le> f n + 2 ^ 30)"

lemma int_cast_shift: "- (2 ^ 31) \<le> d \<Longrightarrow> d < 2 ^ 31 \<Longrightarrow> int_cast (d + j * 2 ^ 32) = d"
proof -
  assume d: "- (2 ^ 31) \<le> d" "d < 2 ^ 31"
  have "word_of_int (d + j * 2 ^ 32) = (word_of_int d :: 32 word)" by transfer (simp add: take_bit_eq_mod)
  moreover have "sint (word_of_int k :: 32 word) = signed_take_bit 31 k" for k by transfer simp
  ultimately show ?thesis using d by (simp add: int_cast_def signed_take_bit_int_eq_self)
qed

lemma ticking_late:
  assumes "ticking f"
  shows "\<exists>n\<ge>N. B < f n"
proof -
  define C where "C = Max (insert B (f ` {..N}))"
  obtain n where n: "C < f n" using assms by (auto simp: ticking_def)
  have "f m \<le> C" if "m \<le> N" for m unfolding C_def using that by (intro Max_ge) auto
  then have "N \<le> n" using n by (meson nat_le_linear not_le)
  moreover have "B \<le> C" by (simp add: C_def)
  ultimately show ?thesis using n by auto
qed

lemma ticking_first:
  assumes "ticking f" "f N \<le> B"
  shows "\<exists>n\<ge>N. B < f n \<and> f n \<le> B + 2 ^ 30"
proof -
  define n where "n = (LEAST n. N \<le> n \<and> B < f n)"
  have n: "N \<le> n" "B < f n" using LeastI_ex[OF ticking_late[OF assms(1), of N B]] by (simp_all add: n_def)
  then obtain m where m: "n = Suc m" using assms(2) by (cases n) (auto simp: le_Suc_eq)
  have "N \<le> m" using n assms(2) m by (auto simp: le_Suc_eq)
  then have "f m \<le> B" using not_less_Least[of m "\<lambda>n. N \<le> n \<and> B < f n"] m by (simp add: n_def not_less)
  moreover have "f (Suc m) \<le> f m + 2 ^ 30" using assms(1) unfolding ticking_def by blast
  ultimately show ?thesis using n m by (intro exI[of _ n]) simp
qed

text \<open>Sooner or later the cast difference to any time exceeds a timeout.\<close>

lemma ticking_timeout:
  assumes "ticking f" "- (2 ^ 31) \<le> tmo" "tmo < 2 ^ 30"
  shows "\<exists>n\<ge>N. tmo < int_cast (f n - t)"
proof -
  define j where "j = \<bar>f N - t - tmo\<bar>"
  have "f N \<le> t + tmo + j * 2 ^ 32" unfolding j_def by (simp add: abs_if)
  from ticking_first[OF assms(1) this] obtain n where n: "n \<ge> N" "t + tmo + j * 2 ^ 32 < f n" "f n \<le> t + tmo + j * 2 ^ 32 + 2 ^ 30" by blast
  have "int_cast (f n - t - j * 2 ^ 32 + j * 2 ^ 32) = f n - t - j * 2 ^ 32"
    using n assms(2,3) by (intro int_cast_shift) simp_all
  then have "int_cast (f n - t) = f n - t - j * 2 ^ 32" by simp
  then show ?thesis using n by (intro exI[of _ n]) simp
qed


definition events_ok :: "pollbits \<Rightarrow> bool" where
  "events_ok e \<longleftrightarrow> e AND (POLLIN OR POLLOUT) = e"

lemma and_bit: "(e AND POLLIN = 0) = (\<not> bit e 0)" "(e AND POLLOUT = 0) = (\<not> bit e 2)" for e :: pollbits
  using bit_iff_and_push_bit_not_eq_0[of e 0] bit_iff_and_push_bit_not_eq_0[of e 2] by (simp_all add: POLLIN_def POLLOUT_def)

lemma bit_poll [simp]: "bit POLLIN n = (n = 0)" "bit POLLOUT n = (n = 2)"
proof -
  have "POLLOUT = push_bit 2 1" by (simp add: POLLOUT_def)
  then have "bit POLLOUT n = bit (push_bit 2 1 :: pollbits) n" by (rule arg_cong)
  also have "\<dots> = (n = 2)" by (auto simp only: bit_push_bit_iff bit_1_iff) auto
  finally show "bit POLLIN n = (n = 0)" "bit POLLOUT n = (n = 2)" by (simp_all add: POLLIN_def bit_1_iff)
qed

lemma and_nonzero: "(e AND f \<noteq> 0) = (\<exists>n. bit e n \<and> bit f n)" for e f :: pollbits
proof -
  have "(e AND f = 0) = (\<forall>n. bit (e AND f) n = bit 0 n)" by (rule bit_eq_iff[THEN trans]) (metis bit_0_eq bit_imp_possible_bit bot_apply)
  then show ?thesis by (simp add: bit_and_iff)
qed

lemma events_ok_bits: "events_ok e \<longleftrightarrow> (\<forall>n. bit e n \<longrightarrow> n = 0 \<or> n = (2::nat))"
proof -
  have "(bit (e AND (POLLIN OR POLLOUT)) n = bit e n) = (bit e n \<longrightarrow> n = 0 \<or> n = 2)" for n
    by (auto simp: bit_and_iff bit_or_iff)
  then show ?thesis unfolding events_ok_def by (metis bit_word_eqI)
qed

lemma polled_bits: "polled x \<longleftrightarrow> bit (poll_events x) 0 \<or> bit (poll_events x) 2"
  unfolding polled_def by (auto simp: and_nonzero bit_or_iff)

lemma revents_bits: "(e AND (POLLOUT OR POLLIN) = 0) = (\<not> bit e 0 \<and> \<not> bit e 2)" for e :: pollbits
  using and_nonzero[of e "POLLOUT OR POLLIN"] by (auto simp: bit_or_iff)

text \<open>
  While a message is under way its connection is polled, or it is not established and ready for
  the next step; and the prober waits to write on an established connection only when it is idle.
\<close>

definition idle_ok :: "fts_segment_info \<Rightarrow> bool" where
  "idle_ok x \<longleftrightarrow> (\<forall>c. conn x = Some c \<longrightarrow> conn_status c = CONNECTION_OK \<longrightarrow> bit (poll_events x) 2 \<longrightarrow> asyncStatus c = PGASYNC_IDLE)"

definition live :: "fts_segment_info \<Rightarrow> bool" where
  "live x \<longleftrightarrow> events_ok (poll_events x) \<and> (conn x \<noteq> None \<longrightarrow> messaging (state x) \<longrightarrow> idle_ok x \<and>
     (polled x \<or> PQstatus (conn x) \<noteq> CONNECTION_OK \<and> poll_revents x AND (POLLOUT OR POLLIN) \<noteq> 0))"

lemma fail_not_messaging: "fail_segment y = Inr b \<Longrightarrow> \<not> messaging (state b)"
  by (cases "state y") (auto simp: fail_segment_def messaging_def)

lemma connect_poll_live:
  assumes "libpq_ok renv" "connect_poll (seg renv i) x = Inr a" "messaging (state a)" "events_ok (poll_events x)"
  shows "conn a \<noteq> None \<and> polled a \<and> events_ok (poll_events a) \<and> idle_ok a \<and> startTime a = startTime x \<and> retry_count a = retry_count x"
proof -
  obtain r c where rc: "PQconnectPoll (seg renv i) = (r, c)" by fastforce
  have ok: "case r of PGRES_POLLING_OK \<Rightarrow> conn_status c = CONNECTION_OK \<and> asyncStatus c = PGASYNC_IDLE
      | PGRES_POLLING_READING \<Rightarrow> conn_status c \<noteq> CONNECTION_OK | PGRES_POLLING_WRITING \<Rightarrow> conn_status c \<noteq> CONNECTION_OK
      | PGRES_POLLING_FAILED \<Rightarrow> True | PGRES_POLLING_ACTIVE \<Rightarrow> False"
    using assms(1) rc by (auto simp: libpq_ok_def split: PostgresPollingStatusType.splits prod.splits)
  show ?thesis
    using assms(2-4) ok rc
    by (cases r) (auto simp: connect_poll_def result_bind_Inr_iff polled_bits events_ok_bits idle_ok_def bit_or_iff dest: fail_not_messaging)
qed

lemma connect_live:
  assumes "libpq_ok renv" "ftsConnect_segment (seg renv i) x = Inr a" "messaging (state x)" "messaging (state a)" "live x"
  shows "conn a \<noteq> None \<and> polled a \<and> events_ok (poll_events a) \<and> idle_ok a \<and> (conn x \<noteq> None \<longrightarrow> startTime a = startTime x) \<and>
    retry_count a = retry_count x"
proof (cases "conn x")
  case None
  obtain c where c: "PQconnectStart (seg renv i) = Some c" "conn_status c \<noteq> CONNECTION_OK"
    using assms(1) by (auto simp: libpq_ok_def split: option.splits)
  show ?thesis
    using assms(2-5) None c
    by (auto simp: ftsConnect_segment_def ftsConnectStart_def Let_def polled_bits events_ok_bits idle_ok_def live_def bit_or_iff
        dest: fail_not_messaging split: if_splits)
next
  case (Some c)
  let ?x = "x\<lparr>recovery_making_progress := False\<rparr>"
  consider "conn_status c = CONNECTION_OK" "a = x"
    | "conn_status c \<noteq> CONNECTION_OK" "poll_revents x AND (POLLOUT OR POLLIN) \<noteq> 0" "connect_poll (seg renv i) ?x = Inr a"
    | "conn_status c \<noteq> CONNECTION_OK" "poll_revents x AND (POLLOUT OR POLLIN) = 0" "a = ?x"
    using assms(2,3) Some by (auto simp: ftsConnect_segment_def PQstatus_def Let_def split: if_splits)
  then show ?thesis
  proof cases
    case 2
    then show ?thesis using connect_poll_live[OF assms(1) 2(3) assms(4)] assms(5) by (simp add: live_def)
  qed (use assms(3,5) Some in \<open>auto simp: live_def PQstatus_def idle_ok_def polled_def\<close>)
qed


lemma poll_live:
  assumes "poll_step guc renv i a b" "messaging (state b)" "polled a" "events_ok (poll_events a)" "messaging (state a)"
  shows "conn b = conn a \<and> startTime b = startTime a \<and> retry_count b = retry_count a \<and>
    int_cast (poll_time renv - startTime a) \<le> gp_fts_probe_timeout guc \<and>
    (poll_events b = poll_events a \<and> poll_revents b = 0 \<or>
     poll_events b = 0 \<and> (bit (poll_revents b) 0 \<or> bit (poll_revents b) 2 \<and> bit (poll_events a) 2))"
proof -
  let ?ev = "revents (seg renv i)"
  obtain d where d: "poll_response guc (poll_time renv) ?ev (a\<lparr>fd_index := d\<rparr>) = Inr b"
    using assms(1,3) by (auto simp: poll_step_def)
  define y where "y = a\<lparr>fd_index := d, poll_revents := ?ev\<rparr>"
  have nomsg: "\<not> messaging (state b)" if "fail_segment y = Inr z" "ftsCheckTimeout guc now z = Inr b" for now z
    using that fail_not_messaging by (auto simp: ftsCheckTimeout_def split: if_splits)
  obtain z where z: "(if ?ev AND poll_events a \<noteq> 0 then Inr (y\<lparr>poll_events := 0\<rparr>)
            else if ?ev AND (POLLHUP OR POLLERR) \<noteq> 0 then fail_segment y
            else if ?ev \<noteq> 0 then fail_segment y else Inr y) = Inr z"
    "ftsCheckTimeout guc (poll_time renv) z = Inr b"
    using d unfolding poll_response_def Let_def result_bind_Inr_iff y_def by auto
  have zy: "?ev AND poll_events a \<noteq> 0 \<and> z = y\<lparr>poll_events := 0\<rparr> \<or> ?ev = 0 \<and> z = y"
    using z nomsg assms(2) by (auto split: if_splits)
  have "state z = state a" using zy by (auto simp: y_def)
  then have "b = z \<and> int_cast (poll_time renv - startTime z) \<le> gp_fts_probe_timeout guc"
    using z(2) assms(2,5) fail_not_messaging[of z b] failed_not(2)[of "state z"] by (auto simp: ftsCheckTimeout_def split: if_splits)
  moreover have "bit ?ev 0 \<or> bit ?ev 2 \<and> bit (poll_events a) 2" if "?ev AND poll_events a \<noteq> 0"
    using that assms(4) by (auto simp: and_nonzero events_ok_bits)
  ultimately show ?thesis using zy by (auto simp: y_def)
qed

lemma send_live:
  assumes "ftsSend_segment env b = Inr c" "messaging (state c)" "messaging (state b)"
  shows "startTime c = startTime b \<and> retry_count c = retry_count b \<and> poll_revents c = poll_revents b \<and>
    (c = b \<and> \<not> (PQstatus (conn b) = CONNECTION_OK \<and> asyncStatus (the (conn b)) = PGASYNC_IDLE \<and> bit (poll_revents b) 2) \<or>
     poll_events c = POLLIN \<and> conn c \<noteq> None)"
  using assms by (auto simp: ftsSend_segment_def and_bit Let_def split: if_splits prod.splits dest: fail_not_messaging)

lemma receive_live:
  assumes "ftsReceive_segment env c = Inr d" "messaging (state d)"
  shows "d = c \<and> (PQstatus (conn c) \<noteq> CONNECTION_OK \<or> \<not> bit (poll_revents c) 0)"
proof -
  have "\<not> messaging t" if "nextSuccessState s = Inr t" for s t using that by (cases s) (auto simp: messaging_def)
  then show ?thesis
    using assms by (auto simp: ftsReceive_segment_def and_bit Let_def result_bind_Inr_iff
        split: if_splits prod.splits option.splits dest: fail_not_messaging)
qed

lemma not_messaging_steps:
  "\<not> messaging (state a) \<Longrightarrow> poll_step guc renv i a b \<Longrightarrow> \<not> messaging (state b)"
  "\<not> messaging (state b) \<Longrightarrow> ftsSend_segment env b = Inr c \<Longrightarrow> c = b"
  "\<not> messaging (state c) \<Longrightarrow> ftsReceive_segment env c = Inr d \<Longrightarrow> d = c"
  by (auto simp: poll_step_def poll_response_def Let_def result_bind_Inr_iff ftsCheckTimeout_def ftsSend_segment_def ftsReceive_segment_def
      dest: fail_not_messaging split: if_splits)

text \<open>A message that is still under way after a pass: it has not timed out and its connection is polled.\<close>

lemma message_pass:
  assumes "libpq_ok renv" "live x" "messaging (state x)"
    "ftsConnect_segment (seg renv i) x = Inr a" "poll_step guc renv i a b" "ftsSend_segment (seg renv i) b = Inr c"
    "ftsReceive_segment (seg renv i) c = Inr d" "messaging (state d)"
  shows "conn d \<noteq> None \<and> live d \<and> retry_count d = retry_count x \<and>
    (conn x \<noteq> None \<longrightarrow> startTime d = startTime x \<and> int_cast (poll_time renv - startTime x) \<le> gp_fts_probe_timeout guc)"
proof -
  have m: "messaging (state c)" "messaging (state b)" "messaging (state a)"
    using not_messaging_steps assms(5-8) by metis+
  note C = connect_live[OF assms(1,4,3) m(3) assms(2)]
  have P: "conn b = conn a \<and> startTime b = startTime a \<and> retry_count b = retry_count a \<and>
    int_cast (poll_time renv - startTime a) \<le> gp_fts_probe_timeout guc \<and>
    (poll_events b = poll_events a \<and> poll_revents b = 0 \<or>
     poll_events b = 0 \<and> (bit (poll_revents b) 0 \<or> bit (poll_revents b) 2 \<and> bit (poll_events a) 2))"
    using poll_live[OF assms(5) m(2) _ _ m(3)] C by blast
  note S = send_live[OF assms(6) m(1,2)]
  note R = receive_live[OF assms(7,8)]
  obtain cn where cn: "conn a = Some cn" using C by blast
  have "live c"
  proof (cases "poll_events c = POLLIN \<and> conn c \<noteq> None")
    case True
    then show ?thesis by (auto simp: live_def events_ok_bits idle_ok_def polled_bits)
  next
    case False
    then have cb: "c = b" "\<not> (PQstatus (conn b) = CONNECTION_OK \<and> asyncStatus (the (conn b)) = PGASYNC_IDLE \<and> bit (poll_revents b) 2)"
      using S by auto
    show ?thesis
    proof (cases "poll_events b = 0")
      case True
      have "conn_status cn \<noteq> CONNECTION_OK \<and> (bit (poll_revents b) 0 \<or> bit (poll_revents b) 2)"
        using P C R cb True cn by (auto simp: polled_bits idle_ok_def PQstatus_def)
      then show ?thesis using True cb(1) P cn by (auto simp: live_def events_ok_bits idle_ok_def revents_bits PQstatus_def)
    next
      case False
      then show ?thesis using P C cb(1) cn by (auto simp: live_def idle_ok_def polled_bits)
    qed
  qed
  moreover have "conn c \<noteq> None" using S P cn by auto
  ultimately show ?thesis using R S P C by auto
qed


text \<open>The messages of a segment in a cycle: a probe, then at most one other message.\<close>

definition phase :: "FtsMessageState \<Rightarrow> int" where
  "phase s = (if probe_phase s then 2 else if s = FTS_RESPONSE_PROCESSED then 0 else 1)"

definition follows :: "fts_segment_info \<Rightarrow> fts_segment_info \<Rightarrow> bool" where
  "follows a b \<longleftrightarrow> retry_count b = retry_count a \<and> phase (state b) = phase (state a) \<and>
     (waiting (state a) \<or> state a = FTS_RESPONSE_PROCESSED \<or> \<not> waiting (state b) \<and> state b \<noteq> FTS_RESPONSE_PROCESSED)"

lemma nextFailedState_follows: "nextFailedState s = Inr t \<Longrightarrow> phase t = phase s \<and> \<not> waiting t \<and> t \<noteq> FTS_RESPONSE_PROCESSED"
  by (cases s) (auto simp: phase_def probe_phase_def waiting_def)

lemma nextSuccessState_follows: "nextSuccessState s = Inr t \<Longrightarrow> phase t = phase s \<and> \<not> waiting t \<and> t \<noteq> FTS_RESPONSE_PROCESSED"
  by (cases s) (auto simp: phase_def probe_phase_def waiting_def)

lemma fail_follows: "fail_segment a = Inr b \<Longrightarrow> follows a b"
  by (auto simp: fail_segment_def result_bind_Inr_iff follows_def dest: nextFailedState_follows)

lemma follows_trans: "follows a b \<Longrightarrow> follows b c \<Longrightarrow> follows a c"
  by (auto simp: follows_def phase_def probe_phase_def waiting_def split: if_splits)

lemma follows_refl [simp]: "follows a a"
  by (auto simp: follows_def)

lemma follows_updates [simp]:
  "follows (a\<lparr>conn := c\<rparr>) b = follows a b" "follows (a\<lparr>recovery_making_progress := r\<rparr>) b = follows a b"
  "follows (a\<lparr>fd_index := d\<rparr>) b = follows a b" "follows (a\<lparr>poll_revents := e\<rparr>) b = follows a b" "follows (a\<lparr>poll_events := e\<rparr>) b = follows a b"
  "follows a (b\<lparr>conn := c\<rparr>) = follows a b" "follows a (b\<lparr>recovery_making_progress := r\<rparr>) = follows a b"
  "follows a (b\<lparr>fd_index := d\<rparr>) = follows a b" "follows a (b\<lparr>poll_revents := e\<rparr>) = follows a b" "follows a (b\<lparr>poll_events := e\<rparr>) = follows a b"
  "follows a (b\<lparr>startTime := t\<rparr>) = follows a b" "follows a (checkIfFailedDueToRecoveryInProgress b) = follows a b"
  by (simp_all add: follows_def)

lemma connect_follows: "ftsConnect_segment env a = Inr b \<Longrightarrow> follows a b"
  by (auto simp: ftsConnect_segment_def ftsConnectStart_def connect_poll_def Let_def result_bind_Inr_iff dest!: fail_follows
      split: if_splits option.splits prod.splits PostgresPollingStatusType.splits)

lemma poll_follows: "poll_step guc renv i a b \<Longrightarrow> follows a b"
  by (auto simp: poll_step_def poll_response_def ftsCheckTimeout_def Let_def result_bind_Inr_iff split: if_splits
      dest!: fail_follows intro: follows_trans)

lemma send_follows: "ftsSend_segment env a = Inr b \<Longrightarrow> follows a b"
  by (auto simp: ftsSend_segment_def Let_def dest!: fail_follows split: if_splits prod.splits)

lemma receive_follows: "ftsReceive_segment env a = Inr b \<Longrightarrow> follows a b"
  by (auto simp: ftsReceive_segment_def Let_def probeRecordResponse_def result_bind_Inr_iff dest!: fail_follows
      split: if_splits prod.splits option.splits) (auto simp: follows_def dest: nextSuccessState_follows)

text \<open>
  The measure of a segment: the phase, then the retries left, then whether it waits, has yet to
  connect or is connected.
\<close>

definition rank :: "fts_guc \<Rightarrow> fts_segment_info \<Rightarrow> int" where
  "rank guc x = (if state x = FTS_RESPONSE_PROCESSED then 0
     else phase (state x) * (3 * (gp_fts_probe_retries guc + 1)) + 3 * (gp_fts_probe_retries guc - retry_count x) +
       (if waiting (state x) then 2 else if conn x = None then 1 else 0))"

definition resp_step :: "fts_segment_info \<Rightarrow> fts_segment_info \<Rightarrow> bool" where
  "resp_step y x \<longleftrightarrow> (if ftsResponseReady y then \<exists>g u g'. processResponse_segment y g = Inr (x, u, g') else x = y)"

lemma resp_stepI: "ftsResponseReady y \<Longrightarrow> processResponse_segment y g = Inr (x, u, g') \<Longrightarrow> resp_step y x" "\<not> ftsResponseReady y \<Longrightarrow> resp_step y y"
  by (auto simp: resp_step_def)

lemma processResponse_steps:
  "processResponse act i infos u g = Inr (infos', u', g') \<Longrightarrow> \<forall>j. act j \<Longrightarrow> list_all2 resp_step infos infos'"
proof (induction infos arbitrary: i u g infos')
  case (Cons y ys)
  then show ?case
    by (cases "ftsResponseReady y") (auto simp: result_bind_Inr_iff intro: resp_stepI)
qed simp

lemma response_next:
  assumes "processResponse_segment y g = Inr (x, u, g')" "ftsResponseReady y"
  shows "phase (state x) < phase (state y) \<and> conn x = None \<and> poll_events x = 0 \<and> poll_revents x = 0 \<and> retry_count x = 0 \<and>
    \<not> waiting (state x)"
  using assms
  by (cases "state y") (auto simp: processResponse_segment_def Let_def result_bind_Inr_iff reset_segment_def phase_def probe_phase_def
      ftsResponseReady_def state_defs split: if_splits prod.splits)

definition stall :: "fts_guc \<Rightarrow> round_env \<Rightarrow> fts_segment_info \<Rightarrow> fts_segment_info \<Rightarrow> bool" where
  "stall guc renv x x' \<longleftrightarrow>
     waiting (state x) \<and> waiting (state x') \<and> retryStartTime x' = retryStartTime x \<and> int_cast (retry_time renv - retryStartTime x) < 1 \<or>
     messaging (state x) \<and> messaging (state x') \<and> conn x \<noteq> None \<and> conn x' \<noteq> None \<and> startTime x' = startTime x \<and>
       int_cast (poll_time renv - startTime x) \<le> gp_fts_probe_timeout guc"


lemma idle_pass:
  assumes "seg_pass guc renv i x y" "\<not> messaging (state x)" "conn x = None" "poll_events x = 0"
  shows "\<exists>d. y = processRetry_segment guc (retry_time renv) (x\<lparr>fd_index := d\<rparr>)"
  using assms(1)
proof (cases rule: seg_passE)
  case (step a b c d)
  have "a = x" using step(1) assms(2,3) by (auto simp: ftsConnect_segment_def)
  then obtain k where "b = x\<lparr>fd_index := k\<rparr>" using step(2) assms(4) by (auto simp: poll_step_def)
  moreover from this have "d = b" using step(3,4) assms(2) not_messaging_steps(2,3)[of b] by auto
  ultimately show ?thesis using step(5) by blast
qed

lemma head_idle:
  assumes "head_ok guc x" "waiting (state x) \<or> state x = FTS_RESPONSE_PROCESSED"
  shows "conn x = None" "poll_events x = 0" "\<not> messaging (state x)"
proof -
  show "conn x = None" "poll_events x = 0" using assms unfolding head_ok_def seg_ok_def by blast+
  show "\<not> messaging (state x)" using assms(2) failed_not(2) by blast
qed

lemma rank_phase_less:
  assumes "phase (state x) < phase (state y)" "retry_count x = 0" "\<not> waiting (state x)" "conn x = None"
    "0 \<le> retry_count y" "retry_count y \<le> gp_fts_probe_retries guc" "state y \<noteq> FTS_RESPONSE_PROCESSED"
  shows "rank guc x < rank guc y"
proof -
  let ?R = "gp_fts_probe_retries guc"
  have "(phase (state x) + 1) * (3 * (?R + 1)) \<le> phase (state y) * (3 * (?R + 1))"
    using assms(1,5,6) by (intro mult_right_mono) auto
  moreover have "0 \<le> phase (state x)" "1 \<le> phase (state y)" using assms(7) by (auto simp: phase_def)
  moreover have "0 < phase (state y) * (3 * (?R + 1))" using calculation(3) assms(5,6) by (intro mult_pos_pos) auto
  ultimately show ?thesis using assms by (auto simp: rank_def algebra_simps)
qed

lemma waiting_step:
  assumes "head_ok guc x" "live x" "waiting (state x)" "seg_pass guc renv i x y" "resp_step y x'"
  shows "live x' \<and> (rank guc x' < rank guc x \<or> rank guc x' = rank guc x \<and> stall guc renv x x')"
proof -
  have x: "conn x = None" "poll_events x = 0" "\<not> messaging (state x)" using head_idle[OF assms(1)] assms(3) by auto
  obtain d where y: "y = processRetry_segment guc (retry_time renv) (x\<lparr>fd_index := d\<rparr>)" using idle_pass[OF assms(4) x(3,1,2)] by blast
  have ry: "\<not> ftsResponseReady y" using assms(3) y
    by (cases "state x") (simp_all add: waiting_def processRetry_segment_def ftsResponseReady_def state_defs)
  then have "x' = y" using assms(5) by (simp add: resp_step_def)
  then show ?thesis
    using y x assms(2,3)
    by (cases "state x") (simp_all add: waiting_def processRetry_segment_def rank_def phase_def probe_phase_def live_def stall_def messaging_def)
qed

lemma retry_cases:
  assumes "seg_ok guc d" "\<not> messaging (state d)" "\<not> waiting (state d)" "state d \<noteq> FTS_RESPONSE_PROCESSED"
    "y = processRetry_segment guc now d"
  shows "y = d \<and> ftsResponseReady d \<or>
    waiting (state y) \<and> conn y = None \<and> poll_events y = 0 \<and> retry_count y = retry_count d + 1 \<and> phase (state y) = phase (state d)"
  using assms by (cases "state d") (auto simp: processRetry_segment_def retryForFtsFailed_def ftsResponseReady_def state_defs phase_def probe_phase_def)

lemma message_step:
  assumes "head_ok guc x" "live x" "messaging (state x)" "libpq_ok renv" "seg_pass guc renv i x y" "resp_step y x'"
  shows "live x' \<and> (rank guc x' < rank guc x \<or> rank guc x' = rank guc x \<and> stall guc renv x x')"
  using assms(5)
proof (cases rule: seg_passE)
  case (step a b c d)
  have "follows x d"
    using connect_follows[OF step(1)] poll_follows[OF step(2)] send_follows[OF step(3)] receive_follows[OF step(4)] follows_trans by metis
  then have f: "retry_count d = retry_count x" "phase (state d) = phase (state x)" "\<not> waiting (state d)" "state d \<noteq> FTS_RESPONSE_PROCESSED"
    using assms(3) failed_not(2)[of "state x"] by (auto simp: follows_def)
  have d: "seg_ok guc d" using receive_ok[OF seg_pass_mid[OF assms(1) step(1-3)], of "seg renv i"] step(4) by simp
  have xs: "\<not> waiting (state x)" "state x \<noteq> FTS_RESPONSE_PROCESSED" using assms(3) by (auto simp: state_defs)
  show ?thesis
  proof (cases "messaging (state d)")
    case True
    then have "y = d" "\<not> ftsResponseReady d" using step(5) by (auto simp: processRetry_segment_def ftsResponseReady_def state_defs)
    then have x': "x' = d" using assms(6) by (simp add: resp_step_def)
    note p = message_pass[OF assms(4,2,3) step(1-4) True]
    show ?thesis using p f xs True assms(3) unfolding x' by (cases "conn x") (auto simp: rank_def stall_def)
  next
    case False
    from retry_cases[OF d False f(3,4) step(5)] show ?thesis
    proof
      assume r: "y = d \<and> ftsResponseReady d"
      then obtain g u g' where "processResponse_segment d g = Inr (x', u, g')" using assms(6) by (auto simp: resp_step_def)
      from response_next[OF this] r have n: "phase (state x') < phase (state d)" "conn x' = None" "poll_events x' = 0" "retry_count x' = 0" "\<not> waiting (state x')"
        by auto
      have "rank guc x' < rank guc x" using n f d xs by (intro rank_phase_less) (auto simp: seg_ok_def)
      then show ?thesis using n by (simp add: live_def events_ok_def)
    next
      assume r: "waiting (state y) \<and> conn y = None \<and> poll_events y = 0 \<and> retry_count y = retry_count d + 1 \<and> phase (state y) = phase (state d)"
      then have "x' = y" "state y \<noteq> FTS_RESPONSE_PROCESSED"
        using assms(6) not_waiting[of "state y"] by (auto simp: resp_step_def ftsResponseReady_def waiting_def)
      then show ?thesis using r f xs by (auto simp: rank_def live_def events_ok_def)
    qed
  qed
qed

lemma processed_step:
  assumes "head_ok guc x" "live x" "state x = FTS_RESPONSE_PROCESSED" "seg_pass guc renv i x y" "resp_step y x'"
  shows "live x' \<and> state x' = FTS_RESPONSE_PROCESSED"
proof -
  have x: "conn x = None" "poll_events x = 0" "\<not> messaging (state x)" using head_idle[OF assms(1)] assms(3) by auto
  then obtain d where "y = x\<lparr>fd_index := d\<rparr>" using idle_pass[OF assms(4) x(3,1,2)] assms(3) by (auto simp: processRetry_segment_def)
  then show ?thesis using assms(2,3,5) by (auto simp: resp_step_def ftsResponseReady_def state_defs live_def idle_ok_def polled_def)
qed


text \<open>A segment that takes every pass of an unending cycle is done at some time.\<close>

lemma stall_persists:
  assumes "\<forall>n\<ge>N. stall guc (envs n) (X n) (X (Suc n))" "n \<ge> N"
  shows "(waiting (state (X N)) \<longrightarrow> waiting (state (X n)) \<and> retryStartTime (X n) = retryStartTime (X N)) \<and>
    (messaging (state (X N)) \<longrightarrow> messaging (state (X n)) \<and> startTime (X n) = startTime (X N))"
  using assms(2)
proof (induction n rule: dec_induct)
  case (step n)
  then have "stall guc (envs n) (X n) (X (Suc n))" using assms(1) by simp
  then show ?case using step.IH failed_not(2) unfolding stall_def by metis
qed simp

lemma stall_ends:
  assumes "\<forall>n\<ge>N. stall guc (envs n) (X n) (X (Suc n))" "ticking (\<lambda>n. poll_time (envs n))" "ticking (\<lambda>n. retry_time (envs n))"
    "0 \<le> gp_fts_probe_timeout guc" "gp_fts_probe_timeout guc < 2 ^ 30"
  shows False
proof -
  have N: "stall guc (envs N) (X N) (X (Suc N))" using assms(1) by simp
  then consider "waiting (state (X N))" | "messaging (state (X N))" unfolding stall_def by blast
  then show False
  proof cases
    case 1
    obtain n where n: "n \<ge> N" "0 < int_cast (retry_time (envs n) - retryStartTime (X N))"
      using ticking_timeout[OF assms(3), of 0 N "retryStartTime (X N)"] by auto
    then have "waiting (state (X n))" "retryStartTime (X n) = retryStartTime (X N)" using stall_persists[OF assms(1) n(1)] 1 by auto
    moreover have "stall guc (envs n) (X n) (X (Suc n))" using assms(1) n(1) by simp
    ultimately show False using n(2) failed_not(2)[of "state (X n)"] by (auto simp: stall_def)
  next
    case 2
    obtain n where n: "n \<ge> N" "gp_fts_probe_timeout guc < int_cast (poll_time (envs n) - startTime (X N))"
      using ticking_timeout[OF assms(2) _ assms(5), of N "startTime (X N)"] assms(4) by auto
    then have "messaging (state (X n))" "startTime (X n) = startTime (X N)" using stall_persists[OF assms(1) n(1)] 2 by auto
    moreover have "stall guc (envs n) (X n) (X (Suc n))" using assms(1) n(1) by simp
    ultimately show False using n(2) failed_not(2)[of "state (X n)"] by (auto simp: stall_def)
  qed
qed

definition steps :: "fts_guc \<Rightarrow> (nat \<Rightarrow> round_env) \<Rightarrow> nat \<Rightarrow> (nat \<Rightarrow> fts_segment_info) \<Rightarrow> bool" where
  "steps guc envs i X \<longleftrightarrow> live (X 0) \<and> (\<forall>n. head_ok guc (X n) \<and> (\<exists>y. seg_pass guc (envs n) i (X n) y \<and> resp_step y (X (Suc n))))"

lemma segment_step:
  assumes "steps guc envs i X" "\<forall>n. libpq_ok (envs n)" "live (X n)"
  shows "live (X (Suc n)) \<and> (state (X n) = FTS_RESPONSE_PROCESSED \<and> state (X (Suc n)) = FTS_RESPONSE_PROCESSED \<or>
    rank guc (X (Suc n)) < rank guc (X n) \<or> rank guc (X (Suc n)) = rank guc (X n) \<and> stall guc (envs n) (X n) (X (Suc n)))"
proof -
  obtain y where y: "head_ok guc (X n)" "seg_pass guc (envs n) i (X n) y" "resp_step y (X (Suc n))"
    using assms(1) unfolding steps_def by blast
  then consider "state (X n) = FTS_RESPONSE_PROCESSED" | "waiting (state (X n))" | "messaging (state (X n))" unfolding head_ok_def by blast
  then show ?thesis
    using processed_step[OF y(1) assms(3) _ y(2,3)] waiting_step[OF y(1) assms(3) _ y(2,3)]
      message_step[OF y(1) assms(3) _ _ y(2,3)] assms(2) by cases auto
qed

lemma segment_done:
  assumes "steps guc envs i X" "\<forall>n. libpq_ok (envs n)" "ticking (\<lambda>n. poll_time (envs n))" "ticking (\<lambda>n. retry_time (envs n))"
    "0 \<le> gp_fts_probe_timeout guc" "gp_fts_probe_timeout guc < 2 ^ 30"
  shows "\<exists>N. \<forall>n\<ge>N. state (X n) = FTS_RESPONSE_PROCESSED"
proof (cases "\<exists>N. state (X N) = FTS_RESPONSE_PROCESSED")
  case True
  have live: "live (X n)" for n by (induction n) (use assms(1) segment_step[OF assms(1,2)] in \<open>auto simp: steps_def\<close>)
  obtain N where N: "state (X N) = FTS_RESPONSE_PROCESSED" using True by blast
  have "state (X n) = FTS_RESPONSE_PROCESSED" if "n \<ge> N" for n
    using that
  proof (induction n rule: dec_induct)
    case (step n)
    obtain y where "head_ok guc (X n)" "seg_pass guc (envs n) i (X n) y" "resp_step y (X (Suc n))"
      using assms(1) unfolding steps_def by blast
    then show ?case using processed_step[OF _ live step.IH] by blast
  qed (rule N)
  then show ?thesis by blast
next
  case False
  have live: "live (X n)" for n by (induction n) (use assms(1) segment_step[OF assms(1,2)] in \<open>auto simp: steps_def\<close>)
  have pos: "0 \<le> rank guc (X n)" for n
  proof -
    have "0 \<le> retry_count (X n)" "retry_count (X n) \<le> gp_fts_probe_retries guc" using assms(1) unfolding steps_def head_ok_def seg_ok_def by blast+
    then show ?thesis by (simp add: rank_def phase_def)
  qed
  define N where "N = (ARG_MIN (\<lambda>n. nat (rank guc (X n))) n. True)"
  have min: "rank guc (X N) \<le> rank guc (X n)" for n
    using arg_min_nat_le[of "\<lambda>_. True" n "\<lambda>n. nat (rank guc (X n))"] pos[of n] pos[of N] by (simp add: N_def)
  have "rank guc (X n) = rank guc (X N) \<and> stall guc (envs n) (X n) (X (Suc n))" if "n \<ge> N" for n
    using that
  proof (induction n rule: dec_induct)
    case base
    then show ?case using segment_step[OF assms(1,2) live, of N] False min[of "Suc N"] by auto
  next
    case (step n)
    then show ?case using segment_step[OF assms(1,2) live, of n] segment_step[OF assms(1,2) live, of "Suc n"] False min[of "Suc n"] min[of "Suc (Suc n)"] by auto
  qed
  then show ?thesis using stall_ends[OF _ assms(3-6), of N X] by blast
qed

lemma fts_loop_diverges:
  assumes "fts_loop guc envs 0 st = None"
  shows "\<exists>S. S 0 = st \<and> (\<forall>n. \<not> allDone (fst (S n)) \<and> active (envs n) \<and> fts_round guc (envs n) (S n) = Inr (S (Suc n)))"
proof -
  define S where "S = rec_nat st (\<lambda>n s. projr (fts_round guc (envs n) s))"
  have S: "S 0 = st" "S (Suc n) = projr (fts_round guc (envs n) (S n))" for n by (simp_all add: S_def)
  have step: "\<not> allDone (fst s) \<and> active (envs n) \<and> (\<exists>s'. fts_round guc (envs n) s = Inr s' \<and> fts_loop guc envs (Suc n) s' = None)"
    if "fts_loop guc envs n s = None" for n s
    using that by (subst (asm) fts_loop.simps) (auto split: if_splits sum.splits)
  have loop: "fts_loop guc envs n (S n) = None" for n
  proof (induction n)
    case (Suc n)
    then show ?case using step[OF Suc] S(2)[of n] by auto
  qed (simp add: S(1) assms)
  show ?thesis using S step[OF loop] by (intro exI[of _ S]) (auto, metis sum.sel(2))
qed


text \<open>With a connection library that behaves as documented no pass raises an error.\<close>

lemma fail_no_env: "fail_segment x = Inl e \<Longrightarrow> \<not> env_error e"
  by (cases "state x") (auto simp: fail_segment_def env_error_def)

lemma connect_env: "ftsConnect_segment env x = Inl e \<Longrightarrow> env_error e \<Longrightarrow> PQconnectStart env = None \<or> (\<exists>c. PQconnectPoll env = (PGRES_POLLING_ACTIVE, c))"
  by (auto simp: ftsConnect_segment_def ftsConnectStart_def connect_poll_def Let_def result_bind_Inl_iff dest: fail_no_env
      split: if_splits option.splits prod.splits PostgresPollingStatusType.splits)

lemma poll_env: "poll_response guc now ev x = Inl e \<Longrightarrow> \<not> env_error e"
  by (auto simp: poll_response_def ftsCheckTimeout_def Let_def result_bind_Inl_iff dest: fail_no_env split: if_splits)

lemma ftsPoll_env:
  assumes "ftsPoll guc renv xs = Inl e" "env_error e"
  shows "poll_failed renv"
proof (rule ccontr)
  assume np: "\<not> poll_failed renv"
  obtain zs fds where z: "poll_setup 0 xs [] = (zs, fds)" by fastforce
  have "foreach_segment (\<lambda>i info. if polled info
      then poll_response guc (poll_time renv) (revents (seg renv (fds ! nat (fd_index info)))) info else Inr info) zs = Inl e"
    using assms(1) np z by (simp add: ftsPoll_def split: if_splits)
  from foreach_segment_Inl[OF this] show False using poll_env assms(2) by (auto split: if_splits)
qed

lemma send_env: "ftsSend_segment env x = Inl e \<Longrightarrow> \<not> env_error e"
  by (auto simp: ftsSend_segment_def Let_def dest: fail_no_env split: if_splits prod.splits)

lemma receive_env: "ftsReceive_segment env x = Inl e \<Longrightarrow> \<not> env_error e"
proof -
  have "\<not> env_error e" if "nextSuccessState s = Inl e" for s using that by (cases s) (auto simp: env_error_def)
  then show "ftsReceive_segment env x = Inl e \<Longrightarrow> \<not> env_error e"
    by (auto simp: ftsReceive_segment_def Let_def result_bind_Inl_iff dest: fail_no_env split: if_splits prod.splits option.splits)
qed

lemma foreach_no_error: "(\<And>i x. f i x \<noteq> Inl e) \<Longrightarrow> foreach_segment f xs \<noteq> Inl e"
  using foreach_segment_Inl by blast

lemma libpq_no_error:
  assumes "libpq_ok renv" "fts_messages guc renv infos = Inl e"
  shows "\<not> env_error e"
proof
  assume e: "env_error e"
  have "PQconnectStart (seg renv i) \<noteq> None" "PQconnectPoll (seg renv i) \<noteq> (PGRES_POLLING_ACTIVE, c)" for i c
    using assms(1)[unfolded libpq_ok_def, THEN conjunct2, rule_format, of i] by (auto split: option.splits)
  then have c: "ftsConnect_segment (seg renv i) x \<noteq> Inl e" for i x using connect_env e by blast
  have "ftsConnect renv xs \<noteq> Inl e" for xs unfolding ftsConnect_def using c by (intro foreach_no_error)
  moreover have "ftsPoll guc renv xs \<noteq> Inl e" for xs using ftsPoll_env e assms(1) by (auto simp: libpq_ok_def)
  moreover have "ftsSend renv xs \<noteq> Inl e" for xs unfolding ftsSend_def using send_env e by (intro foreach_no_error) blast
  moreover have "ftsReceive renv xs \<noteq> Inl e" for xs unfolding ftsReceive_def using receive_env e by (intro foreach_no_error) blast
  moreover have "processRetry guc renv xs \<noteq> Inl e" for xs unfolding processRetry_def by (intro foreach_no_error) simp
  ultimately show False using assms(2) by (simp add: fts_messages_def result_bind_Inl_iff)
qed

lemma round_no_error:
  assumes "loop_inv guc prs g0 True st" "truthful renv" "distinct (pair_dbids prs)" "act \<longrightarrow> (\<forall>i. active_response renv i)" "libpq_ok renv"
  shows "\<exists>st'. fts_round guc renv st = Inr st' \<and> loop_inv guc prs g0 act st'"
proof (cases "fts_round guc renv st")
  case (Inl e)
  then have "env_error e" using fts_round_inv[OF assms(1-4)] by simp
  obtain infos u g where st: "st = (infos, u, g)" by (cases st)
  show ?thesis
  proof (cases "fts_messages guc renv infos")
    case Inl2: (Inl e')
    then show ?thesis using Inl st libpq_no_error[OF assms(5) Inl2] \<open>env_error e\<close> by (simp add: fts_round_def)
  next
    case (Inr infos')
    have "\<not> env_error e'" if "processResponse act i xs u g = Inl e'" for act i xs u g e'
      using that
    proof (induction xs arbitrary: i u g)
      case (Cons x xs)
      have "\<not> env_error e'" if "processResponse_segment x g = Inl e'" for g
        using that by (cases "state x") (auto simp: processResponse_segment_def Let_def result_bind_Inl_iff env_error_def
            updateConfiguration_def probeWalRepUpdateConfig_def split: if_splits prod.splits option.splits)
      then show ?case using Cons by (auto simp: result_bind_Inl_iff split: if_splits)
    qed simp
    then show ?thesis using Inl st Inr \<open>env_error e\<close> by (simp add: fts_round_def)
  qed
next
  case (Inr st')
  then show ?thesis using fts_round_inv[OF assms(1-4)] by simp
qed


lemma new_segment_live: "live (new_segment p m)"
  by (simp add: live_def new_segment_def events_ok_def)

lemma round_steps:
  assumes "fts_round guc renv (infos, u, g) = Inr (infos', u', g')" "\<forall>i. active_response renv i" "i < length infos"
  shows "\<exists>y. seg_pass guc renv i (infos ! i) y \<and> resp_step y (infos' ! i)"
proof -
  obtain ys where ys: "fts_messages guc renv infos = Inr ys" "processResponse (active_response renv) 0 ys u g = Inr (infos', u', g')"
    using assms(1) by (auto simp: fts_round_def result_bind_Inr_iff)
  then show ?thesis using fts_messages_Inr[OF ys(1)] processResponse_steps[OF ys(2) assms(2)] assms(3) by (auto simp: list_all2_conv_all_nth)
qed

definition well_behaved :: "fts_guc \<Rightarrow> (nat \<Rightarrow> round_env) \<Rightarrow> bool" where
  "well_behaved guc envs \<longleftrightarrow> (\<forall>k. truthful (envs k)) \<and> shutdown_final envs \<and> (\<forall>k. libpq_ok (envs k)) \<and>
     ticking (\<lambda>n. poll_time (envs n)) \<and> ticking (\<lambda>n. retry_time (envs n)) \<and>
     0 \<le> gp_fts_probe_retries guc \<and> 0 \<le> gp_fts_probe_timeout guc \<and> gp_fts_probe_timeout guc < 2 ^ 30"

lemma loop_inv_D: "loop_inv guc prs g0 True st \<Longrightarrow> length (fst st) = length prs \<and> list_all (head_ok guc) (fst st)"
  by (cases st) (auto simp: loop_inv_def dest: list_all2_lengthD)

lemma fts_loop_returns:
  assumes "well_behaved guc envs" "distinct (pair_dbids prs)" "loop_inv guc prs g0 True st" "list_all live (fst st)"
  shows "fts_loop guc envs 0 st \<noteq> None"
proof
  assume "fts_loop guc envs 0 st = None"
  then obtain S where S: "S 0 = st" and run: "\<And>n. \<not> allDone (fst (S n)) \<and> active (envs n) \<and> fts_round guc (envs n) (S n) = Inr (S (Suc n))"
    using fts_loop_diverges by metis
  have env: "\<And>k. truthful (envs k)" "\<forall>k. libpq_ok (envs k)" "\<And>k. \<forall>i. active_response (envs k) i"
    using assms(1) run unfolding well_behaved_def shutdown_final_def by blast+
  have inv: "loop_inv guc prs g0 True (S n)" for n
  proof (induction n)
    case (Suc n)
    then show ?case using fts_round_inv[OF Suc env(1) assms(2), of True n] env(3) run[of n] by auto
  qed (simp add: S assms(3))
  note D = loop_inv_D[OF inv]
  then have len: "length (fst (S n)) = length prs" for n by blast
  have fin: "\<exists>N. \<forall>n\<ge>N. state (fst (S n) ! i) = FTS_RESPONSE_PROCESSED" if i: "i < length prs" for i
  proof -
    have "head_ok guc (fst (S n) ! i)" for n
      using D[of n] i by (simp add: list_all_length)
    moreover have "\<exists>y. seg_pass guc (envs n) i (fst (S n) ! i) y \<and> resp_step y (fst (S (Suc n)) ! i)" for n
      using round_steps[of guc "envs n" "fst (S n)" _ _ "fst (S (Suc n))" _ _ i] run[of n] env(3) len[of n] i
      by (metis prod.collapse)
    moreover have "live (fst (S 0) ! i)" using assms(4) S i len[of 0] by (simp add: list_all_length)
    ultimately have "steps guc envs i (\<lambda>n. fst (S n) ! i)" by (simp add: steps_def)
    then show ?thesis using segment_done assms(1) env(2) unfolding well_behaved_def by blast
  qed
  then obtain N where N: "\<And>i n. i < length prs \<Longrightarrow> n \<ge> N i \<Longrightarrow> state (fst (S n) ! i) = FTS_RESPONSE_PROCESSED" by metis
  define M where "M = Max (insert 0 (N ` {..<length prs}))"
  have "N i \<le> M" if "i < length prs" for i unfolding M_def using that by (intro Max_ge) auto
  then have "allDone (fst (S M))" using N len by (auto simp: allDone_def list_all_length)
  then show False using run by blast
qed

lemma cycle_returns:
  assumes "cluster_ok cdbs g" "well_behaved guc envs"
  shows "\<exists>u g'. FtsWalRepMessageSegments guc envs cdbs g = Some (Inr (u, g'))"
proof -
  let ?prs = "probe_pairs cdbs cdbs" and ?st = "(FtsWalRepInitProbeContext cdbs, False, g)"
  have env: "\<forall>k. truthful (envs k)" "shutdown_final envs" "\<forall>k. libpq_ok (envs k)" "0 \<le> gp_fts_probe_retries guc"
    using assms(2) by (simp_all add: well_behaved_def)
  have dist: "distinct (pair_dbids ?prs)"
    using probe_pairs_distinct[OF assms(1), of cdbs] assms(1) by (simp add: cluster_ok_def distinct_map)
  have "list_all live (FtsWalRepInitProbeContext cdbs)" using new_segment_live by (auto simp: init_probe_pairs list_all_iff)
  then obtain r where r: "fts_loop guc envs 0 ?st = Some r"
    using fts_loop_returns[OF assms(2) dist init_loop_inv[OF assms(1) env(4)]] by auto
  have "isl r = False"
  proof (rule fts_loop_invariant[OF r, where Inv = "\<lambda>k. loop_inv guc ?prs g (active (envs k))"])
    fix k st assume "loop_inv guc ?prs g (active (envs k)) st" "active (envs k)"
    then have inv: "loop_inv guc ?prs g True st" by simp
    have act: "active (envs (Suc k)) \<longrightarrow> (\<forall>i. active_response (envs k) i)" using env(2) by (simp add: shutdown_final_def)
    show "case fts_round guc (envs k) st of Inl e \<Rightarrow> isl (Inl e) = False | Inr st' \<Rightarrow> loop_inv guc ?prs g (active (envs (Suc k))) st'"
      using round_no_error[OF inv _ dist act] env(1,3) by fastforce
  qed (simp_all add: init_loop_inv[OF assms(1) env(4)])
  then obtain infos u g' where "r = Inr (infos, u, g')" by (cases r) auto
  then show ?thesis using r by (simp add: FtsWalRepMessageSegments_def)
qed

end
