(* ===== verification/Fts_Catalog.thy ===== *)
theory Fts_Catalog
  imports Fts_Progress
begin

text \<open>
  What a probe cycle writes to the catalog and to the shared status array, in any environment: the rows keep
  their identifiers, the values written are those of the catalog's columns, the history only grows, and the
  result tells whether anything was written.
\<close>

subsection \<open>Typed writes\<close>

definition typed :: "char \<Rightarrow> char \<Rightarrow> char \<Rightarrow> bool" where
  "typed r s m \<longleftrightarrow> r \<in> {GP_SEGMENT_CONFIGURATION_ROLE_PRIMARY, GP_SEGMENT_CONFIGURATION_ROLE_MIRROR} \<and>
     s \<in> {GP_SEGMENT_CONFIGURATION_STATUS_UP, GP_SEGMENT_CONFIGURATION_STATUS_DOWN} \<and>
     m \<in> {GP_SEGMENT_CONFIGURATION_MODE_INSYNC, GP_SEGMENT_CONFIGURATION_MODE_NOTINSYNC}"

definition typed_row :: "CdbComponentDatabaseInfo \<Rightarrow> bool" where
  "typed_row t \<longleftrightarrow> typed (role t) (status t) (mode t)"

text \<open>The row of a segment before and after writes.\<close>

fun row_kept :: "CdbComponentDatabaseInfo option \<Rightarrow> CdbComponentDatabaseInfo option \<Rightarrow> bool" where
  "row_kept None None = True"
| "row_kept (Some t) (Some t') = (dbid t' = dbid t \<and> segindex t' = segindex t \<and> (t' = t \<or> typed_row t'))"
| "row_kept _ _ = False"

definition writes :: "int set \<Rightarrow> fts_global \<Rightarrow> fts_global \<Rightarrow> bool" where
  "writes D g g' \<longleftrightarrow> (\<forall>d. d \<notin> D \<longrightarrow> config g' d = config g d \<and> fts_status g' d = fts_status g d) \<and>
     (\<forall>d. row_kept (config g d) (config g' d)) \<and>
     (\<exists>es. history g' = history g @ es \<and> list_all (\<lambda>(db, content, r, s, m). db \<in> D \<and> typed r s m) es)"

lemma row_kept_refl [simp]: "row_kept x x"
  by (cases x) simp_all

lemma row_kept_trans: "row_kept x y \<Longrightarrow> row_kept y z \<Longrightarrow> row_kept x z"
  by (cases x; cases y; cases z) auto

lemma writes_refl [simp]: "writes D g g"
  by (simp add: writes_def)

lemma writes_trans: "writes D a b \<Longrightarrow> writes D b c \<Longrightarrow> writes D a c"
  unfolding writes_def using row_kept_trans by (fastforce simp: list_all_append)

definition changes :: "bool \<Rightarrow> fts_global \<Rightarrow> fts_global \<Rightarrow> bool" where
  "changes u g g' \<longleftrightarrow> (if u then length (history g) < length (history g') else g' = g)"

lemma changes_trans: "changes u a b \<Longrightarrow> changes v b c \<Longrightarrow> changes (u \<or> v) a c"
  by (auto simp: changes_def split: if_splits)

lemma update_row_writes:
  assumes "probeWalRepUpdateConfig d c r alive sync g = Inr g'" "d \<in> D"
    "r \<in> {GP_SEGMENT_CONFIGURATION_ROLE_PRIMARY, GP_SEGMENT_CONFIGURATION_ROLE_MIRROR}"
  shows "writes D g g' \<and> length (history g) < length (history g')"
  using assms by (auto simp: probeWalRepUpdateConfig_def writes_def typed_row_def typed_def status_char_def mode_char_def Let_def
      split: option.splits)

lemma set_status_writes: "d \<in> D \<Longrightarrow> writes D g (set_status d alive g)"
  by (auto simp: set_status_def writes_def)

lemma update_writes:
  assumes "updateConfiguration p m pr mr sync pa ma g = Inr (u, g')" "dbid p \<in> D" "dbid m \<in> D"
    "pr \<in> {GP_SEGMENT_CONFIGURATION_ROLE_PRIMARY, GP_SEGMENT_CONFIGURATION_ROLE_MIRROR}"
    "mr \<in> {GP_SEGMENT_CONFIGURATION_ROLE_PRIMARY, GP_SEGMENT_CONFIGURATION_ROLE_MIRROR}"
  shows "writes D g g' \<and> changes u g g'"
proof -
  define pu mu where "pu \<longleftrightarrow> sync \<noteq> SEGMENT_IS_IN_SYNC p \<or> pa \<noteq> SEGMENT_IS_ALIVE p"
    and "mu \<longleftrightarrow> sync \<noteq> SEGMENT_IS_IN_SYNC p \<or> ma \<noteq> SEGMENT_IS_ALIVE m"
  define f1 f2 where "f1 = (if pu then probeWalRepUpdateConfig (dbid p) (segindex p) pr pa sync g else Inr g)"
    and "f2 = (\<lambda>a. if mu then probeWalRepUpdateConfig (dbid m) (segindex m) mr ma sync a else Inr a)"
  have "(if pu \<or> mu
    then result_bind f1 (\<lambda>a. result_bind (f2 a) (\<lambda>b. Inr (True, set_status (dbid m) ma (set_status (dbid p) pa b))))
    else Inr (False, g)) = Inr (u, g')"
    using assms(1) unfolding updateConfiguration_def Let_def pu_def mu_def f1_def f2_def .
  then consider "\<not> u" "g' = g" | a b where "u" "pu \<or> mu" "f1 = Inr a" "f2 a = Inr b"
    "g' = set_status (dbid m) ma (set_status (dbid p) pa b)"
    by (cases "pu \<or> mu") (auto simp: result_bind_Inr_iff)
  then show ?thesis
  proof cases
    case 1
    then show ?thesis by (simp add: changes_def)
  next
    case (2 a b)
    have "writes D g a \<and> (if pu then length (history g) < length (history a) else a = g)"
      using update_row_writes[OF _ assms(2,4)] 2(3) by (auto simp: f1_def split: if_splits)
    moreover have "writes D a b \<and> (if mu then length (history a) < length (history b) else b = a)"
      using update_row_writes[OF _ assms(3,5)] 2(4) by (auto simp: f2_def split: if_splits)
    moreover have "writes D b g'"
      unfolding 2(5) using set_status_writes[OF assms(2)] set_status_writes[OF assms(3)] by (rule writes_trans)
    moreover have "history g' = history b" by (simp add: 2(5) set_status_def)
    ultimately have w: "writes D g a" "writes D a b" "writes D b g'" "length (history g) < length (history g')"
      using 2(2) by (auto split: if_splits)
    then show ?thesis using 2(1) writes_trans by (auto simp: changes_def)
  qed
qed

definition within :: "int set \<Rightarrow> fts_segment_info \<Rightarrow> bool" where
  "within D info \<longleftrightarrow> dbid (primary_cdbinfo info) \<in> D \<and> dbid (mirror_cdbinfo info) \<in> D"

lemma response_writes:
  assumes "processResponse_segment info g = Inr (info', u, g')" "within D info"
  shows "writes D g g' \<and> changes u g g' \<and> within D info'"
proof -
  have up: "writes D g h \<and> changes v g h" if "updateConfiguration (primary_cdbinfo info) (mirror_cdbinfo info) pr mr sy pa ma g = Inr (v, h)"
    "pr \<in> {GP_SEGMENT_CONFIGURATION_ROLE_PRIMARY, GP_SEGMENT_CONFIGURATION_ROLE_MIRROR}"
    "mr \<in> {GP_SEGMENT_CONFIGURATION_ROLE_PRIMARY, GP_SEGMENT_CONFIGURATION_ROLE_MIRROR}" for pr mr sy pa ma v h
    using update_writes[OF that(1) _ _ that(2,3), of D] assms(2) by (simp add: within_def)
  show ?thesis using assms
    by (cases "state info")
      (auto simp: processResponse_segment_def Let_def result_bind_Inr_iff within_def reset_segment_def changes_def
        dest!: up split: if_splits)
qed

lemma responses_write:
  "processResponse act i infos u g = Inr (infos', u', g') \<Longrightarrow> list_all (within D) infos \<Longrightarrow>
     writes D g g' \<and> (\<exists>v. u' = (u \<or> v) \<and> changes v g g') \<and> list_all (within D) infos'"
proof (induction infos arbitrary: i u g infos')
  case Nil
  then show ?case by (auto simp: changes_def)
next
  case (Cons info infos)
  show ?case
  proof (cases "act i \<and> ftsResponseReady info")
    case False
    then show ?thesis using Cons.prems Cons.IH[of "Suc i" u g]
      by (fastforce simp: changes_def result_bind_Inr_iff split: if_splits)
  next
    case True
    then obtain x v h ys where h: "processResponse_segment info g = Inr (x, v, h)"
      "processResponse act (Suc i) infos (u \<or> v) h = Inr (ys, u', g')" "infos' = x # ys"
      using Cons.prems(1) by (auto simp: result_bind_Inr_iff)
    have 1: "writes D g h" "changes v g h" "within D x" using response_writes[OF h(1), of D] Cons.prems(2) by simp_all
    obtain w where 2: "writes D h g'" "u' = (u \<or> v \<or> w)" "changes w h g'" "list_all (within D) ys"
      using Cons.IH[OF h(2)] Cons.prems(2) by auto
    then show ?thesis using 1 h(3) writes_trans changes_trans[OF 1(2) 2(3)] by auto
  qed
qed

lemma messages_within:
  assumes "fts_messages guc renv infos = Inr infos'" "list_all (within D) infos"
  shows "list_all (within D) infos'"
  using fts_messages_Inr[OF assms(1)] assms(2) seg_pass_frame unfolding list_all_length within_def frame_def by metis

lemma loop_writes:
  assumes "fts_loop guc envs 0 (infos, False, g) = Some (Inr (infos', u, g'))" "list_all (within D) infos"
  shows "writes D g g' \<and> changes u g g'"
proof -
  let ?I = "\<lambda>(infos, u, h). list_all (within D) infos \<and> writes D g h \<and> changes u g h"
  have "case (Inr (infos', u, g') :: fts_error + fts_state) of Inl e \<Rightarrow> True | Inr st \<Rightarrow> ?I st"
  proof (rule fts_loop_invariant[OF assms(1), where Inv = "\<lambda>_. ?I" and Q = "\<lambda>r. case r of Inl e \<Rightarrow> True | Inr st \<Rightarrow> ?I st"])
    fix k st assume "?I st"
    then obtain xs v h where st: "st = (xs, v, h)" "list_all (within D) xs" "writes D g h" "changes v g h" by (cases st) auto
    show "case fts_round guc (envs k) st of Inl e \<Rightarrow> (case (Inl e :: fts_error + fts_state) of Inl e \<Rightarrow> True | Inr st \<Rightarrow> ?I st) | Inr st' \<Rightarrow> ?I st'"
    proof (cases "fts_round guc (envs k) st")
      case (Inr st')
      obtain ys w h' where st': "st' = (ys, w, h')" by (cases st')
      obtain zs where z: "fts_messages guc (envs k) xs = Inr zs" "processResponse (active_response (envs k)) 0 zs v h = Inr (ys, w, h')"
        using Inr st(1) st' by (auto simp: fts_round_def result_bind_Inr_iff)
      from responses_write[OF z(2) messages_within[OF z(1) st(2)]] obtain v' where
        "writes D h h'" "w = (v \<or> v')" "changes v' h h'" "list_all (within D) ys" by blast
      then show ?thesis using Inr st' writes_trans[OF st(3)] changes_trans[OF st(4)] by auto
    qed simp
  qed (use assms(2) in \<open>simp_all add: changes_def\<close>)
  then show ?thesis by simp
qed

lemma cycle_writes:
  assumes "FtsWalRepMessageSegments guc envs cdbs g = Some (Inr (u, g'))"
  shows "writes (dbid ` set cdbs) g g' \<and> changes u g g'"
proof -
  obtain infos where l: "fts_loop guc envs 0 (FtsWalRepInitProbeContext cdbs, False, g) = Some (Inr (infos, u, g'))"
    using assms by (auto simp: FtsWalRepMessageSegments_def bind_eq_Some_conv result_bind_Inr_iff)
  have "list_all (within (dbid ` set cdbs)) (FtsWalRepInitProbeContext cdbs)"
    using probe_pairs_peers[of cdbs cdbs] by (fastforce simp: init_probe_pairs list_all_iff within_def new_segment_def peers_def)
  then show ?thesis using loop_writes[OF l] by blast
qed

end
