(* ===== verification/Cdb_Components.thy ===== *)
theory Cdb_Components
  imports Fts_Probe "HOL-Library.Multiset"
begin

text \<open>
  Reading the configuration of the cluster (\<^verbatim>\<open>getCdbComponentInfo\<close> of \<^verbatim>\<open>cdb/cdbutil.c\<close>): the rows of
  \<^verbatim>\<open>gp_segment_configuration\<close> are split into entry and segment databases, sorted, counted per host and
  validated.

  The rows in the order of the scan, the address each row resolves to, the identity of the process and the
  number of segments of \<^verbatim>\<open>gp_id\<close> are the environment.  The sort is a parameter: \<^verbatim>\<open>qsort\<close> may leave rows
  that compare equal in any order, so all that is used of it is \<open>sorts\<close>.  The growing of the arrays, which
  does not change what they hold, is not modelled.
\<close>


subsection \<open>The operation\<close>

datatype component_error =
  CannotResolve int | NoSegmentDatabases | NoEntryDatabases | SegmentCountInconsistent int | IdentityNotFound | InvalidContents

record CdbComponentDatabases =
  total_segments :: int
  segment_db_info :: "CdbComponentDatabaseInfo list"
  entry_db_info :: "CdbComponentDatabaseInfo list"
  segment_hostSegs :: "int list"
  entry_hostSegs :: "int list"

record component_env =
  hostip :: "CdbComponentDatabaseInfo \<Rightarrow> string option"
  identity_dbid :: int
  identity_segment :: int
  gpsegmentCount :: int

type_synonym sorter = "(CdbComponentDatabaseInfo \<Rightarrow> CdbComponentDatabaseInfo \<Rightarrow> int) \<Rightarrow> CdbComponentDatabaseInfo list \<Rightarrow> CdbComponentDatabaseInfo list"

definition CdbComponentDatabaseInfoCompare :: "CdbComponentDatabaseInfo \<Rightarrow> CdbComponentDatabaseInfo \<Rightarrow> int" where
  "CdbComponentDatabaseInfoCompare obj1 obj2 =
     (let cmp = segindex obj1 - segindex obj2
      in if cmp = 0
         then (if SEGMENT_IS_ACTIVE_PRIMARY obj2 then 1 else 0) - (if SEGMENT_IS_ACTIVE_PRIMARY obj1 then 1 else 0)
         else cmp)"

text \<open>
  The loop over the rows: the segment databases and the entry databases so far, and the number of primaries
  of each host.
\<close>

fun read_rows :: "component_env \<Rightarrow> CdbComponentDatabaseInfo list \<Rightarrow>
    CdbComponentDatabaseInfo list \<times> CdbComponentDatabaseInfo list \<times> (string \<rightharpoonup> int) \<Rightarrow>
    component_error + CdbComponentDatabaseInfo list \<times> CdbComponentDatabaseInfo list \<times> (string \<rightharpoonup> int)" where
  "read_rows env [] acc = Inr acc"
| "read_rows env (row # rows) (segs, entries, hosts) =
     (let (segs, entries) = (if segindex row \<ge> 0 then (segs @ [row], entries) else (segs, entries @ [row]))
      in case hostip env row of
           None \<Rightarrow> Inl (CannotResolve (dbid row))
         | Some ip \<Rightarrow>
             if role row \<noteq> GP_SEGMENT_CONFIGURATION_ROLE_PRIMARY then read_rows env rows (segs, entries, hosts)
             else read_rows env rows (segs, entries, hosts(ip \<mapsto> (case hosts ip of None \<Rightarrow> 1 | Some n \<Rightarrow> n + 1))))"

definition count_segments :: "CdbComponentDatabaseInfo list \<Rightarrow> int" where
  "count_segments segs = for_range 0 (length segs)
     (\<lambda>i n. if i = 0 \<or> segindex (segs ! i) \<noteq> segindex (segs ! (i - 1)) then n + 1 else n) 0"

definition find_identity :: "component_env \<Rightarrow> CdbComponentDatabaseInfo list \<Rightarrow> bool" where
  "find_identity env entries \<longleftrightarrow> for_return 0 (length entries)
     (\<lambda>i. if dbid (entries ! i) = identity_dbid env \<and> segindex (entries ! i) = identity_segment env then Some () else None) \<noteq> None"

text \<open>The inner loop, on the rows from position \<^verbatim>\<open>x\<close> on; \<^verbatim>\<open>this_segindex\<close> is the last one looked at.\<close>

fun skip_contents :: "int \<Rightarrow> CdbComponentDatabaseInfo list \<Rightarrow> int \<Rightarrow> component_error + CdbComponentDatabaseInfo list \<times> int" where
  "skip_contents i [] this_segindex = Inr ([], this_segindex)"
| "skip_contents i (s # ss) this_segindex =
     (if segindex s < i then skip_contents i ss (segindex s)
      else if segindex s = i then Inr (s # ss, segindex s)
      else Inl InvalidContents)"

fun check_contents :: "int list \<Rightarrow> CdbComponentDatabaseInfo list \<Rightarrow> component_error + unit" where
  "check_contents [] ss = Inr ()"
| "check_contents (i # is) ss = result_bind (skip_contents i ss (- 1)) (\<lambda>(ss, this_segindex).
     if this_segindex \<noteq> i then Inl InvalidContents else check_contents is ss)"

definition host_counts :: "component_env \<Rightarrow> (string \<rightharpoonup> int) \<Rightarrow> CdbComponentDatabaseInfo list \<Rightarrow> int list" where
  "host_counts env hosts rows = map (\<lambda>row.
     if role row \<noteq> GP_SEGMENT_CONFIGURATION_ROLE_PRIMARY then 0
     else (case hostip env row of None \<Rightarrow> 0 | Some ip \<Rightarrow> (case hosts ip of None \<Rightarrow> 0 | Some n \<Rightarrow> n))) rows"

definition getCdbComponentInfo :: "sorter \<Rightarrow> component_env \<Rightarrow> CdbComponentDatabaseInfo list \<Rightarrow> component_error + CdbComponentDatabases" where
  "getCdbComponentInfo qsort env rows =
     result_bind (read_rows env rows ([], [], Map.empty)) (\<lambda>(segs, entries, hosts).
     if segs = [] then Inl NoSegmentDatabases
     else if entries = [] then Inl NoEntryDatabases
     else (let segs = qsort CdbComponentDatabaseInfoCompare segs;
               entries = qsort CdbComponentDatabaseInfoCompare entries;
               n = count_segments segs
           in if gpsegmentCount env \<noteq> n then Inl (SegmentCountInconsistent n)
              else if \<not> find_identity env entries then Inl IdentityNotFound
              else result_bind (check_contents [0 .. gpsegmentCount env - 1] segs) (\<lambda>_.
                Inr \<lparr>total_segments = n, segment_db_info = segs, entry_db_info = entries,
                  segment_hostSegs = host_counts env hosts segs, entry_hostSegs = host_counts env hosts entries\<rparr>)))"


subsection \<open>What it accepts\<close>

definition sorts :: "sorter \<Rightarrow> bool" where
  "sorts qsort \<longleftrightarrow> (\<forall>xs. mset (qsort CdbComponentDatabaseInfoCompare xs) = mset xs \<and>
     sorted_wrt (\<lambda>a b. CdbComponentDatabaseInfoCompare a b \<le> 0) (qsort CdbComponentDatabaseInfoCompare xs))"

definition is_segment :: "CdbComponentDatabaseInfo \<Rightarrow> bool" where
  "is_segment row \<longleftrightarrow> segindex row \<ge> 0"

definition primaries_on :: "component_env \<Rightarrow> string option \<Rightarrow> CdbComponentDatabaseInfo list \<Rightarrow> int" where
  "primaries_on env ip rows = int (length (filter (\<lambda>r. SEGMENT_IS_ACTIVE_PRIMARY r \<and> hostip env r = ip) rows))"

lemma read_rows_spec:
  "read_rows env rows (segs, entries, hosts) =
     (case List.find (\<lambda>r. hostip env r = None) rows of
        Some r \<Rightarrow> Inl (CannotResolve (dbid r))
      | None \<Rightarrow> Inr (segs @ filter is_segment rows, entries @ filter (\<lambda>r. \<not> is_segment r) rows,
          \<lambda>ip. if primaries_on env (Some ip) rows = 0 then hosts ip
               else Some ((case hosts ip of None \<Rightarrow> 0 | Some n \<Rightarrow> n) + primaries_on env (Some ip) rows)))"
proof (induction rows arbitrary: segs entries hosts)
  case Nil
  show ?case by (simp add: primaries_on_def)
next
  case (Cons row rows)
  have "primaries_on env ip rows \<ge> 0" for ip by (simp add: primaries_on_def)
  then show ?case using Cons.IH
    by (auto simp: is_segment_def primaries_on_def SEGMENT_IS_ACTIVE_PRIMARY_def fun_eq_iff split: option.splits)
qed

lemma compare_sorted: "sorted_wrt (\<lambda>a b. CdbComponentDatabaseInfoCompare a b \<le> 0) xs \<Longrightarrow> sorted (map segindex xs)"
  by (induction xs) (auto simp: CdbComponentDatabaseInfoCompare_def Let_def split: if_splits)

lemma count_sorted: "sorted (map segindex xs) \<Longrightarrow> count_segments xs = int (card (segindex ` set xs))"
proof (induction xs rule: rev_induct)
  case Nil
  show ?case by (simp add: count_segments_def)
next
  case (snoc x xs)
  have pre: "for_range 0 (length xs) (\<lambda>i n. if i = 0 \<or> segindex ((xs @ [x]) ! i) \<noteq> segindex ((xs @ [x]) ! (i - 1)) then n + 1 else n) 0
      = count_segments xs"
    unfolding count_segments_def for_range_def by (intro fold_cong) (auto simp: nth_append)
  have srt: "sorted (map segindex xs)" "\<forall>y\<in>set xs. segindex y \<le> segindex x" using snoc.prems by (auto simp: sorted_append)
  have "segindex x \<in> segindex ` set xs \<longleftrightarrow> xs \<noteq> [] \<and> segindex x = segindex (last xs)"
  proof
    assume "segindex x \<in> segindex ` set xs"
    then obtain i where i: "i < length xs" "segindex (xs ! i) = segindex x" by (auto simp: in_set_conv_nth)
    then have "xs \<noteq> []" by auto
    then have "segindex (xs ! i) \<le> segindex (last xs)"
      using sorted_nth_mono[OF srt(1), of i "length xs - 1"] i(1) by (simp add: last_conv_nth)
    moreover have "segindex (last xs) \<le> segindex x" using srt(2) i(1) by (cases xs) auto
    ultimately show "xs \<noteq> [] \<and> segindex x = segindex (last xs)" using i by auto
  qed auto
  then show ?case using snoc.IH[OF srt(1)] pre
    by (auto simp: count_segments_def for_range_Suc nth_append last_conv_nth card_insert_if)
qed

lemma skip_contents_spec:
  assumes "sorted (map segindex ss)" "t < i"
  shows "i \<in> segindex ` set ss \<Longrightarrow> skip_contents i ss t = Inr (dropWhile (\<lambda>s. segindex s < i) ss, i)"
    "i \<notin> segindex ` set ss \<Longrightarrow> skip_contents i ss t = Inl InvalidContents \<or> (\<exists>j. skip_contents i ss t = Inr ([], j) \<and> j \<noteq> i)"
  using assms by (induction i ss t rule: skip_contents.induct) auto

lemma dropWhile_contents:
  assumes "sorted (map segindex ss)" "i < k"
  shows "k \<in> segindex ` set (dropWhile (\<lambda>s. segindex s < i) ss) \<longleftrightarrow> k \<in> segindex ` set ss"
    "sorted (map segindex (dropWhile (\<lambda>s. segindex s < i) ss))"
  using assms by (induction ss) (auto simp: sorted_wrt_map)

lemma check_contents_spec:
  assumes "sorted (map segindex ss)" "0 \<le> i"
  shows "check_contents [i .. m] ss = (if {i .. m} \<subseteq> segindex ` set ss then Inr () else Inl InvalidContents)"
  using assms
proof (induction "[i .. m]" arbitrary: i ss)
  case Nil
  then have "m < i" by (metis linorder_not_less list.discI upto_rec1)
  then show ?case using Nil.hyps by simp
next
  case (Cons k ks)
  then have km: "k = i" "ks = [i + 1 .. m]" "i \<le> m"
    by (metis list.discI list.inject upto_empty upto_rec1 linorder_not_less)+
  let ?d = "dropWhile (\<lambda>s. segindex s < i) ss"
  have split: "{i .. m} = insert i {i + 1 .. m}" using km(3) by auto
  have eq: "check_contents [i .. m] ss = result_bind (skip_contents i ss (- 1)) (\<lambda>(ss, this_segindex).
     if this_segindex \<noteq> i then Inl InvalidContents else check_contents [i + 1 .. m] ss)" using km(3) by (simp add: upto_rec1)
  show ?case
  proof (cases "i \<in> segindex ` set ss")
    case True
    have "{i + 1 .. m} \<subseteq> segindex ` set ?d \<longleftrightarrow> {i + 1 .. m} \<subseteq> segindex ` set ss"
      using dropWhile_contents(1)[OF Cons.prems(1)] by (auto simp: subset_iff)
    then show ?thesis using Cons.hyps(1)[OF km(2) dropWhile_contents(2)[OF Cons.prems(1), of i "i + 1"]] Cons.prems True
      unfolding eq split using skip_contents_spec(1)[OF Cons.prems(1) _ True, of "- 1"] by simp
  next
    case False
    then show ?thesis unfolding eq split using skip_contents_spec(2)[OF Cons.prems(1) _ False, of "- 1"] Cons.prems(2) by auto
  qed
qed

text \<open>The conditions of a configuration that is accepted.\<close>

definition valid_rows :: "component_env \<Rightarrow> CdbComponentDatabaseInfo list \<Rightarrow> bool" where
  "valid_rows env rows \<longleftrightarrow> list_all (\<lambda>r. hostip env r \<noteq> None) rows \<and> 0 < gpsegmentCount env \<and>
     segindex ` set (filter is_segment rows) = {0 ..< gpsegmentCount env} \<and>
     list_ex (\<lambda>r. \<not> is_segment r \<and> dbid r = identity_dbid env \<and> segindex r = identity_segment env) rows"

lemma find_identity_iff:
  "find_identity env es \<longleftrightarrow> (\<exists>e\<in>set es. dbid e = identity_dbid env \<and> segindex e = identity_segment env)"
  by (auto simp: find_identity_def for_return_def first_some_None_iff in_set_conv_nth Bex_def)

lemma contents_complete:
  assumes "0 < n" "\<forall>s\<in>S. 0 \<le> segindex s" "finite S"
  shows "int (card (segindex ` S)) = n \<and> {0 .. n - 1} \<subseteq> segindex ` S \<longleftrightarrow> segindex ` S = {0 ..< n}"
proof -
  have eq: "{0 .. n - 1} = {0 ..< n}" by auto
  have "{0 ..< n} = segindex ` S" if "{0 ..< n} \<subseteq> segindex ` S" "int (card (segindex ` S)) = n"
    using that assms by (intro card_subset_eq) auto
  then show ?thesis unfolding eq using assms(1) by auto
qed

definition components :: "sorter \<Rightarrow> component_env \<Rightarrow> CdbComponentDatabaseInfo list \<Rightarrow> CdbComponentDatabases" where
  "components qsort env rows =
     (let segs = qsort CdbComponentDatabaseInfoCompare (filter is_segment rows);
          entries = qsort CdbComponentDatabaseInfoCompare (filter (\<lambda>r. \<not> is_segment r) rows);
          hostSegs = map (\<lambda>r. if SEGMENT_IS_ACTIVE_PRIMARY r then primaries_on env (hostip env r) rows else 0)
      in \<lparr>total_segments = gpsegmentCount env, segment_db_info = segs, entry_db_info = entries,
          segment_hostSegs = hostSegs segs, entry_hostSegs = hostSegs entries\<rparr>)"

lemma sorts_set: "sorts qsort \<Longrightarrow> set (qsort CdbComponentDatabaseInfoCompare xs) = set xs"
  unfolding sorts_def by (metis set_mset_mset)

lemma host_counts_spec:
  assumes "\<forall>r\<in>set xs. r \<in> set rows \<and> hostip env r \<noteq> None"
  shows "host_counts env (\<lambda>ip. if primaries_on env (Some ip) rows = 0 then None else Some (primaries_on env (Some ip) rows)) xs =
    map (\<lambda>r. if SEGMENT_IS_ACTIVE_PRIMARY r then primaries_on env (hostip env r) rows else 0) xs"
  using assms by (auto simp: host_counts_def SEGMENT_IS_ACTIVE_PRIMARY_def split: option.splits)

lemma getCdbComponentInfo_spec:
  assumes "sorts qsort"
  shows "getCdbComponentInfo qsort env rows = Inr c \<longleftrightarrow> valid_rows env rows \<and> c = components qsort env rows"
proof -
  let ?segs = "qsort CdbComponentDatabaseInfoCompare (filter is_segment rows)"
    and ?entries = "qsort CdbComponentDatabaseInfoCompare (filter (\<lambda>r. \<not> is_segment r) rows)"
  let ?hosts = "\<lambda>ip. if primaries_on env (Some ip) rows = 0 then None else Some (primaries_on env (Some ip) rows)"
  note sets = sorts_set[OF assms]
  have srt: "sorted (map segindex ?segs)" using assms compare_sorted by (simp add: sorts_def)
  note cnt = count_sorted[OF srt] and chk = check_contents_spec[OF srt, of 0]
  have nonneg: "\<forall>s\<in>set (filter is_segment rows). 0 \<le> segindex s" by (simp add: is_segment_def)
  show ?thesis
  proof (cases "list_all (\<lambda>r. hostip env r \<noteq> None) rows")
    case False
    then obtain r where "List.find (\<lambda>r. hostip env r = None) rows = Some r"
      by (cases "List.find (\<lambda>r. hostip env r = None) rows") (auto simp: find_None_iff list_all_iff)
    then show ?thesis using False by (simp add: getCdbComponentInfo_def read_rows_spec valid_rows_def)
  next
    case resolved: True
    then have none: "List.find (\<lambda>r. hostip env r = None) rows = None" by (auto simp: find_None_iff list_all_iff)
    have rows: "read_rows env rows ([], [], Map.empty) = Inr (filter is_segment rows, filter (\<lambda>r. \<not> is_segment r) rows, ?hosts)"
      unfolding read_rows_spec none by (simp cong: if_cong)
    have h: "host_counts env ?hosts ?segs = segment_hostSegs (components qsort env rows)"
      "host_counts env ?hosts ?entries = entry_hostSegs (components qsort env rows)"
      using resolved by (simp_all add: components_def Let_def host_counts_spec sets list_all_iff)
    show ?thesis
    proof (cases "filter is_segment rows = []")
      case True
      then show ?thesis using none by (auto simp: getCdbComponentInfo_def read_rows_spec valid_rows_def)
    next
      case False
      then have "0 < int (card (segindex ` set ?segs))" by (auto simp: sets card_gt_0_iff filter_empty_conv)
      then have "int (card (segindex ` set ?segs)) = gpsegmentCount env \<and> {0 .. gpsegmentCount env - 1} \<subseteq> segindex ` set ?segs \<longleftrightarrow>
        0 < gpsegmentCount env \<and> segindex ` set ?segs = {0 ..< gpsegmentCount env}"
        unfolding sets using contents_complete[OF _ nonneg, of "gpsegmentCount env"]
        by (cases "0 < gpsegmentCount env") (blast, auto)
      moreover have "find_identity env ?entries \<longleftrightarrow>
        list_ex (\<lambda>r. \<not> is_segment r \<and> dbid r = identity_dbid env \<and> segindex r = identity_segment env) rows"
        by (auto simp: find_identity_iff sets list_ex_iff)
      moreover have "find_identity env ?entries \<Longrightarrow> filter (\<lambda>r. \<not> is_segment r) rows \<noteq> []"
        by (auto simp: find_identity_iff sets filter_empty_conv)
      ultimately have valid: "valid_rows env rows \<longleftrightarrow> filter (\<lambda>r. \<not> is_segment r) rows \<noteq> [] \<and>
        gpsegmentCount env = int (card (segindex ` set ?segs)) \<and> find_identity env ?entries \<and>
        {0 .. gpsegmentCount env - 1} \<subseteq> segindex ` set ?segs"
        unfolding valid_rows_def sets using resolved by argo
      have "components qsort env rows = \<lparr>total_segments = gpsegmentCount env, segment_db_info = ?segs, entry_db_info = ?entries,
          segment_hostSegs = host_counts env ?hosts ?segs, entry_hostSegs = host_counts env ?hosts ?entries\<rparr>"
        unfolding h by (simp add: components_def Let_def)
      then show ?thesis unfolding valid getCdbComponentInfo_def rows using False cnt
        by (auto simp add: Let_def chk)
    qed
  qed
qed

text \<open>
  C28: The configuration is accepted exactly when every host name resolves, the contents of the segment rows
  are the numbers from 0 to the segment count of \<^verbatim>\<open>gp_id\<close>, none missing, and the row of this process is among the
  entry databases.  The result then holds every row once, by content with the primary of a content before
  its mirror, and with each primary the number of primaries on its host.
\<close>

theorem component_info_accepts:
  assumes "sorts qsort"
  shows "(\<exists>c. getCdbComponentInfo qsort env rows = Inr c) = valid_rows env rows \<and>
    (\<forall>c. getCdbComponentInfo qsort env rows = Inr c \<longrightarrow>
      total_segments c = gpsegmentCount env \<and>
      mset (segment_db_info c) = mset (filter is_segment rows) \<and> mset (entry_db_info c) = mset (filter (\<lambda>r. \<not> is_segment r) rows) \<and>
      sorted_wrt (\<lambda>a b. segindex a < segindex b \<or> segindex a = segindex b \<and> (SEGMENT_IS_ACTIVE_PRIMARY b \<longrightarrow> SEGMENT_IS_ACTIVE_PRIMARY a))
        (segment_db_info c) \<and>
      (\<forall>i<length (segment_db_info c). SEGMENT_IS_ACTIVE_PRIMARY (segment_db_info c ! i) \<longrightarrow>
        segment_hostSegs c ! i = primaries_on env (hostip env (segment_db_info c ! i)) rows))"
proof -
  let ?segs = "qsort CdbComponentDatabaseInfoCompare (filter is_segment rows)"
  have "sorted_wrt (\<lambda>a b. CdbComponentDatabaseInfoCompare a b \<le> 0) ?segs" using assms by (simp add: sorts_def)
  then have "sorted_wrt (\<lambda>a b. segindex a < segindex b \<or> segindex a = segindex b \<and> (SEGMENT_IS_ACTIVE_PRIMARY b \<longrightarrow> SEGMENT_IS_ACTIVE_PRIMARY a)) ?segs"
    by (rule sorted_wrt_mono_rel[rotated]) (auto simp: CdbComponentDatabaseInfoCompare_def Let_def split: if_splits)
  then show ?thesis using assms by (auto simp: getCdbComponentInfo_spec[OF assms] components_def Let_def sorts_def)
qed

text \<open>Insertion sort is one of the sorts.\<close>

fun insert_by :: "('a \<Rightarrow> 'a \<Rightarrow> int) \<Rightarrow> 'a \<Rightarrow> 'a list \<Rightarrow> 'a list" where
  "insert_by cmp x [] = [x]"
| "insert_by cmp x (y # ys) = (if cmp x y \<le> 0 then x # y # ys else y # insert_by cmp x ys)"

definition insertion_sort :: sorter where
  "insertion_sort cmp xs = foldr (insert_by cmp) xs []"

lemma compare_trans: "CdbComponentDatabaseInfoCompare a b \<le> 0 \<Longrightarrow> CdbComponentDatabaseInfoCompare b c \<le> 0 \<Longrightarrow>
    CdbComponentDatabaseInfoCompare a c \<le> 0"
  by (auto simp: CdbComponentDatabaseInfoCompare_def Let_def split: if_splits)

lemma compare_total: "\<not> CdbComponentDatabaseInfoCompare a b \<le> 0 \<Longrightarrow> CdbComponentDatabaseInfoCompare b a \<le> 0"
  by (auto simp: CdbComponentDatabaseInfoCompare_def Let_def split: if_splits)

lemma mset_insert_by: "mset (insert_by cmp x ys) = add_mset x (mset ys)"
  by (induction ys) auto

lemma sorted_insert_by:
  "sorted_wrt (\<lambda>a b. CdbComponentDatabaseInfoCompare a b \<le> 0) ys \<Longrightarrow>
     sorted_wrt (\<lambda>a b. CdbComponentDatabaseInfoCompare a b \<le> 0) (insert_by CdbComponentDatabaseInfoCompare x ys)"
proof (induction ys)
  case (Cons y ys)
  have "set (insert_by CdbComponentDatabaseInfoCompare x ys) = insert x (set ys)"
    using mset_insert_by[of _ x ys] by (metis set_mset_add_mset_insert set_mset_mset)
  then show ?case using Cons compare_total[of x y] compare_trans[of x y] by auto
qed simp

lemma insertion_sorts: "sorts insertion_sort"
proof -
  have "mset (foldr (insert_by cmp) xs []) = mset xs" for cmp and xs :: "CdbComponentDatabaseInfo list"
    by (induction xs) (simp_all add: mset_insert_by)
  moreover have "sorted_wrt (\<lambda>a b. CdbComponentDatabaseInfoCompare a b \<le> 0) (foldr (insert_by CdbComponentDatabaseInfoCompare) xs [])" for xs
    by (induction xs) (simp_all add: sorted_insert_by)
  ultimately show ?thesis by (simp add: sorts_def insertion_sort_def)
qed

abbreviation rows0 :: "CdbComponentDatabaseInfo list" where
  "rows0 \<equiv> [\<lparr>dbid = 1, segindex = - 1, role = CHR ''p'', mode = CHR ''s'', status = CHR ''u''\<rparr>,
    \<lparr>dbid = 3, segindex = 0, role = CHR ''m'', mode = CHR ''s'', status = CHR ''u''\<rparr>,
    \<lparr>dbid = 2, segindex = 0, role = CHR ''p'', mode = CHR ''s'', status = CHR ''u''\<rparr>]"

abbreviation component_env0 :: component_env where
  "component_env0 \<equiv> \<lparr>hostip = (\<lambda>_. Some ''h''), identity_dbid = 1, identity_segment = - 1, gpsegmentCount = 1\<rparr>"

lemma valid_rows0: "valid_rows component_env0 rows0"
  by (auto simp: valid_rows_def is_segment_def)

theorem component_info_accepts_witness:
  "\<exists>c. getCdbComponentInfo insertion_sort component_env0 rows0 = Inr c \<and> total_segments c = 1 \<and> length (segment_db_info c) = 2"
proof -
  obtain c where c: "getCdbComponentInfo insertion_sort component_env0 rows0 = Inr c"
    using component_info_accepts[OF insertion_sorts, of component_env0 rows0] valid_rows0 by blast
  then have t: "total_segments c = gpsegmentCount component_env0" "mset (segment_db_info c) = mset (filter is_segment rows0)"
    using component_info_accepts[OF insertion_sorts, of component_env0 rows0] by blast+
  then have "length (segment_db_info c) = length (filter is_segment rows0)" using mset_eq_length by blast
  then show ?thesis using c t(1) by (simp add: is_segment_def)
qed

end
