(* ===== verification/Fts_Handler.thy ===== *)
theory Fts_Handler
  imports Fts_Probe
begin

text \<open>
  The handler of the prober's messages in a segment (\<^verbatim>\<open>fts/ftsmessagehandler.c\<close> and
  \<^verbatim>\<open>replication/gp_replication.c\<close>): it reports the state of the mirror, turns synchronous
  replication on and off, and starts a promotion.

  The clock, the settings and the faults of the file system are the environment.  A change of the
  replication configuration takes effect when the checkpointer has reloaded it, which is not a step
  of the handler, so the flag \<^verbatim>\<open>sync_standbys_defined\<close> in shared memory is only read here.
\<close>


subsection \<open>State\<close>

record FtsResponse =
  IsMirrorUp :: bool
  IsInSync :: bool
  IsSyncRepEnabled :: bool
  IsRoleMirror :: bool
  RequestRetry :: bool

definition empty_response :: FtsResponse where
  "empty_response = \<lparr>IsMirrorUp = False, IsInSync = False, IsSyncRepEnabled = False, IsRoleMirror = False, RequestRetry = False\<rparr>"

datatype WalSndState = WALSNDSTATE_STARTUP | WALSNDSTATE_BACKUP | WALSNDSTATE_CATCHUP | WALSNDSTATE_STREAMING

record WalSnd =
  pid :: int
  snd_state :: WalSndState
  replica_disconnected_at :: int

datatype DBState =
  DB_STARTUP | DB_SHUTDOWNED | DB_SHUTDOWNED_IN_RECOVERY | DB_SHUTDOWNING | DB_IN_CRASH_RECOVERY | DB_IN_ARCHIVE_RECOVERY
| DB_IN_STANDBY_MODE | DB_IN_STANDBY_PROMOTED | DB_IN_PRODUCTION

record segment =
  am_mirror :: bool
  walsnds :: "WalSnd list"
  sync_standbys_defined :: bool
  replication_config :: "string \<Rightarrow> string option"
  reload_requested :: bool
  promote_file :: bool
  promote_signalled :: bool
  db_state :: DBState
  probe_file :: "bytes option"

text \<open>The clock and settings, and what the operations on files report.\<close>

record handler_env =
  now :: int
  PMAcceptingConnectionsStartTime :: int
  gp_fts_mark_mirror_down_grace_period :: int
  open_error :: bool
  create_ok :: bool
  write_size :: nat
  read_size :: nat
  lseek_ok :: bool
  unlink_ok :: bool
  unlink_promote_ok :: bool
  fopen_ok :: bool

datatype handler_error = DiskIOCheckFailed | UnknownFtsQuery bytes | SendError pq_error


subsection \<open>The check of the data directory\<close>

definition BLCKSZ :: nat where "BLCKSZ = 32768"

definition C_string :: "string \<Rightarrow> bytes" where
  "C_string s = map of_char s"

definition FTS_PROBE_MAGIC_STRING :: bytes where
  "FTS_PROBE_MAGIC_STRING = C_string ''FtS PrObEr MaGiC StRiNg, pRoBiNg cHeCk.......''"

definition magic_block :: bytes where
  "magic_block = FTS_PROBE_MAGIC_STRING @ replicate (BLCKSZ - length FTS_PROBE_MAGIC_STRING) 0"

text \<open>The result: whether the check fails, and the file after it.\<close>

definition checkIODataDirectory :: "handler_env \<Rightarrow> bytes option \<Rightarrow> bool \<times> bytes option" where
  "checkIODataDirectory env file =
     (if open_error env then (True, file)
      else case file of
        None \<Rightarrow>
          if \<not> create_ok env then (True, None)
          else if min (write_size env) BLCKSZ \<noteq> BLCKSZ
          then (True, if unlink_ok env then None else Some (take (write_size env) magic_block))
          else (False, Some magic_block)
      | Some content \<Rightarrow>
          (let dat = take (min (read_size env) BLCKSZ) content;
               failure = (length dat \<noteq> BLCKSZ \<or>
                 take (length FTS_PROBE_MAGIC_STRING + 1) dat \<noteq> FTS_PROBE_MAGIC_STRING @ [0] \<or>
                 \<not> lseek_ok env \<or> min (write_size env) BLCKSZ \<noteq> BLCKSZ)
           in (failure, if failure \<and> unlink_ok env then None else Some content)))"


subsection \<open>The mirror\<close>

text \<open>The difference of two times of type \<^verbatim>\<open>pg_time_t\<close>, which is \<^verbatim>\<open>int64\<close>.\<close>

definition int64_cast :: "int \<Rightarrow> int" where
  "int64_cast t = sint (word_of_int t :: 64 word)"

definition mirror_status_step :: "handler_env \<Rightarrow> WalSnd \<Rightarrow> FtsResponse \<Rightarrow> FtsResponse" where
  "mirror_status_step env walsnd response =
     (let response = (if pid walsnd \<noteq> 0 \<and> (snd_state walsnd = WALSNDSTATE_CATCHUP \<or> snd_state walsnd = WALSNDSTATE_STREAMING)
                      then response\<lparr>IsMirrorUp := True, IsInSync := (snd_state walsnd = WALSNDSTATE_STREAMING)\<rparr>
                      else response)
      in if \<not> IsMirrorUp response
         then (let delta = int64_cast (now env - max (replica_disconnected_at walsnd) (PMAcceptingConnectionsStartTime env))
               in if delta < gp_fts_mark_mirror_down_grace_period env \<and> delta \<ge> 0
                  then response\<lparr>RequestRetry := True\<rparr> else response)
         else response)"

definition GetMirrorStatus :: "handler_env \<Rightarrow> segment \<Rightarrow> FtsResponse \<Rightarrow> FtsResponse" where
  "GetMirrorStatus env s response =
     (let response = response\<lparr>IsMirrorUp := False, IsInSync := False, RequestRetry := False\<rparr>;
          response = for_range 0 (length (walsnds s)) (\<lambda>i. mirror_status_step env (walsnds s ! i)) response
      in response\<lparr>IsSyncRepEnabled := sync_standbys_defined s\<rparr>)"

definition SetSyncStandbysDefined :: "segment \<Rightarrow> segment" where
  "SetSyncStandbysDefined s =
     (if \<not> sync_standbys_defined s
      then s\<lparr>replication_config := (replication_config s)(''synchronous_standby_names'' \<mapsto> ''*''), reload_requested := True\<rparr>
      else s)"

definition UnsetSyncStandbysDefined :: "segment \<Rightarrow> segment" where
  "UnsetSyncStandbysDefined s =
     (if sync_standbys_defined s
      then s\<lparr>replication_config := (replication_config s)(''synchronous_standby_names'' \<mapsto> ''''), reload_requested := True\<rparr>
      else s)"

definition CheckPromoteSignal :: "handler_env \<Rightarrow> bool \<Rightarrow> segment \<Rightarrow> bool \<times> segment" where
  "CheckPromoteSignal env do_unlink s =
     (if promote_file s then (True, if do_unlink \<and> unlink_promote_ok env then s\<lparr>promote_file := False\<rparr> else s) else (False, s))"

definition SignalPromote :: "handler_env \<Rightarrow> segment \<Rightarrow> segment" where
  "SignalPromote env s = (if fopen_ok env then s\<lparr>promote_file := True, promote_signalled := True\<rparr> else s)"


subsection \<open>Responses\<close>

definition FTS_MSG_PROBE :: bytes where "FTS_MSG_PROBE = C_string ''PROBE''"
definition FTS_MSG_SYNCREP_OFF :: bytes where "FTS_MSG_SYNCREP_OFF = C_string ''SYNCREP_OFF''"
definition FTS_MSG_PROMOTE :: bytes where "FTS_MSG_PROMOTE = C_string ''PROMOTE''"

definition BOOLOID :: int where "BOOLOID = 16"

fun pq_seq :: "(StringInfoData \<Rightarrow> pq_error + StringInfoData) list \<Rightarrow> StringInfoData \<Rightarrow> pq_error + StringInfoData" where
  "pq_seq [] buf = Inr buf"
| "pq_seq (f # fs) buf = result_bind (f buf) (pq_seq fs)"

definition send_column :: "(bytes \<Rightarrow> bytes option) \<Rightarrow> string \<Rightarrow> int \<Rightarrow> StringInfoData \<Rightarrow> pq_error + StringInfoData" where
  "send_column conv name attnum = pq_seq
     [\<lambda>buf. pq_sendstring conv buf (C_string name),
      \<lambda>buf. pq_sendint buf 0 4,
      \<lambda>buf. pq_sendint buf attnum 2,
      \<lambda>buf. pq_sendint buf BOOLOID 4,
      \<lambda>buf. pq_sendint buf 1 2,
      \<lambda>buf. pq_sendint buf (-1) 4,
      \<lambda>buf. pq_sendint buf 0 2]"

definition send_value :: "bool \<Rightarrow> StringInfoData \<Rightarrow> pq_error + StringInfoData" where
  "send_value v = pq_seq [\<lambda>buf. pq_sendint buf 1 4, \<lambda>buf. pq_sendint buf (of_bool v) 1]"

definition EndCommand :: "pq_port \<Rightarrow> bytes \<Rightarrow> pq_port" where
  "EndCommand port commandTag = snd (pq_putmessage port (of_char CHR ''C'') (commandTag @ [0]))"

definition SendFtsResponse :: "(bytes \<Rightarrow> bytes option) \<Rightarrow> pq_port \<Rightarrow> FtsResponse \<Rightarrow> bytes \<Rightarrow> pq_error + pq_port" where
  "SendFtsResponse conv port response messagetype =
     result_bind (pq_beginmessage (of_char CHR ''T'')) (\<lambda>buf.
     result_bind (pq_seq
       [\<lambda>buf. pq_sendint buf Natts_fts_message_response 2,
        send_column conv ''is_mirror_up'' Anum_fts_message_response_is_mirror_up,
        send_column conv ''is_in_sync'' Anum_fts_message_response_is_in_sync,
        send_column conv ''is_syncrep_enabled'' Anum_fts_message_response_is_syncrep_enabled,
        send_column conv ''is_role_mirror'' Anum_fts_message_response_is_role_mirror,
        send_column conv ''request_retry'' Anum_fts_message_response_request_retry] buf) (\<lambda>buf.
     let port = pq_endmessage port buf in
     result_bind (pq_beginmessage (of_char CHR ''D'')) (\<lambda>buf.
     result_bind (pq_seq
       [\<lambda>buf. pq_sendint buf Natts_fts_message_response 2,
        send_value (IsMirrorUp response), send_value (IsInSync response), send_value (IsSyncRepEnabled response),
        send_value (IsRoleMirror response), send_value (RequestRetry response)] buf) (\<lambda>buf.
     Inr (EndCommand (pq_endmessage port buf) messagetype)))))"


subsection \<open>Handlers\<close>

text \<open>A handler sends its response, or ends with an error, in a new state.\<close>

type_synonym handler = "handler_env \<Rightarrow> (bytes \<Rightarrow> bytes option) \<Rightarrow> pq_port \<Rightarrow> segment \<Rightarrow> (handler_error + pq_port) \<times> segment"

definition lift_pq :: "pq_error + 'a \<Rightarrow> handler_error + 'a" where
  "lift_pq r = (case r of Inl e \<Rightarrow> Inl (SendError e) | Inr x \<Rightarrow> Inr x)"

definition HandleFtsWalRepProbe :: handler where
  "HandleFtsWalRepProbe env conv port s =
     (let response = empty_response;
          (response, s) =
            (if am_mirror s then (response\<lparr>IsRoleMirror := True\<rparr>, s)
             else (let response = GetMirrorStatus env s response;
                       (response, s) = (if IsMirrorUp response \<and> \<not> IsSyncRepEnabled response
                                        then (response\<lparr>IsSyncRepEnabled := True\<rparr>, SetSyncStandbysDefined s)
                                        else (response, s))
                   in (response, snd (CheckPromoteSignal env True s))));
          (failure, file) = checkIODataDirectory env (probe_file s);
          s = s\<lparr>probe_file := file\<rparr>
      in (if failure then Inl DiskIOCheckFailed else lift_pq (SendFtsResponse conv port response FTS_MSG_PROBE), s))"

definition HandleFtsWalRepSyncRepOff :: handler where
  "HandleFtsWalRepSyncRepOff env conv port s =
     (let s = UnsetSyncStandbysDefined s;
          response = GetMirrorStatus env s empty_response
      in (lift_pq (SendFtsResponse conv port response FTS_MSG_SYNCREP_OFF), s))"

definition HandleFtsWalRepPromote :: handler where
  "HandleFtsWalRepPromote env conv port s =
     (let response = empty_response\<lparr>IsRoleMirror := am_mirror s\<rparr>;
          s = (if db_state s = DB_IN_STANDBY_MODE then SignalPromote env s else s)
      in (lift_pq (SendFtsResponse conv port response FTS_MSG_PROMOTE), s))"

text \<open>The comparison of the first bytes of a query with a message type.\<close>

definition starts_with :: "bytes \<Rightarrow> bytes \<Rightarrow> bool" where
  "starts_with query msg \<longleftrightarrow> take (length msg) query = msg"

definition HandleFtsMessage :: "bytes \<Rightarrow> handler" where
  "HandleFtsMessage query_string env conv port s =
     (if starts_with query_string FTS_MSG_PROBE then HandleFtsWalRepProbe env conv port s
      else if starts_with query_string FTS_MSG_SYNCREP_OFF then HandleFtsWalRepSyncRepOff env conv port s
      else if starts_with query_string FTS_MSG_PROMOTE then HandleFtsWalRepPromote env conv port s
      else (Inl (UnknownFtsQuery query_string), s))"


subsection \<open>The check recovers\<close>

definition healthy :: "handler_env \<Rightarrow> bool" where
  "healthy env \<longleftrightarrow> \<not> open_error env \<and> create_ok env \<and> BLCKSZ \<le> write_size env \<and> BLCKSZ \<le> read_size env \<and> lseek_ok env"

lemma length_magic: "length FTS_PROBE_MAGIC_STRING = 45"
  by (simp add: FTS_PROBE_MAGIC_STRING_def C_string_def)

lemma magic_block_passes: "length magic_block = BLCKSZ" "take 46 magic_block = FTS_PROBE_MAGIC_STRING @ [0]"
proof -
  have "replicate (BLCKSZ - 45) 0 = (0 :: uint8) # replicate (BLCKSZ - 46) 0"
    by (simp add: BLCKSZ_def flip: replicate_Suc)
  then show "take 46 magic_block = FTS_PROBE_MAGIC_STRING @ [0]" by (simp add: magic_block_def length_magic)
  show "length magic_block = BLCKSZ" by (simp add: magic_block_def length_magic BLCKSZ_def)
qed

lemma check_created: "healthy env \<Longrightarrow> checkIODataDirectory env None = (False, Some magic_block)"
  by (simp add: checkIODataDirectory_def healthy_def min_absorb2)

lemma check_again: "healthy env \<Longrightarrow> checkIODataDirectory env (Some magic_block) = (False, Some magic_block)"
  by (simp add: checkIODataDirectory_def healthy_def Let_def magic_block_passes length_magic min_absorb2)

lemma check_failed:
  "checkIODataDirectory env file = (True, file') \<Longrightarrow> \<not> open_error env \<Longrightarrow> unlink_ok env \<Longrightarrow> file' = None"
  by (auto simp: checkIODataDirectory_def Let_def split: option.splits if_splits)

lemma check_passed:
  assumes "checkIODataDirectory env file = (False, file')" "healthy env'"
  shows "checkIODataDirectory env' file' = (False, file')"
proof (cases "file")
  case None
  then have "file' = Some magic_block" using assms(1) by (simp add: checkIODataDirectory_def split: if_splits)
  then show ?thesis using check_again[OF assms(2)] by simp
next
  case (Some content)
  then have c: "file' = Some content" "length (take (min (read_size env) BLCKSZ) content) = BLCKSZ"
    "take 46 (take (min (read_size env) BLCKSZ) content) = FTS_PROBE_MAGIC_STRING @ [0]"
    using assms(1) by (auto simp: checkIODataDirectory_def Let_def length_magic split: if_splits)
  then have "BLCKSZ \<le> length content" "min (read_size env) BLCKSZ = BLCKSZ" by simp_all
  then show ?thesis using c assms(2)
    by (simp add: checkIODataDirectory_def healthy_def Let_def length_magic min_absorb2)
qed


subsection \<open>What a response says\<close>

definition sending :: "WalSnd \<Rightarrow> bool" where
  "sending w \<longleftrightarrow> pid w \<noteq> 0 \<and> (snd_state w = WALSNDSTATE_CATCHUP \<or> snd_state w = WALSNDSTATE_STREAMING)"

lemma status_step_sync: "(IsInSync r \<longrightarrow> IsMirrorUp r) \<Longrightarrow> IsInSync (mirror_status_step env w r) \<longrightarrow> IsMirrorUp (mirror_status_step env w r)"
  by (auto simp: mirror_status_step_def Let_def)

lemma mirror_status_sync: "IsInSync (GetMirrorStatus env s r) \<longrightarrow> IsMirrorUp (GetMirrorStatus env s r)"
proof -
  let ?r = "for_range 0 (length (walsnds s)) (\<lambda>i. mirror_status_step env (walsnds s ! i))
    (r\<lparr>IsMirrorUp := False, IsInSync := False, RequestRetry := False\<rparr>)"
  have "IsInSync ?r \<longrightarrow> IsMirrorUp ?r"
    by (rule for_range_induct[where P = "\<lambda>_ r. IsInSync r \<longrightarrow> IsMirrorUp r"]) (simp_all add: status_step_sync)
  then show ?thesis by (simp add: GetMirrorStatus_def)
qed

lemma single_mirror_status:
  assumes "walsnds s = [w]"
  shows "GetMirrorStatus env s r = r\<lparr>IsMirrorUp := sending w, IsInSync := sending w \<and> snd_state w = WALSNDSTATE_STREAMING,
    RequestRetry := \<not> sending w \<and> (let delta = int64_cast (now env - max (replica_disconnected_at w) (PMAcceptingConnectionsStartTime env))
      in 0 \<le> delta \<and> delta < gp_fts_mark_mirror_down_grace_period env), IsSyncRepEnabled := sync_standbys_defined s\<rparr>"
  using assms by (auto simp: GetMirrorStatus_def mirror_status_step_def sending_def Let_def for_range_def)


subsection \<open>The bytes of a response\<close>

lemma sends_pq_seq [sends_intros]:
  "sends (pq_seq []) []" "sends f a \<Longrightarrow> sends (pq_seq fs) b \<Longrightarrow> sends (pq_seq (f # fs)) (a @ b)"
proof -
  show "sends (pq_seq []) []" by (simp add: sends_def)
  have "pq_seq (f # fs) = (\<lambda>s. result_bind (f s) (pq_seq fs))" by (rule ext) simp
  then show "sends f a \<Longrightarrow> sends (pq_seq fs) b \<Longrightarrow> sends (pq_seq (f # fs)) (a @ b)" using sends_seq by metis
qed

lemma message_sent:
  assumes "sends f bs" "length bs < 1000000" "\<not> DoingCopyOut port" "FrontendProtocolMajor port \<ge> 3" "mid \<noteq> 0"
  shows "\<exists>b. (\<forall>k. result_bind (pq_beginmessage mid) (\<lambda>buf. result_bind (f buf) k) = k b) \<and>
    pq_endmessage port b = port\<lparr>out := out port @ framed mid bs\<rparr>"
proof -
  have "\<exists>b. initStringInfo = Inr b \<and> sinfo_ok b \<and> contents b = [] \<and> len b = 0"
    by (simp add: initStringInfo_def resetStringInfo_def store_def Let_def sinfo_ok_def contents_def)
  then obtain b' where b': "initStringInfo = Inr b'" "sinfo_ok b'" "contents b' = []" "len b' = 0" by blast
  define b0 where "b0 = b'\<lparr>cursor := uint mid\<rparr>"
  have b0: "pq_beginmessage mid = Inr b0" "sinfo_ok b0" "contents b0 = []" "len b0 = 0" "cursor b0 = uint mid"
    using b'(2-4) unfolding pq_beginmessage_def b'(1) by (simp_all add: b0_def sinfo_ok_def contents_def)
  have "len b0 + int (length bs) + 1 < 1073741823" using b0(4) assms(2) by simp
  then obtain b where b: "f b0 = Inr b" "contents b = bs" "cursor b = uint mid"
    using assms(1) b0 unfolding sends_def by fastforce
  then have "pq_endmessage port b = port\<lparr>out := out port @ framed mid bs\<rparr>"
    using assms by (simp add: pq_endmessage_def pq_putmessage_def framed_def)
  then show ?thesis using b0(1) b(1) by auto
qed

text \<open>The columns and values of a response.\<close>

definition response_column :: "string \<Rightarrow> int \<Rightarrow> PGresAttDesc" where
  "response_column name attnum = \<lparr>att_name = C_string name, tableid = 0, columnid = attnum, att_format = 0, typid = BOOLOID,
     typlen = 1, atttypmod = - 1\<rparr>"

definition response_columns :: "PGresAttDesc list" where
  "response_columns = [response_column ''is_mirror_up'' 0, response_column ''is_in_sync'' 1,
     response_column ''is_syncrep_enabled'' 2, response_column ''is_role_mirror'' 3, response_column ''request_retry'' 4]"

definition response_values :: "FtsResponse \<Rightarrow> bytes list" where
  "response_values r = map (\<lambda>b. [of_bool b]) [IsMirrorUp r, IsInSync r, IsSyncRepEnabled r, IsRoleMirror r, RequestRetry r]"

lemma sends_column:
  assumes "conv (C_string name) = None"
  shows "sends (send_column conv name attnum) (attdesc_bytes (response_column name attnum))"
proof -
  have "sends (send_column conv name attnum) ((converted conv (C_string name) @ [0]) @ htonl (word_of_int 0) @
    htons (word_of_int attnum) @ htonl (word_of_int BOOLOID) @ htons (word_of_int 1) @ htonl (word_of_int (- 1)) @
    htons (word_of_int 0) @ [])"
    unfolding send_column_def by (intro sends_intros)
  then show ?thesis using assms by (simp add: attdesc_bytes_def response_column_def converted_def)
qed

lemma sends_value: "sends (send_value v) (field_bytes [of_bool v])"
proof -
  have "sends (send_value v) (htonl (word_of_int 1) @ [word_of_int (of_bool v)] @ [])"
    unfolding send_value_def by (intro sends_intros)
  then show ?thesis by (simp add: field_bytes_def)
qed

lemma response_columns_ok:
  "list_all attdesc_ok response_columns" "length response_columns = 5" "length (concat (map attdesc_bytes response_columns)) = 162"
  by (simp_all add: response_columns_def response_column_def attdesc_ok_def attdesc_bytes_def C_string_def BOOLOID_def
      int16_range_def int32_range_def)

lemma response_values_ok:
  "list_all (\<lambda>v. v \<noteq> [] \<and> int32_range (int (length v))) (response_values r)" "length (response_values r) = 5"
  "length (concat (map field_bytes (response_values r))) = 25"
  by (simp_all add: response_values_def field_bytes_def int32_range_def)

definition response_bytes :: "FtsResponse \<Rightarrow> bytes \<Rightarrow> bytes" where
  "response_bytes r tag = framed 0x54 (htons (word_of_int (int (length response_columns))) @ concat (map attdesc_bytes response_columns)) @
     framed 0x44 (htons (word_of_int (int (length (response_values r)))) @ concat (map field_bytes (response_values r))) @
     framed 0x43 (tag @ [0])"

text \<open>The names of the columns are ASCII, which the conversion of the encoding leaves as they are.\<close>

definition ascii_unchanged :: "(bytes \<Rightarrow> bytes option) \<Rightarrow> bool" where
  "ascii_unchanged conv \<longleftrightarrow> (\<forall>str. list_all (\<lambda>c. c < 128) str \<longrightarrow> conv str = None)"

definition pq_ready :: "pq_port \<Rightarrow> bool" where
  "pq_ready port \<longleftrightarrow> \<not> DoingCopyOut port \<and> FrontendProtocolMajor port \<ge> 3"

lemma type_bytes: "(of_char CHR ''T'' :: uint8) = 0x54" "(of_char CHR ''D'' :: uint8) = 0x44" "(of_char CHR ''C'' :: uint8) = 0x43"
  by simp_all

lemma columns_sent:
  assumes "ascii_unchanged conv"
  shows "sends (pq_seq
       [\<lambda>buf. pq_sendint buf Natts_fts_message_response 2,
        send_column conv ''is_mirror_up'' Anum_fts_message_response_is_mirror_up,
        send_column conv ''is_in_sync'' Anum_fts_message_response_is_in_sync,
        send_column conv ''is_syncrep_enabled'' Anum_fts_message_response_is_syncrep_enabled,
        send_column conv ''is_role_mirror'' Anum_fts_message_response_is_role_mirror,
        send_column conv ''request_retry'' Anum_fts_message_response_request_retry])
     (htons (word_of_int 5) @ concat (map attdesc_bytes response_columns))" (is "sends ?f _")
proof -
  have conv: "conv (C_string name) = None" if "list_all (\<lambda>c. (of_char c :: uint8) < 128) name" for name
    using assms that by (simp add: ascii_unchanged_def C_string_def list.pred_map comp_def)
  have "sends ?f (htons (word_of_int 5) @ attdesc_bytes (response_column ''is_mirror_up'' 0) @
    attdesc_bytes (response_column ''is_in_sync'' 1) @ attdesc_bytes (response_column ''is_syncrep_enabled'' 2) @
    attdesc_bytes (response_column ''is_role_mirror'' 3) @ attdesc_bytes (response_column ''request_retry'' 4) @ [])"
    unfolding fts_message_nums by (intro sends_intros sends_column conv) simp_all
  then show ?thesis by (simp add: response_columns_def)
qed

lemma values_sent:
  "sends (pq_seq
       [\<lambda>buf. pq_sendint buf Natts_fts_message_response 2,
        send_value (IsMirrorUp r), send_value (IsInSync r), send_value (IsSyncRepEnabled r),
        send_value (IsRoleMirror r), send_value (RequestRetry r)])
     (htons (word_of_int 5) @ concat (map field_bytes (response_values r)))" (is "sends ?f _")
proof -
  have "sends ?f (htons (word_of_int 5) @ field_bytes [of_bool (IsMirrorUp r)] @ field_bytes [of_bool (IsInSync r)] @
    field_bytes [of_bool (IsSyncRepEnabled r)] @ field_bytes [of_bool (IsRoleMirror r)] @ field_bytes [of_bool (RequestRetry r)] @ [])"
    unfolding fts_message_nums by (intro sends_intros sends_value)
  then show ?thesis by (simp add: response_values_def)
qed

lemma response_sent:
  assumes "ascii_unchanged conv" "pq_ready port"
  shows "SendFtsResponse conv port r tag = Inr (port\<lparr>out := out port @ response_bytes r tag\<rparr>)"
proof -
  let ?cb = "htons (word_of_int 5) @ concat (map attdesc_bytes response_columns)"
  let ?vb = "htons (word_of_int 5) @ concat (map field_bytes (response_values r))"
  let ?port = "port\<lparr>out := out port @ framed 0x54 ?cb\<rparr>"
  have len: "length ?cb < 1000000" "length ?vb < 1000000" using response_columns_ok(3) response_values_ok(3) by simp_all
  have p: "\<not> DoingCopyOut port" "FrontendProtocolMajor port \<ge> 3" "\<not> DoingCopyOut ?port" "FrontendProtocolMajor ?port \<ge> 3"
    using assms(2) by (simp_all add: pq_ready_def)
  have id: "(0x54 :: uint8) \<noteq> 0" "(0x44 :: uint8) \<noteq> 0" by simp_all
  obtain b2 where b2: "pq_endmessage ?port b2 = ?port\<lparr>out := out ?port @ framed 0x44 ?vb\<rparr>"
    "\<forall>k :: StringInfoData \<Rightarrow> pq_error + pq_port. result_bind (pq_beginmessage 0x44) (\<lambda>buf. result_bind (pq_seq
       [\<lambda>buf. pq_sendint buf Natts_fts_message_response 2,
        send_value (IsMirrorUp r), send_value (IsInSync r), send_value (IsSyncRepEnabled r),
        send_value (IsRoleMirror r), send_value (RequestRetry r)] buf) k) = k b2"
    using message_sent[OF values_sent len(2) p(3,4) id(2)] by metis
  obtain b1 where b1: "pq_endmessage port b1 = ?port" "\<forall>k :: StringInfoData \<Rightarrow> pq_error + pq_port. result_bind (pq_beginmessage 0x54) (\<lambda>buf. result_bind (pq_seq
       [\<lambda>buf. pq_sendint buf Natts_fts_message_response 2,
        send_column conv ''is_mirror_up'' Anum_fts_message_response_is_mirror_up,
        send_column conv ''is_in_sync'' Anum_fts_message_response_is_in_sync,
        send_column conv ''is_syncrep_enabled'' Anum_fts_message_response_is_syncrep_enabled,
        send_column conv ''is_role_mirror'' Anum_fts_message_response_is_role_mirror,
        send_column conv ''request_retry'' Anum_fts_message_response_request_retry] buf) k) = k b1"
    using message_sent[OF columns_sent[OF assms(1)] len(1) p(1,2) id(1)] by metis
  show ?thesis unfolding SendFtsResponse_def type_bytes b1(2)[rule_format] Let_def b1(1) b2(2)[rule_format] b2(1) using p
    by (simp add: EndCommand_def pq_putmessage_def response_bytes_def framed_def response_columns_ok(2) response_values_ok(2))
qed

lemma response_received:
  assumes "conn_ok c" "conn_async c = PGASYNC_BUSY" "queryclass c = PGQUERY_SIMPLE" "conn_result c = None"
    "in_left (at_start c) = response_bytes r tag" "0 \<notin> set tag" "length tag < 29995"
  shows "\<exists>c' res. pqParseInput3 other c = Some c' \<and> conn_async c' = PGASYNC_READY \<and> conn_result c' = Some res \<and>
    tuples_ok res \<and> PQnfields res = Natts_fts_message_response \<and> PQntuples res = FTS_MESSAGE_RESPONSE_NTUPLES \<and>
    is_mirror_up res = IsMirrorUp r \<and> is_in_sync res = IsInSync r \<and> is_syncrep_enabled res = IsSyncRepEnabled r \<and>
    is_role_mirror res = IsRoleMirror r \<and> request_retry res = RequestRetry r"
proof -
  obtain c' res where c': "pqParseInput3 other c = Some c'" "conn_async c' = PGASYNC_READY" "conn_result c' = Some res"
    "resultStatus res = PGRES_TUPLES_OK" "numAttributes res = 5" "tuples res = [map Some (response_values r)]"
    using query_answer[OF assms(1-4) _ _ response_columns_ok(1) response_values_ok(1)[of r] assms(6) _ _ assms(7)
        assms(5)[unfolded response_bytes_def], of other]
    by (auto simp: response_columns_ok response_values_ok)
  have flag: "response_flag res (int i) = b"
    if "i < 5" "response_values r ! i = [of_bool b]" for i b
    using that c'(5,6) by (simp add: response_flag_def PQgetvalue_def PQntuples_def response_values_ok)
  show ?thesis using c' flag[of 0] flag[of 1] flag[of 2] flag[of 3] flag[of 4]
    by (auto simp: tuples_ok_def PQnfields_def PQntuples_def is_mirror_up_def is_in_sync_def is_syncrep_enabled_def
        is_role_mirror_def request_retry_def fts_message_nums FTS_MESSAGE_RESPONSE_NTUPLES_def response_values_def)
qed


subsection \<open>Properties\<close>

definition awaiting :: "PGconn \<Rightarrow> bool" where
  "awaiting c \<longleftrightarrow> conn_ok c \<and> conn_async c = PGASYNC_BUSY \<and> queryclass c = PGQUERY_SIMPLE \<and> conn_result c = None"

definition conn_with :: "bytes \<Rightarrow> PGconn" where
  "conn_with bs = \<lparr>inBuffer = bs, inStart = 0, inCursor = 0, inEnd = int (length bs), conn_async = PGASYNC_BUSY,
     queryclass = PGQUERY_SIMPLE, conn_result = None, sync_lost = False\<rparr>"

lemma conn_with_ok: "awaiting (conn_with bs)" "in_left (at_start (conn_with bs)) = bs"
  by (simp_all add: awaiting_def conn_with_def conn_ok_def in_left_def at_start_def)

text \<open>A primary with a streaming mirror, on a disk without faults.\<close>

abbreviation port0 :: pq_port where
  "port0 \<equiv> \<lparr>out = [], DoingCopyOut = False, FrontendProtocolMajor = 3\<rparr>"

abbreviation env0 :: handler_env where
  "env0 \<equiv> \<lparr>now = 1000, PMAcceptingConnectionsStartTime = 10, gp_fts_mark_mirror_down_grace_period = 30, open_error = False,
     create_ok = True, write_size = BLCKSZ, read_size = BLCKSZ, lseek_ok = True, unlink_ok = True, unlink_promote_ok = True,
     fopen_ok = True\<rparr>"

abbreviation primary0 :: segment where
  "primary0 \<equiv> \<lparr>am_mirror = False, walsnds = [\<lparr>pid = 7, snd_state = WALSNDSTATE_STREAMING, replica_disconnected_at = 0\<rparr>],
     sync_standbys_defined = False, replication_config = (\<lambda>_. None), reload_requested = False, promote_file = True,
     promote_signalled = False, db_state = DB_IN_PRODUCTION, probe_file = None\<rparr>"

lemma message_types: "0 \<notin> set FTS_MSG_PROBE" "0 \<notin> set FTS_MSG_SYNCREP_OFF" "0 \<notin> set FTS_MSG_PROMOTE"
  "length FTS_MSG_PROBE < 29995" "length FTS_MSG_SYNCREP_OFF < 29995" "length FTS_MSG_PROMOTE < 29995"
  by (simp_all add: FTS_MSG_PROBE_def FTS_MSG_SYNCREP_OFF_def FTS_MSG_PROMOTE_def C_string_def)

lemma handled_cases:
  assumes "HandleFtsMessage query env conv port s = (Inr port', s')"
  obtains r tag where "SendFtsResponse conv port r tag = Inr port'" "tag \<in> {FTS_MSG_PROBE, FTS_MSG_SYNCREP_OFF, FTS_MSG_PROMOTE}"
    "IsInSync r \<longrightarrow> IsMirrorUp r" "IsRoleMirror r \<longrightarrow> am_mirror s"
proof -
  have lift: "lift_pq x = Inr y \<Longrightarrow> x = Inr y" for x :: "pq_error + pq_port" and y by (simp add: lift_pq_def split: sum.splits)
  have role: "IsRoleMirror (GetMirrorStatus env t empty_response) = False" for t
  proof -
    have "IsRoleMirror (for_range 0 n (\<lambda>i. mirror_status_step env (ws i)) r) = IsRoleMirror r" for n ws r
      by (rule for_range_induct[where P = "\<lambda>_ t. IsRoleMirror t = IsRoleMirror r"]) (simp_all add: mirror_status_step_def Let_def)
    then show ?thesis by (simp add: GetMirrorStatus_def Let_def empty_response_def)
  qed
  show thesis
    using assms mirror_status_sync[of env s empty_response] mirror_status_sync[of env "UnsetSyncStandbysDefined s" empty_response] role
    by (auto simp: HandleFtsMessage_def HandleFtsWalRepProbe_def HandleFtsWalRepSyncRepOff_def HandleFtsWalRepPromote_def Let_def
        empty_response_def split: if_splits prod.splits dest!: lift intro: that)
qed

text \<open>
  C25: The response of a segment reaches the prober unchanged: the bytes \<^verbatim>\<open>SendFtsResponse\<close> writes, read by
  \<^verbatim>\<open>pqParseInput3\<close> on the other side of the connection, end the query with one row of five fields that hold
  the five flags of the response.
\<close>

theorem fts_response_roundtrip:
  assumes "ascii_unchanged conv" "pq_ready port" "0 \<notin> set tag" "length tag < 29995"
  shows "\<exists>sent. SendFtsResponse conv port r tag = Inr (port\<lparr>out := out port @ sent\<rparr>) \<and>
    (\<forall>c. awaiting c \<longrightarrow> in_left (at_start c) = sent \<longrightarrow>
      (\<exists>c' res. pqParseInput3 other c = Some c' \<and> conn_async c' = PGASYNC_READY \<and> conn_result c' = Some res \<and>
        tuples_ok res \<and> PQnfields res = Natts_fts_message_response \<and> PQntuples res = FTS_MESSAGE_RESPONSE_NTUPLES \<and>
        is_mirror_up res = IsMirrorUp r \<and> is_in_sync res = IsInSync r \<and> is_syncrep_enabled res = IsSyncRepEnabled r \<and>
        is_role_mirror res = IsRoleMirror r \<and> request_retry res = RequestRetry r))"
  using response_sent[OF assms(1,2)] response_received assms(3,4) unfolding awaiting_def by blast

theorem fts_response_roundtrip_witness:
  "\<exists>sent c' res. SendFtsResponse (\<lambda>_. None) port0
      (empty_response\<lparr>IsMirrorUp := True, IsSyncRepEnabled := True\<rparr>) FTS_MSG_PROBE =
      Inr (port0\<lparr>out := sent\<rparr>) \<and>
    pqParseInput3 (\<lambda>_ _ c. Inr c) (conn_with sent) = Some c' \<and> conn_result c' = Some res \<and> is_mirror_up res \<and> \<not> is_in_sync res"
  using fts_response_roundtrip[of "\<lambda>_. None" port0 FTS_MSG_PROBE
      "empty_response\<lparr>IsMirrorUp := True, IsSyncRepEnabled := True\<rparr>" "\<lambda>_ _ c. Inr c"] conn_with_ok message_types
  by (fastforce simp: ascii_unchanged_def pq_ready_def empty_response_def)

text \<open>
  C26: What a prober learns from an answered message is consistent, whatever the message and the state of the segment:
  a result that says that the mirror is in sync also says that it is up, and only a segment that acts as a mirror
  says that it is one.
\<close>

theorem fts_answer_truthful:
  assumes "HandleFtsMessage query env conv port s = (Inr port', s')" "ascii_unchanged conv" "pq_ready port"
    "awaiting c" "out port' = out port @ in_left (at_start c)"
  shows "\<exists>c' res. pqParseInput3 other c = Some c' \<and> conn_result c' = Some res \<and> tuples_ok res \<and>
    (is_in_sync res \<longrightarrow> is_mirror_up res) \<and> (is_role_mirror res \<longrightarrow> am_mirror s)"
proof -
  obtain r tag where r: "SendFtsResponse conv port r tag = Inr port'" "tag \<in> {FTS_MSG_PROBE, FTS_MSG_SYNCREP_OFF, FTS_MSG_PROMOTE}"
    "IsInSync r \<longrightarrow> IsMirrorUp r" "IsRoleMirror r \<longrightarrow> am_mirror s" by (rule handled_cases[OF assms(1)])
  then have "in_left (at_start c) = response_bytes r tag" using response_sent[OF assms(2,3), of r tag] assms(5) by auto
  moreover have "0 \<notin> set tag" "length tag < 29995" using r(2) message_types by auto
  ultimately show ?thesis using response_received[of c r tag other] assms(4) r(3,4) unfolding awaiting_def by auto
qed

lemma env0_checks: "checkIODataDirectory env0 None = (False, Some magic_block)" "healthy env0"
  by (simp_all add: check_created healthy_def)

lemma lift_response_sent: "ascii_unchanged conv \<Longrightarrow> pq_ready port \<Longrightarrow>
    lift_pq (SendFtsResponse conv port r tag) = Inr (port\<lparr>out := out port @ response_bytes r tag\<rparr>)"
  by (simp add: response_sent lift_pq_def)

theorem fts_answer_truthful_witness:
  "\<exists>port' s' c' res. HandleFtsMessage FTS_MSG_SYNCREP_OFF env0 (\<lambda>_. None) port0 primary0 = (Inr port', s') \<and>
    pqParseInput3 (\<lambda>_ _ c. Inr c) (conn_with (out port')) = Some c' \<and> conn_result c' = Some res \<and> \<not> is_role_mirror res"
proof -
  have p: "ascii_unchanged (\<lambda>_. None)" "pq_ready port0" by (simp_all add: ascii_unchanged_def pq_ready_def)
  have "\<not> starts_with FTS_MSG_SYNCREP_OFF FTS_MSG_PROBE" "starts_with FTS_MSG_SYNCREP_OFF FTS_MSG_SYNCREP_OFF"
    by (simp_all add: starts_with_def FTS_MSG_PROBE_def FTS_MSG_SYNCREP_OFF_def C_string_def)
  then obtain port' s' where h: "HandleFtsMessage FTS_MSG_SYNCREP_OFF env0 (\<lambda>_. None) port0 primary0 = (Inr port', s')"
    by (simp add: HandleFtsMessage_def HandleFtsWalRepSyncRepOff_def Let_def lift_response_sent[OF p])
  show ?thesis
    using fts_answer_truthful[OF h p conn_with_ok(1), of "out port'" "\<lambda>_ _ c. Inr c"] h by (auto simp: conn_with_ok(2))
qed

text \<open>
  C27: A probe of a primary with one mirror whose disk check passes is answered with the state of its wal sender:
  the mirror is up when the sender catches up or streams, in sync when it streams, and a retry is asked for only
  while it is down within the grace period, counted from the later of the disconnection and the start of the
  segment.  When the mirror is up and synchronous replication is off, the answer says that it is on: the primary
  has then written the setting and asked for a reload.  A file that asks for a promotion is removed.
\<close>

theorem fts_probe_answer:
  assumes "starts_with query FTS_MSG_PROBE" "walsnds s = [w]" "\<not> am_mirror s"
    "checkIODataDirectory env (probe_file s) = (False, file)" "ascii_unchanged conv" "pq_ready port"
  shows "\<exists>r s'. HandleFtsMessage query env conv port s = (Inr (port\<lparr>out := out port @ response_bytes r FTS_MSG_PROBE\<rparr>), s') \<and>
    IsMirrorUp r = sending w \<and> IsInSync r = (sending w \<and> snd_state w = WALSNDSTATE_STREAMING) \<and> \<not> IsRoleMirror r \<and>
    IsSyncRepEnabled r = (sending w \<or> sync_standbys_defined s) \<and>
    RequestRetry r = (\<not> sending w \<and> (let delta = int64_cast (now env - max (replica_disconnected_at w) (PMAcceptingConnectionsStartTime env))
      in 0 \<le> delta \<and> delta < gp_fts_mark_mirror_down_grace_period env)) \<and>
    (sending w \<and> \<not> sync_standbys_defined s \<longrightarrow>
      replication_config s' ''synchronous_standby_names'' = Some ''*'' \<and> reload_requested s') \<and>
    (unlink_promote_ok env \<longrightarrow> \<not> promote_file s') \<and> probe_file s' = file"
  using assms(1,3,4)
  by (cases "sending w"; cases "sync_standbys_defined s"; cases "promote_file s";
      simp add: HandleFtsMessage_def HandleFtsWalRepProbe_def single_mirror_status[OF assms(2)] empty_response_def
        lift_response_sent[OF assms(5,6)] SetSyncStandbysDefined_def CheckPromoteSignal_def)
    ((rule exI, rule conjI, rule refl, simp)+)

theorem fts_probe_answer_witness:
  "\<exists>r s'. HandleFtsMessage FTS_MSG_PROBE env0 (\<lambda>_. None) port0 primary0 = (Inr (port0\<lparr>out := response_bytes r FTS_MSG_PROBE\<rparr>), s') \<and>
    IsMirrorUp r \<and> IsInSync r \<and> IsSyncRepEnabled r \<and> replication_config s' ''synchronous_standby_names'' = Some ''*'' \<and> \<not> promote_file s'"
  using fts_probe_answer[of FTS_MSG_PROBE primary0 _ env0 "Some magic_block" "\<lambda>_. None" port0] env0_checks
  by (auto simp: starts_with_def ascii_unchanged_def pq_ready_def sending_def)

lemma probe_checks:
  assumes "starts_with query FTS_MSG_PROBE"
  shows "probe_file (snd (HandleFtsMessage query env conv port s)) = snd (checkIODataDirectory env (probe_file s))"
    "fst (HandleFtsMessage query env conv port s) = Inl DiskIOCheckFailed \<longleftrightarrow> fst (checkIODataDirectory env (probe_file s))"
  using assms
  by (cases "checkIODataDirectory env (probe_file s)";
      simp add: HandleFtsMessage_def HandleFtsWalRepProbe_def Let_def SetSyncStandbysDefined_def CheckPromoteSignal_def lift_pq_def
        split: sum.splits)+

text \<open>
  A failed check of the data directory does not make later checks fail: whether a probe passed or failed
  on a bad or short file, once the disk works again the next probe is not refused, because the file a check
  found bad is removed and the one it accepted is kept as it is.
\<close>

theorem fts_disk_check_recovers:
  assumes "starts_with query FTS_MSG_PROBE" "HandleFtsMessage query env conv port s = (answer, s')"
    "\<not> open_error env" "unlink_ok env" "healthy env'"
  shows "fst (HandleFtsMessage query env' conv port' s') \<noteq> Inl DiskIOCheckFailed \<and>
    (answer = Inl DiskIOCheckFailed \<longrightarrow> probe_file s' = None \<and>
      probe_file (snd (HandleFtsMessage query env' conv port' s')) = Some magic_block)"
proof -
  obtain failure file' where c: "checkIODataDirectory env (probe_file s) = (failure, file')" by fastforce
  then have s': "probe_file s' = file'" "answer = Inl DiskIOCheckFailed \<longleftrightarrow> failure"
    using probe_checks[OF assms(1), of env conv port s] assms(2) by simp_all
  show ?thesis
  proof (cases failure)
    case True
    then have "file' = None" using check_failed[of env "probe_file s" file'] c assms(3,4) by simp
    then show ?thesis using s' check_created[OF assms(5)] by (simp add: probe_checks[OF assms(1)])
  next
    case False
    then have "checkIODataDirectory env' file' = (False, file')" using check_passed[of env "probe_file s"] c assms(5) by simp
    then show ?thesis using s' False by (simp add: probe_checks[OF assms(1)])
  qed
qed

theorem fts_disk_check_recovers_witness:
  "fst (HandleFtsMessage FTS_MSG_PROBE env0 (\<lambda>_. None) port0 (primary0\<lparr>probe_file := Some [1, 2, 3]\<rparr>)) = Inl DiskIOCheckFailed \<and>
   fst (HandleFtsMessage FTS_MSG_PROBE env0 (\<lambda>_. None) port0
     (snd (HandleFtsMessage FTS_MSG_PROBE env0 (\<lambda>_. None) port0 (primary0\<lparr>probe_file := Some [1, 2, 3]\<rparr>)))) \<noteq> Inl DiskIOCheckFailed"
proof
  have p: "starts_with FTS_MSG_PROBE FTS_MSG_PROBE" by (simp add: starts_with_def)
  show "fst (HandleFtsMessage FTS_MSG_PROBE env0 (\<lambda>_. None) port0 (primary0\<lparr>probe_file := Some [1, 2, 3]\<rparr>)) = Inl DiskIOCheckFailed"
    by (simp add: probe_checks[OF p] checkIODataDirectory_def Let_def BLCKSZ_def)
  show "fst (HandleFtsMessage FTS_MSG_PROBE env0 (\<lambda>_. None) port0
     (snd (HandleFtsMessage FTS_MSG_PROBE env0 (\<lambda>_. None) port0 (primary0\<lparr>probe_file := Some [1, 2, 3]\<rparr>)))) \<noteq> Inl DiskIOCheckFailed"
    using fts_disk_check_recovers[OF p surjective_pairing _ _ env0_checks(2)] by simp
qed

end
