(* ===== verification/Fts_Service.thy ===== *)
theory Fts_Service
  imports Fts_Catalog Cdb_Components Fts_Handler
begin

text \<open>
  The service (\<^verbatim>\<open>fts/fts.c\<close>) and the dispatcher's side of it (\<^verbatim>\<open>cdb/cdbfts.c\<close>): a pass of the service
  reads the configuration, publishes the status of the segments in shared memory, runs a probe cycle and bumps
  the version when the cycle changed the configuration; a dispatcher reads the published status.
\<close>


subsection \<open>The service\<close>

record fts_service =
  global :: fts_global
  fts_statusVersion :: "8 word"
  probeTick :: "8 word"
  probe_requested :: bool
  skipFtsProbe :: bool

text \<open>
  What a pass finds: the rows of the catalog as a scan returns them, what \<open>getCdbComponentInfo\<close> needs to read
  them, whether the fault that skips a probe is set, and the passes of the probe cycle.
\<close>

record pass_env =
  rows :: "CdbComponentDatabaseInfo list"
  components_env :: component_env
  FtsProbe_skip :: bool
  fts_gucs :: fts_guc
  rounds :: "nat \<Rightarrow> round_env"

datatype service_error = ComponentError component_error | CycleError fts_error

definition publish_status :: "CdbComponentDatabaseInfo list \<Rightarrow> fts_global \<Rightarrow> fts_global" where
  "publish_status segs g = for_range 0 (length segs) (\<lambda>i g.
     let segInfo = segs ! i; segStatus = (if SEGMENT_IS_ALIVE segInfo then FTS_STATUS_SET_UP 0 else 0)
     in g\<lparr>fts_status := (fts_status g)(dbid segInfo := segStatus)\<rparr>) g"

definition readCdbComponentInfoAndUpdateStatus ::
  "sorter \<Rightarrow> component_env \<Rightarrow> CdbComponentDatabaseInfo list \<Rightarrow> fts_service \<Rightarrow> component_error + CdbComponentDatabases \<times> fts_service" where
  "readCdbComponentInfoAndUpdateStatus qsort cenv rws s =
     result_bind (getCdbComponentInfo qsort cenv rws) (\<lambda>cdbs.
       let s = s\<lparr>global := publish_status (segment_db_info cdbs) (global s)\<rparr>;
           s = (if fts_statusVersion s = 0 then s\<lparr>fts_statusVersion := fts_statusVersion s + 1\<rparr> else s)
       in Inr (cdbs, s))"

definition gp_segment_config_has_mirrors :: "CdbComponentDatabaseInfo list \<Rightarrow> bool" where
  "gp_segment_config_has_mirrors rws \<longleftrightarrow> list_ex (\<lambda>r. segindex r \<noteq> - 1 \<and> role r = CHR ''m'') rws"

text \<open>The body of the loop of \<^verbatim>\<open>FtsLoop\<close>; an error ends the process.\<close>

definition FtsLoop_body :: "sorter \<Rightarrow> pass_env \<Rightarrow> fts_service \<Rightarrow> (service_error + fts_service) option" where
  "FtsLoop_body qsort env s =
     (case readCdbComponentInfoAndUpdateStatus qsort (components_env env) (rows env) s of
        Inl e \<Rightarrow> Some (Inl (ComponentError e))
      | Inr (cdbs, s) \<Rightarrow>
          (let has_mirrors = gp_segment_config_has_mirrors (rows env);
               s = s\<lparr>probe_requested := False, skipFtsProbe := FtsProbe_skip env\<rparr>
           in if skipFtsProbe s \<or> \<not> has_mirrors then Some (Inr (s\<lparr>probeTick := probeTick s + 1\<rparr>))
              else Option.bind (FtsWalRepMessageSegments (fts_gucs env) (rounds env) (segment_db_info cdbs) (global s)) (\<lambda>r.
                case r of
                  Inl e \<Rightarrow> Some (Inl (CycleError e))
                | Inr (updated_probe_state, g) \<Rightarrow>
                    (let s = s\<lparr>global := g\<rparr>;
                         s = (if updated_probe_state then s\<lparr>fts_statusVersion := fts_statusVersion s + 1\<rparr> else s)
                     in Some (Inr (s\<lparr>probeTick := probeTick s + 1\<rparr>))))))"


subsection \<open>The dispatcher\<close>

definition MASTER_SEGMENT_ID :: int where "MASTER_SEGMENT_ID = - 1"

definition FTS_STATUS_IS_UP :: "8 word \<Rightarrow> bool" where
  "FTS_STATUS_IS_UP st \<longleftrightarrow> st AND 1 \<noteq> 0"

definition FtsIsSegmentUp :: "fts_service \<Rightarrow> CdbComponentDatabaseInfo \<Rightarrow> bool" where
  "FtsIsSegmentUp s dBInfo =
     (if segindex dBInfo = MASTER_SEGMENT_ID then True
      else if fts_statusVersion s \<noteq> 0 then FTS_STATUS_IS_UP (fts_status (global s) (dbid dBInfo))
      else True)"

definition FtsTestSegmentDBIsDown :: "fts_service \<Rightarrow> CdbComponentDatabaseInfo list \<Rightarrow> bool" where
  "FtsTestSegmentDBIsDown s segdbDesc =
     (case for_return 0 (length segdbDesc) (\<lambda>i. if \<not> FtsIsSegmentUp s (segdbDesc ! i) then Some True else None) of
        Some r \<Rightarrow> r | None \<Rightarrow> False)"

definition getFtsVersion :: "fts_service \<Rightarrow> 8 word" where
  "getFtsVersion s = fts_statusVersion s"


subsection \<open>Publishing\<close>

lemma publish_simps [simp]: "config (publish_status segs g) = config g" "history (publish_status segs g) = history g"
proof -
  have "config (publish_status segs g) = config g \<and> history (publish_status segs g) = history g"
    unfolding publish_status_def
    by (rule for_range_induct[where P = "\<lambda>_ h. config h = config g \<and> history h = history g"]) (simp_all add: Let_def)
  then show "config (publish_status segs g) = config g" "history (publish_status segs g) = history g" by simp_all
qed

lemma publish_status_spec:
  assumes "distinct (map dbid segs)" "i < length segs"
  shows "fts_status (publish_status segs g) (dbid (segs ! i)) = (if SEGMENT_IS_ALIVE (segs ! i) then 1 else 0)"
proof -
  have "\<forall>i<length segs. fts_status (publish_status segs g) (dbid (segs ! i)) = (if SEGMENT_IS_ALIVE (segs ! i) then 1 else 0)"
    unfolding publish_status_def
  proof (rule for_range_induct[where P = "\<lambda>n h. \<forall>i<n. fts_status h (dbid (segs ! i)) = (if SEGMENT_IS_ALIVE (segs ! i) then 1 else 0)"])
    fix n h assume "n < length segs" "\<forall>i<n. fts_status h (dbid (segs ! i)) = (if SEGMENT_IS_ALIVE (segs ! i) then 1 else 0)"
    moreover have "dbid (segs ! i) \<noteq> dbid (segs ! n)" if "i < n" "n < length segs" for i
      using assms(1) that nth_eq_iff_index_eq[of "map dbid segs" i n] by simp
    ultimately show "\<forall>i<Suc n. fts_status (let segInfo = segs ! n; segStatus = if SEGMENT_IS_ALIVE segInfo then FTS_STATUS_SET_UP 0 else 0
       in h\<lparr>fts_status := (fts_status h)(dbid segInfo := segStatus)\<rparr>) (dbid (segs ! i)) = (if SEGMENT_IS_ALIVE (segs ! i) then 1 else 0)"
      by (auto simp: Let_def less_Suc_eq FTS_STATUS_SET_UP_def)
  qed simp_all
  then show ?thesis using assms(2) by blast
qed

lemma status_is_up: "FTS_STATUS_IS_UP st \<longleftrightarrow> bit st 0"
  by (simp add: FTS_STATUS_IS_UP_def bit_iff_and_push_bit_not_eq_0)

lemma first_some_Some: "first_some f xs = Some r \<Longrightarrow> \<exists>x\<in>set xs. f x = Some r"
  by (induction xs) (auto split: option.splits)

lemma segment_is_down_iff: "FtsTestSegmentDBIsDown s segs \<longleftrightarrow> (\<exists>x\<in>set segs. \<not> FtsIsSegmentUp s x)"
proof (cases "for_return 0 (length segs) (\<lambda>i. if \<not> FtsIsSegmentUp s (segs ! i) then Some True else None)")
  case None
  then have "\<not> FtsTestSegmentDBIsDown s segs" by (simp add: FtsTestSegmentDBIsDown_def)
  moreover have "\<forall>i<length segs. FtsIsSegmentUp s (segs ! i)"
    using None by (auto simp: for_return_def first_some_None_iff split: if_splits)
  ultimately show ?thesis by (auto simp: in_set_conv_nth)
next
  case (Some r)
  then obtain i where "i < length segs" "\<not> FtsIsSegmentUp s (segs ! i)" "r"
    by (auto simp: for_return_def dest!: first_some_Some split: if_splits)
  then show ?thesis using Some by (auto simp: FtsTestSegmentDBIsDown_def)
qed


subsection \<open>The catalog between passes\<close>

definition segments :: "fts_global \<Rightarrow> CdbComponentDatabaseInfo set" where
  "segments g = {r. config g (dbid r) = Some r \<and> is_segment r}"

text \<open>At most two rows of a content, and a primary with its mirror as \<open>pair_ok\<close> says.\<close>

definition pairs_ok :: "CdbComponentDatabaseInfo set \<Rightarrow> bool" where
  "pairs_ok S \<longleftrightarrow>
     (\<forall>x\<in>S. \<forall>y\<in>S. \<forall>z\<in>S. segindex y = segindex x \<longrightarrow> segindex z = segindex x \<longrightarrow> dbid y \<noteq> dbid x \<longrightarrow> dbid z \<noteq> dbid x \<longrightarrow> dbid y = dbid z) \<and>
     (\<forall>p\<in>S. \<forall>m\<in>S. SEGMENT_IS_ACTIVE_PRIMARY p \<longrightarrow> segindex m = segindex p \<longrightarrow> dbid m \<noteq> dbid p \<longrightarrow> pair_ok p m)"

definition has_primaries :: "CdbComponentDatabaseInfo set \<Rightarrow> bool" where
  "has_primaries S \<longleftrightarrow> (\<forall>s\<in>S. \<exists>p\<in>S. segindex p = segindex s \<and> SEGMENT_IS_ACTIVE_PRIMARY p)"

definition catalog_ok :: "fts_global \<Rightarrow> bool" where
  "catalog_ok g \<longleftrightarrow> (\<forall>d r. config g d = Some r \<longrightarrow> dbid r = d) \<and> pairs_ok (segments g) \<and> has_primaries (segments g)"

text \<open>A scan returns every row of the catalog once.\<close>

definition scanned :: "fts_global \<Rightarrow> CdbComponentDatabaseInfo list \<Rightarrow> bool" where
  "scanned g rws \<longleftrightarrow> distinct (map dbid rws) \<and> (\<forall>r. r \<in> set rws \<longleftrightarrow> config g (dbid r) = Some r)"

lemma cluster_ok_pairs: "cluster_ok cdbs g \<longleftrightarrow> distinct (map dbid cdbs) \<and> (\<forall>s\<in>set cdbs. view_ok g s) \<and> pairs_ok (set cdbs)"
  unfolding cluster_ok_def pairs_ok_def ..

lemma scanned_segments: "scanned g rws \<Longrightarrow> set (filter is_segment rws) = segments g"
  by (auto simp: scanned_def segments_def)

lemma sorted_segments:
  assumes "sorts qsort" "scanned g rws"
  shows "set (segment_db_info (components qsort env rws)) = segments g"
    "distinct (map dbid (segment_db_info (components qsort env rws)))"
proof -
  let ?s = "segment_db_info (components qsort env rws)"
  have eq: "?s = qsort CdbComponentDatabaseInfoCompare (filter is_segment rws)" by (simp add: components_def Let_def)
  have m: "mset ?s = mset (filter is_segment rws)" using assms(1) unfolding eq sorts_def by blast
  then show "set ?s = segments g" using scanned_segments[OF assms(2)] by (metis set_mset_mset)
  have "distinct (map dbid (filter is_segment rws))" using assms(2) by (simp add: scanned_def distinct_map_filter)
  moreover have "mset (map dbid ?s) = mset (map dbid (filter is_segment rws))" using m by (simp only: mset_map)
  ultimately show "distinct (map dbid ?s)" using mset_eq_imp_distinct_iff by blast
qed

lemma published_cluster:
  assumes "catalog_ok g" "set segs = segments g" "distinct (map dbid segs)"
  shows "cluster_ok segs (publish_status segs g)"
proof -
  have "view_ok (publish_status segs g) s" if mem: "s \<in> set segs" for s
  proof -
    obtain i where i: "i < length segs" "s = segs ! i" using mem by (auto simp: in_set_conv_nth)
    have "config g (dbid s) = Some s" using mem assms(2) by (simp add: segments_def)
    then show ?thesis using publish_status_spec[OF assms(3) i(1)] i(2) by (simp add: view_ok_def)
  qed
  then show ?thesis using assms by (simp add: cluster_ok_pairs catalog_ok_def)
qed

lemma row_kept_Some: "row_kept (Some t) x \<Longrightarrow> \<exists>t'. x = Some t' \<and> dbid t' = dbid t \<and> segindex t' = segindex t"
  by (cases x) auto

lemma row_kept_before: "row_kept x (Some t') \<Longrightarrow> \<exists>t. x = Some t \<and> dbid t' = dbid t \<and> segindex t' = segindex t"
  by (cases x) auto

lemma segments_reread:
  assumes "catalog_ok g" "set segs = segments g" "\<forall>d. row_kept (config g d) (config g' d)"
  shows "segments g' = set (reread g' segs)"
proof (rule set_eqI)
  fix r
  show "r \<in> segments g' \<longleftrightarrow> r \<in> set (reread g' segs)"
  proof
    assume "r \<in> segments g'"
    then have r: "config g' (dbid r) = Some r" "is_segment r" by (simp_all add: segments_def)
    obtain t where t: "config g (dbid r) = Some t" "segindex r = segindex t" "dbid r = dbid t"
      using row_kept_before[of "config g (dbid r)" r] assms(3) r(1) by metis
    then have "t \<in> set segs" using r(2) by (simp add: assms(2) segments_def is_segment_def)
    then show "r \<in> set (reread g' segs)" using t(3) r(1) by (force simp: reread_def)
  next
    assume "r \<in> set (reread g' segs)"
    then obtain t where t: "t \<in> segments g" "r = the (config g' (dbid t))" by (auto simp: reread_def assms(2))
    then obtain r' where "config g' (dbid t) = Some r'" "dbid r' = dbid t" "segindex r' = segindex t"
      using row_kept_Some[of t "config g' (dbid t)"] assms(3) by (auto simp: segments_def) metis
    then show "r \<in> segments g'" using t by (simp add: segments_def is_segment_def)
  qed
qed

lemma outcome_primary:
  assumes "outcome p m g"
  shows "SEGMENT_IS_ACTIVE_PRIMARY (the (config g (dbid p))) \<or> SEGMENT_IS_ACTIVE_PRIMARY (the (config g (dbid m)))"
  using outcome_reread(7)[OF assms] pair_primary by blast

lemma reread_primaries:
  assumes "cluster_ok segs g" "has_primaries (set segs)" "\<forall>p m. peers segs p m \<longrightarrow> outcome p m g'" "\<forall>s. unpaired segs s \<longrightarrow> view_ok g' s"
  shows "has_primaries (set (reread g' segs))"
  unfolding has_primaries_def
proof
  let ?f = "\<lambda>s. the (config g' (dbid s))"
  note e = reread_entry[OF assms(3,4)]
  fix s' assume "s' \<in> set (reread g' segs)"
  then obtain s where s: "s \<in> set segs" "s' = ?f s" by (auto simp: reread_def)
  obtain p where p: "p \<in> set segs" "segindex p = segindex s" "SEGMENT_IS_ACTIVE_PRIMARY p" using assms(2) s(1) by (auto simp: has_primaries_def)
  have "\<exists>q\<in>set segs. segindex q = segindex p \<and> SEGMENT_IS_ACTIVE_PRIMARY (?f q)"
  proof (cases "\<exists>m. peers segs p m")
    case True
    then obtain m where m: "peers segs p m" by blast
    then have "m \<in> set segs" "segindex m = segindex p" by (simp_all add: peers_def)
    then show ?thesis using outcome_primary assms(3) m p(1) by blast
  next
    case False
    have "\<not> peers segs t p" for t
    proof
      assume t: "peers segs t p"
      then have "pair_ok t p" using peers_pair_ok[OF assms(1)] by blast
      then show False using pair_primary p(3) by blast
    qed
    then have "unpaired segs p" using False p(1) by (simp add: unpaired_def)
    then have "?f p = p" using assms(4) view_reread by blast
    then show ?thesis using p by auto
  qed
  then obtain q where q: "q \<in> set segs" "segindex q = segindex p" "SEGMENT_IS_ACTIVE_PRIMARY (?f q)" by blast
  then have "segindex (?f q) = segindex s'" using e[OF q(1)] e[OF s(1)] p(2) s(2) by simp
  then show "\<exists>p\<in>set (reread g' segs). segindex p = segindex s' \<and> SEGMENT_IS_ACTIVE_PRIMARY p" using q by (auto simp: reread_def)
qed

text \<open>A cycle takes a good catalog to a good catalog whose segments are published as they are.\<close>

lemma cycle_catalog:
  assumes "catalog_ok g" "set segs = segments g" "distinct (map dbid segs)"
    "FtsWalRepMessageSegments guc envs segs (publish_status segs g) = Some (Inr (u, g'))"
    "\<forall>k. truthful (envs k)" "shutdown_final envs" "0 \<le> gp_fts_probe_retries guc"
  shows "catalog_ok g' \<and> (\<forall>r\<in>segments g'. bit (fts_status g' (dbid r)) 0 = SEGMENT_IS_ALIVE r)"
proof -
  note cl = published_cluster[OF assms(1-3)]
  have out: "\<forall>p m. peers segs p m \<longrightarrow> outcome p m g'" "\<forall>s. unpaired segs s \<longrightarrow> view_ok g' s"
    using cycle_result[OF assms(4) cl assms(5-7)] by auto
  have kept: "\<forall>d. row_kept (config g d) (config g' d)" using cycle_writes[OF assms(4)] by (simp add: writes_def)
  note segs' = segments_reread[OF assms(1,2) kept]
  have "dbid r = d" if "config g' d = Some r" for d r
    using row_kept_before[of "config g d" r] kept that assms(1) unfolding catalog_ok_def by metis
  moreover have cl': "cluster_ok (reread g' segs) g'" by (rule reread_cluster_ok[OF cl out])
  moreover have "has_primaries (segments g')"
    unfolding segs' using reread_primaries[OF cl _ out] assms(1,2) by (simp add: catalog_ok_def)
  ultimately have "catalog_ok g'" by (simp add: catalog_ok_def segs' cluster_ok_pairs)
  then show ?thesis using cl' unfolding segs' cluster_ok_pairs view_ok_def by blast
qed


text \<open>
  The size \<^verbatim>\<open>FtsWalRepInitProbeContext\<close> computes for its array of entries: the number of contents less the
  primaries without a mirror.  With one primary in every content the entries fill it exactly; without
  that it would have entries that were never set, or too few.
\<close>

definition num_pairs :: "int \<Rightarrow> CdbComponentDatabaseInfo list \<Rightarrow> int" where
  "num_pairs contents_no segs = for_range 0 (length segs) (\<lambda>i n.
     if SEGMENT_IS_ACTIVE_PRIMARY (segs ! i) \<and> FtsGetPeerSegment segs (segindex (segs ! i)) (dbid (segs ! i)) = None
     then n - 1 else n) contents_no"

lemma count_down: "for_range 0 (length xs) (\<lambda>i n. if P (xs ! i) then n - 1 else n) k = k - int (length (filter P xs))" for k :: int
proof (induction xs rule: rev_induct)
  case (snoc x xs)
  have "for_range 0 (length xs) (\<lambda>i n. if P ((xs @ [x]) ! i) then n - 1 else n) k =
      for_range 0 (length xs) (\<lambda>i n. if P (xs ! i) then n - 1 else n) k"
    unfolding for_range_def by (intro fold_cong) (auto simp: nth_append)
  then show ?case using snoc by (simp add: for_range_Suc)
qed simp

lemma probe_array_filled:
  assumes "cluster_ok segs g" "has_primaries (set segs)"
  shows "num_pairs (int (card (segindex ` set segs))) segs = int (length (FtsWalRepInitProbeContext segs))"
proof -
  let ?P = "filter SEGMENT_IS_ACTIVE_PRIMARY segs"
  let ?peer = "\<lambda>p. FtsGetPeerSegment segs (segindex p) (dbid p)"
  have "p = q" if "p \<in> set ?P" "q \<in> set ?P" "segindex p = segindex q" for p q
  proof (rule ccontr)
    assume "p \<noteq> q"
    then have "dbid q \<noteq> dbid p" using that cluster_same[OF assms(1), of p q] by auto
    then have "pair_ok p q" using that peers_pair_ok[OF assms(1), of p q] by (simp add: peers_def)
    then show False using pair_primary that(2) by auto
  qed
  then have inj: "inj_on segindex (set ?P)" by (simp add: inj_on_def)
  have "segindex x \<in> segindex ` set ?P" if mem: "x \<in> set segs" for x
  proof -
    obtain q where "q \<in> set ?P" "segindex q = segindex x" using assms(2) mem by (auto simp: has_primaries_def)
    then show ?thesis by (metis imageI)
  qed
  then have "segindex ` set segs = segindex ` set ?P" by auto
  moreover have "distinct ?P" using assms(1) by (simp add: cluster_ok_pairs distinct_map)
  ultimately have "card (segindex ` set segs) = length ?P" using card_image[OF inj] distinct_card by metis
  moreover have "length (probe_pairs segs xs) = length (filter (\<lambda>p. SEGMENT_IS_ACTIVE_PRIMARY p \<and> ?peer p \<noteq> None) xs)" for xs
    by (induction xs) (auto simp: probe_pairs_def split: option.splits)
  moreover have "length (filter SEGMENT_IS_ACTIVE_PRIMARY xs) = length (filter (\<lambda>p. SEGMENT_IS_ACTIVE_PRIMARY p \<and> ?peer p \<noteq> None) xs) +
    length (filter (\<lambda>p. SEGMENT_IS_ACTIVE_PRIMARY p \<and> ?peer p = None) xs)" for xs
    by (induction xs) auto
  moreover have "num_pairs k segs = k - int (length (filter (\<lambda>p. SEGMENT_IS_ACTIVE_PRIMARY p \<and> ?peer p = None) segs))" for k
    unfolding num_pairs_def by (rule count_down[where P = "\<lambda>p. SEGMENT_IS_ACTIVE_PRIMARY p \<and> ?peer p = None"])
  ultimately show ?thesis by (simp add: init_probe_pairs)
qed


subsection \<open>A pass\<close>

definition safe_env :: "pass_env \<Rightarrow> bool" where
  "safe_env env \<longleftrightarrow> (\<forall>k. truthful (rounds env k)) \<and> shutdown_final (rounds env) \<and> 0 \<le> gp_fts_probe_retries (fts_gucs env)"

text \<open>The state before the probe cycle.\<close>

definition read_state :: "sorter \<Rightarrow> pass_env \<Rightarrow> fts_service \<Rightarrow> fts_service" where
  "read_state qsort env s = s\<lparr>global := publish_status (segment_db_info (components qsort (components_env env) (rows env))) (global s),
     fts_statusVersion := (if fts_statusVersion s = 0 then 1 else fts_statusVersion s),
     probe_requested := False, skipFtsProbe := FtsProbe_skip env\<rparr>"

lemma read_state_global: "global (read_state qsort env s) =
    publish_status (segment_db_info (components qsort (components_env env) (rows env))) (global s)"
  by (simp add: read_state_def)

lemma body_cases:
  fixes s :: fts_service
  assumes "sorts qsort" "valid_rows (components_env env) (rows env)"
  defines "segs \<equiv> segment_db_info (components qsort (components_env env) (rows env))" and "t \<equiv> read_state qsort env s"
  shows "FtsLoop_body qsort env s =
    (if FtsProbe_skip env \<or> \<not> gp_segment_config_has_mirrors (rows env) then Some (Inr (t\<lparr>probeTick := probeTick s + 1\<rparr>))
     else Option.bind (FtsWalRepMessageSegments (fts_gucs env) (rounds env) segs (global t)) (\<lambda>r. case r of
       Inl e \<Rightarrow> Some (Inl (CycleError e))
     | Inr (u, g) \<Rightarrow> Some (Inr (t\<lparr>global := g, fts_statusVersion := fts_statusVersion t + (if u then 1 else 0), probeTick := probeTick s + 1\<rparr>))))"
proof -
  have "getCdbComponentInfo qsort (components_env env) (rows env) = Inr (components qsort (components_env env) (rows env))"
    using getCdbComponentInfo_spec[OF assms(1)] assms(2) by blast
  then have "readCdbComponentInfoAndUpdateStatus qsort (components_env env) (rows env) s = Inr (components qsort (components_env env) (rows env),
    s\<lparr>global := publish_status segs (global s), fts_statusVersion := (if fts_statusVersion s = 0 then 1 else fts_statusVersion s)\<rparr>)"
    by (simp add: readCdbComponentInfoAndUpdateStatus_def segs_def Let_def)
  then show ?thesis
    by (auto simp: FtsLoop_body_def t_def read_state_def segs_def Let_def fun_eq_iff intro!: arg_cong2[where f = Option.bind] split: sum.splits)
qed

text \<open>A pass that returns: the state it leaves, with whether the cycle changed the configuration.\<close>

lemma body_returns:
  fixes s s' :: fts_service
  assumes "sorts qsort" "FtsLoop_body qsort env s = Some (Inr s')"
  defines "segs \<equiv> segment_db_info (components qsort (components_env env) (rows env))" and "t \<equiv> read_state qsort env s"
  obtains u where "valid_rows (components_env env) (rows env)" "changes u (global t) (global s')"
    "fts_statusVersion s' = fts_statusVersion t + (if u then 1 else 0)" "probeTick s' = probeTick s + 1"
    "global s' = global t \<and> \<not> u \<or> FtsWalRepMessageSegments (fts_gucs env) (rounds env) segs (global t) = Some (Inr (u, global s'))"
proof -
  have valid: "valid_rows (components_env env) (rows env)"
    using assms(2) getCdbComponentInfo_spec[OF assms(1), of "components_env env" "rows env"]
    by (cases "getCdbComponentInfo qsort (components_env env) (rows env)")
      (auto simp: FtsLoop_body_def readCdbComponentInfoAndUpdateStatus_def)
  note body = body_cases[OF assms(1) valid, of s, folded segs_def t_def]
  show thesis
  proof (cases "FtsProbe_skip env \<or> \<not> gp_segment_config_has_mirrors (rows env)")
    case True
    then have "s' = t\<lparr>probeTick := probeTick s + 1\<rparr>" using assms(2) body by simp
    then show thesis using that[of False] valid by (simp add: changes_def)
  next
    case False
    then obtain r where r: "FtsWalRepMessageSegments (fts_gucs env) (rounds env) segs (global t) = Some r"
      "(case r of Inl e \<Rightarrow> Some (Inl (CycleError e)) | Inr (u, g) \<Rightarrow> Some (Inr (t\<lparr>global := g,
        fts_statusVersion := fts_statusVersion t + (if u then 1 else 0), probeTick := probeTick s + 1\<rparr>))) = Some (Inr s')"
      using assms(2) body by (auto simp: bind_eq_Some_conv)
    then obtain u g where c: "FtsWalRepMessageSegments (fts_gucs env) (rounds env) segs (global t) = Some (Inr (u, g))"
      "s' = t\<lparr>global := g, fts_statusVersion := fts_statusVersion t + (if u then 1 else 0), probeTick := probeTick s + 1\<rparr>"
      by (cases r) auto
    then show thesis using that[of u] valid cycle_writes[OF c(1)] by simp
  qed
qed

lemma published_bits:
  assumes "set segs = segments g" "distinct (map dbid segs)" "r \<in> segments (publish_status segs g)"
  shows "bit (fts_status (publish_status segs g) (dbid r)) 0 = SEGMENT_IS_ALIVE r"
proof -
  have "r \<in> set segs" using assms(1,3) by (simp add: segments_def)
  then obtain i where "i < length segs" "r = segs ! i" by (auto simp: in_set_conv_nth)
  then show ?thesis using publish_status_spec[OF assms(2), of i g] by simp
qed

lemma body_catalog:
  assumes "sorts qsort" "catalog_ok (global s)" "scanned (global s) (rows env)" "safe_env env" "FtsLoop_body qsort env s = Some (Inr s')"
  shows "catalog_ok (global s') \<and> (\<forall>r\<in>segments (global s'). bit (fts_status (global s') (dbid r)) 0 = SEGMENT_IS_ALIVE r)"
proof -
  let ?segs = "segment_db_info (components qsort (components_env env) (rows env))"
  have segs: "set ?segs = segments (global s)" "distinct (map dbid ?segs)" using sorted_segments[OF assms(1,3)] by blast+
  have t: "global (read_state qsort env s) = publish_status ?segs (global s)" by (simp add: read_state_def)
  have env: "\<forall>k. truthful (rounds env k)" "shutdown_final (rounds env)" "0 \<le> gp_fts_probe_retries (fts_gucs env)"
    using assms(4) by (simp_all add: safe_env_def)
  have same: "segments (publish_status ?segs (global s)) = segments (global s)" by (simp add: segments_def)
  obtain u where "global s' = publish_status ?segs (global s) \<or>
    FtsWalRepMessageSegments (fts_gucs env) (rounds env) ?segs (publish_status ?segs (global s)) = Some (Inr (u, global s'))"
    using body_returns[OF assms(1,5)] unfolding t by metis
  then show ?thesis
  proof
    assume g: "global s' = publish_status ?segs (global s)"
    have "catalog_ok (global s')" unfolding g using assms(2) by (simp add: catalog_ok_def same)
    then show ?thesis unfolding g using published_bits[OF segs] by blast
  next
    assume "FtsWalRepMessageSegments (fts_gucs env) (rounds env) ?segs (publish_status ?segs (global s)) = Some (Inr (u, global s'))"
    then show ?thesis using cycle_catalog[OF assms(2) segs _ env] by blast
  qed
qed

lemma up_iff_published: "is_segment r \<Longrightarrow> FtsIsSegmentUp s r \<longleftrightarrow> fts_statusVersion s = 0 \<or> bit (fts_status (global s) (dbid r)) 0"
  by (simp add: FtsIsSegmentUp_def status_is_up MASTER_SEGMENT_ID_def is_segment_def)

lemma body_ends:
  assumes "sorts qsort" "catalog_ok (global s)" "scanned (global s) (rows env)" "valid_rows (components_env env) (rows env)"
    "well_behaved (fts_gucs env) (rounds env)"
  shows "\<exists>s'. FtsLoop_body qsort env s = Some (Inr s')"
proof -
  let ?segs = "segment_db_info (components qsort (components_env env) (rows env))"
  note segs = sorted_segments[OF assms(1,3), of "components_env env"]
  obtain u g where "FtsWalRepMessageSegments (fts_gucs env) (rounds env) ?segs (global (read_state qsort env s)) = Some (Inr (u, g))"
    using cycle_returns[OF published_cluster[OF assms(2) segs] assms(5)] by (auto simp: read_state_def)
  then show ?thesis
    using body_cases[OF assms(1,4), of s] by (cases "FtsProbe_skip env \<or> \<not> gp_segment_config_has_mirrors (rows env)") auto
qed


subsection \<open>Properties\<close>

text \<open>
  C10: A pass of the service ends when the catalog can be read and libpq, the clock and the segments behave as
  documented.  It leaves a good catalog, ticks once, and from then on a dispatcher is told that a segment is
  up exactly when the catalog says so, as long as the version is not 0.  The version, an 8-bit counter that
  uses 0 for a status that has not been published, wraps to 0 when a pass changes the configuration at
  version 255; then every segment is reported as up.
\<close>

theorem fts_pass_publishes:
  assumes "sorts qsort" "catalog_ok (global s)" "scanned (global s) (rows env)" "valid_rows (components_env env) (rows env)"
    "well_behaved (fts_gucs env) (rounds env)"
  shows "\<exists>s'. FtsLoop_body qsort env s = Some (Inr s') \<and> catalog_ok (global s') \<and> probeTick s' = probeTick s + 1 \<and>
    (\<forall>r. r \<in> segments (global s') \<longrightarrow> FtsIsSegmentUp s' r = (fts_statusVersion s' = 0 \<or> SEGMENT_IS_ALIVE r)) \<and>
    (fts_statusVersion s' = 0 \<longleftrightarrow> fts_statusVersion s = 255 \<and> history (global s') \<noteq> history (global s))"
proof -
  let ?segs = "segment_db_info (components qsort (components_env env) (rows env))"
  have safe: "safe_env env" using assms(5) by (simp add: safe_env_def well_behaved_def)
  have t: "global (read_state qsort env s) = publish_status ?segs (global s)" by (simp add: read_state_def)
  obtain s' where s': "FtsLoop_body qsort env s = Some (Inr s')" using body_ends[OF assms] by blast
  obtain v where v: "changes v (publish_status ?segs (global s)) (global s')" "probeTick s' = probeTick s + 1"
    "fts_statusVersion s' = (if fts_statusVersion s = 0 then 1 else fts_statusVersion s) + (if v then 1 else 0)"
    using body_returns[OF assms(1) s'] unfolding t by (auto simp: read_state_def)
  have v': "v \<longleftrightarrow> history (global s') \<noteq> history (global s)" using v(1) by (auto simp: changes_def split: if_splits)
  have "(- 1 :: 8 word) = 255" by code_simp
  then have "fts_statusVersion s + 1 = 0 \<longleftrightarrow> fts_statusVersion s = 255" by (metis eq_neg_iff_add_eq_0)
  then have "fts_statusVersion s' = 0 \<longleftrightarrow> fts_statusVersion s = 255 \<and> v" unfolding v(3) by auto
  then show ?thesis using s' v(2) v' body_catalog[OF assms(1-3) safe s'] up_iff_published by (auto simp: segments_def)
qed

text \<open>
  An environment in which no connection can be opened, and the catalog of one primary with its mirror, in
  sync.
\<close>

abbreviation refused :: pg_conn where
  "refused \<equiv> \<lparr>conn_status = CONNECTION_BAD, asyncStatus = PGASYNC_IDLE, errorMessage = NotInRecovery\<rparr>"

abbreviation refusing :: seg_env where
  "refusing \<equiv> \<lparr>PQconnectStart = Some refused, start_time = 0, PQconnectPoll = (PGRES_POLLING_FAILED, refused), revents = 0,
     PQsendQuery = (False, refused), PQconsumeInput = (False, refused), PQisBusy = (False, refused), PQgetResult = (None, refused)\<rparr>"

abbreviation pass_env0 :: pass_env where
  "pass_env0 \<equiv> \<lparr>rows = rows0, components_env = component_env0, FtsProbe_skip = False,
     fts_gucs = \<lparr>gp_fts_probe_retries = 0, gp_fts_probe_timeout = 20\<rparr>,
     rounds = (\<lambda>k. \<lparr>seg = (\<lambda>_. refusing), poll_failed = False, poll_time = int k, retry_time = int k, active = True,
       active_response = (\<lambda>_. True)\<rparr>)\<rparr>"

abbreviation service0 :: fts_service where
  "service0 \<equiv> \<lparr>global = \<lparr>config = map_of (map (\<lambda>r. (dbid r, r)) rows0), history = [], fts_status = (\<lambda>_. 0)\<rparr>,
     fts_statusVersion = 0, probeTick = 0, probe_requested = False, skipFtsProbe = False\<rparr>"

lemma segments0: "segments (global service0) = set (tl rows0)"
  by (auto simp: segments_def is_segment_def split: if_splits)

lemma scanned0: "scanned (global service0) rows0"
  by (auto simp: scanned_def split: if_splits)

lemma catalog0: "catalog_ok (global service0)"
  unfolding catalog_ok_def segments0
  by (auto simp: pairs_ok_def has_primaries_def pair_ok_def SEGMENT_IS_ACTIVE_PRIMARY_def SEGMENT_IS_ALIVE_def config_chars split: if_splits)

lemma ticking_int: "ticking int"
proof -
  have "B < int (nat B + 1)" for B by linarith
  then have "\<forall>B. \<exists>n. B < int n" by blast
  then show ?thesis by (simp add: ticking_def)
qed

lemma behaved0: "well_behaved (fts_gucs pass_env0) (rounds pass_env0)"
  using ticking_int by (simp add: well_behaved_def truthful_def shutdown_final_def libpq_ok_def)

lemmas start0 = insertion_sorts catalog0 scanned0 valid_rows0 behaved0

theorem fts_pass_publishes_witness:
  "\<exists>s'. FtsLoop_body insertion_sort pass_env0 service0 = Some (Inr s') \<and> catalog_ok (global s') \<and> fts_statusVersion s' \<noteq> 0"
  using fts_pass_publishes[of insertion_sort service0 pass_env0] start0 by auto

text \<open>The states the service goes through.\<close>

inductive serves :: "sorter \<Rightarrow> fts_service \<Rightarrow> fts_service \<Rightarrow> bool" for qsort where
  serves_start: "serves qsort s s"
| serves_pass: "serves qsort s t \<Longrightarrow> scanned (global t) (rows env) \<Longrightarrow> safe_env env \<Longrightarrow>
    FtsLoop_body qsort env t = Some (Inr u) \<Longrightarrow> serves qsort s u"

inductive_cases serves_cases: "serves qsort s t"

definition published :: "fts_service \<Rightarrow> bool" where
  "published s \<longleftrightarrow> fts_statusVersion s = 0 \<or> (\<forall>r\<in>segments (global s). bit (fts_status (global s) (dbid r)) 0 = SEGMENT_IS_ALIVE r)"

lemma serves_invariant:
  assumes "serves qsort s t" "sorts qsort" "catalog_ok (global s)" "published s"
  shows "catalog_ok (global t) \<and> published t"
  using assms(1,3,4)
proof (induction rule: serves.induct)
  case (serves_pass s t env u)
  then show ?case using body_catalog[OF assms(2) _ serves_pass.hyps(2-4)] unfolding published_def by blast
qed simp

text \<open>
  C11: Invariant of the service, over any number of passes with truthful segments: every content keeps a primary,
  a content has at most two rows, a primary is up and its mirror is a mirror with the same mode, and what
  a dispatcher is told about a list of segments is what the catalog says: it is told that one of them is down
  exactly when the version is set and the catalog marks one of them down.
\<close>

theorem fts_service_invariant:
  assumes "serves qsort s t" "sorts qsort" "catalog_ok (global s)" "fts_statusVersion s = 0" "set segs \<subseteq> segments (global t)"
  shows "catalog_ok (global t) \<and>
    FtsTestSegmentDBIsDown t segs = (getFtsVersion t \<noteq> 0 \<and> \<not> list_all SEGMENT_IS_ALIVE segs)"
proof -
  have inv: "catalog_ok (global t)" "published t" using serves_invariant[OF assms(1-3)] assms(4) by (simp_all add: published_def)
  have "FtsIsSegmentUp t r = (fts_statusVersion t = 0 \<or> SEGMENT_IS_ALIVE r)" if "r \<in> set segs" for r
    using that assms(5) inv(2) up_iff_published[of r t] by (auto simp: published_def segments_def)
  then show ?thesis using inv(1) by (auto simp: segment_is_down_iff getFtsVersion_def list_all_iff)
qed

theorem fts_service_invariant_witness:
  "\<exists>t. serves insertion_sort service0 t \<and> t \<noteq> service0 \<and> catalog_ok (global t) \<and> \<not> FtsTestSegmentDBIsDown t []"
proof -
  obtain t where t: "FtsLoop_body insertion_sort pass_env0 service0 = Some (Inr t)"
    using body_ends[of insertion_sort service0 pass_env0] start0 by auto
  have run: "serves insertion_sort service0 t"
    using serves_pass[OF serves_start _ _ t] scanned0 behaved0 by (simp add: safe_env_def well_behaved_def)
  have "probeTick t = 1" by (rule body_returns[OF insertion_sorts t]) simp
  then have "t \<noteq> service0" by auto
  then show ?thesis using fts_service_invariant[OF run insertion_sorts catalog0, of "[]"] run by auto
qed

text \<open>
  C12: The catalog stays well typed, in any environment: a pass that returns leaves every row it may have
  written with a role, a status and a mode of the catalog's values, adds no row and removes none, never changes
  the identifiers of a row, does not touch the rows of entry databases, and appends to the history entries of
  those values only.
\<close>

theorem fts_pass_typed:
  assumes "sorts qsort" "FtsLoop_body qsort env s = Some (Inr s')" "\<And>d r. config (global s) d = Some r \<Longrightarrow> dbid r = d \<and> typed_row r"
    "scanned (global s) (rows env)"
  shows "dom (config (global s')) = dom (config (global s)) \<and>
    (\<forall>d r r'. config (global s) d = Some r \<longrightarrow> config (global s') d = Some r' \<longrightarrow>
       dbid r' = d \<and> segindex r' = segindex r \<and> typed_row r' \<and> (\<not> is_segment r \<longrightarrow> r' = r)) \<and>
    (\<exists>es. history (global s') = history (global s) @ es \<and> list_all (\<lambda>(db, content, r, st, m). typed r st m) es)"
proof -
  let ?segs = "segment_db_info (components qsort (components_env env) (rows env))"
  let ?g = "publish_status ?segs (global s)" and ?D = "dbid ` set ?segs"
  have "writes ?D ?g (global s')"
    by (rule body_returns[OF assms(1,2)]) (use cycle_writes in \<open>auto simp: read_state_def\<close>)
  then have w: "\<And>d. d \<notin> ?D \<Longrightarrow> config (global s') d = config (global s) d" "\<And>d. row_kept (config (global s) d) (config (global s') d)"
    "\<exists>es. history (global s') = history (global s) @ es \<and> list_all (\<lambda>(db, content, r, st, m). db \<in> ?D \<and> typed r st m) es"
    by (auto simp: writes_def)
  have "config (global s') d = None \<longleftrightarrow> config (global s) d = None" for d
    using w(2)[of d] by (cases "config (global s) d"; cases "config (global s') d") auto
  then have dom: "dom (config (global s')) = dom (config (global s))" by (auto simp: dom_def)
  have rows: "dbid r' = d \<and> segindex r' = segindex r \<and> typed_row r' \<and> (\<not> is_segment r \<longrightarrow> r' = r)"
    if r: "config (global s) d = Some r" "config (global s') d = Some r'" for d r r'
  proof -
    have "r' = r" if "\<not> is_segment r"
    proof -
      have "is_segment t" if "t \<in> set ?segs" "dbid t = d" for t
        using that sorted_segments(1)[OF assms(1,4), of "components_env env"] by (simp add: segments_def)
      moreover have "r = t" if "t \<in> set ?segs" "dbid t = d" for t
        using that sorted_segments(1)[OF assms(1,4), of "components_env env"] r(1) by (simp add: segments_def)
      ultimately have "d \<notin> ?D" using \<open>\<not> is_segment r\<close> by blast
      then show ?thesis using w(1) r by simp
    qed
    moreover have "row_kept (Some r) (Some r')" using w(2)[of d] unfolding r .
    ultimately show ?thesis using assms(3)[OF r(1)] by auto
  qed
  obtain es where es: "history (global s') = history (global s) @ es"
    "list_all (\<lambda>(db, content, r, st, m). db \<in> ?D \<and> typed r st m) es" using w(3) by blast
  have "list_all (\<lambda>(db, content, r, st, m). typed r st m) es" using es(2) by (rule list.pred_mono_strong) auto
  then show ?thesis using dom rows es(1) by blast
qed

lemma typed0: "config (global service0) d = Some r \<Longrightarrow> dbid r = d \<and> typed_row r"
  by (auto simp: typed_row_def typed_def config_chars split: if_splits)

theorem fts_pass_typed_witness:
  "\<exists>s'. FtsLoop_body insertion_sort pass_env0 service0 = Some (Inr s') \<and> dom (config (global s')) = {1, 2, 3}"
proof -
  obtain s' where s': "FtsLoop_body insertion_sort pass_env0 service0 = Some (Inr s')"
    using body_ends[of insertion_sort service0 pass_env0] start0 by auto
  have scan: "scanned (global service0) (rows pass_env0)" using scanned0 by simp
  have "dom (config (global s')) = dom (config (global service0))"
    using fts_pass_typed[OF insertion_sorts s' typed0 scan] by (rule conjunct1)
  also have "\<dots> = {1, 2, 3}" by (auto simp: dom_def split: if_splits)
  finally have "dom (config (global s')) = {1, 2, 3}" .
  with s' show ?thesis by (intro exI conjI)
qed

text \<open>
  C9: Failover is safe: after a pass a primary and its mirror have kept their roles and the primary is up, or the
  roles are exchanged, the old primary is marked down, and the mirror that took over was up and in sync in
  the catalog before the pass.  There is never a content with two primaries or none.
\<close>

theorem fts_failover_safe:
  assumes "sorts qsort" "catalog_ok (global s)" "scanned (global s) (rows env)" "safe_env env" "FtsLoop_body qsort env s = Some (Inr s')"
    "p \<in> segments (global s)" "m \<in> segments (global s)" "SEGMENT_IS_ACTIVE_PRIMARY p" "segindex m = segindex p" "dbid m \<noteq> dbid p"
  shows "\<exists>p' m'. config (global s') (dbid p) = Some p' \<and> config (global s') (dbid m) = Some m' \<and>
    (role p' = GP_SEGMENT_CONFIGURATION_ROLE_PRIMARY \<and> role m' = GP_SEGMENT_CONFIGURATION_ROLE_MIRROR \<and> SEGMENT_IS_ALIVE p' \<or>
     role p' = GP_SEGMENT_CONFIGURATION_ROLE_MIRROR \<and> role m' = GP_SEGMENT_CONFIGURATION_ROLE_PRIMARY \<and> SEGMENT_IS_ALIVE m' \<and>
       \<not> SEGMENT_IS_ALIVE p' \<and> \<not> SEGMENT_IS_IN_SYNC m' \<and> SEGMENT_IS_ALIVE m \<and> SEGMENT_IS_IN_SYNC m)"
proof -
  let ?segs = "segment_db_info (components qsort (components_env env) (rows env))"
  note segs = sorted_segments[OF assms(1,3), of "components_env env"]
  note cl = published_cluster[OF assms(2) segs]
  have pm: "peers ?segs p m" using assms(6-10) by (simp add: peers_def segs(1))
  then have pair: "pair_ok p m" using peers_pair_ok[OF cl] by blast
  have view: "view_ok (publish_status ?segs (global s)) p" "view_ok (publish_status ?segs (global s)) m"
    using cl pm by (simp_all add: cluster_ok_pairs peers_def)
  obtain u where "global s' = publish_status ?segs (global s) \<or>
    FtsWalRepMessageSegments (fts_gucs env) (rounds env) ?segs (publish_status ?segs (global s)) = Some (Inr (u, global s'))"
    using body_returns[OF assms(1,5)] by (metis read_state_global)
  then have "outcome p m (global s')"
  proof
    assume "global s' = publish_status ?segs (global s)"
    then show ?thesis using view pair by (auto simp: outcome_def)
  next
    assume "FtsWalRepMessageSegments (fts_gucs env) (rounds env) ?segs (publish_status ?segs (global s)) = Some (Inr (u, global s'))"
    from cycle_result[OF this cl] show ?thesis using assms(4) pm by (simp add: safe_env_def)
  qed
  then obtain p' m' where o: "dbid p' = dbid p" "dbid m' = dbid m" "view_ok (global s') p'" "view_ok (global s') m'"
    "pair_ok p' m' \<or> SEGMENT_IS_IN_SYNC m \<and> \<not> SEGMENT_IS_ALIVE p' \<and> pair_ok m' p'" unfolding outcome_def by blast
  have c: "config (global s') (dbid p) = Some p'" "config (global s') (dbid m) = Some m'" using o(1-4) by (simp_all add: view_ok_def)
  have "SEGMENT_IS_IN_SYNC m \<longrightarrow> SEGMENT_IS_ALIVE m" using pair by (simp add: pair_ok_def)
  moreover have "\<not> SEGMENT_IS_ALIVE p' \<Longrightarrow> pair_ok m' p' \<Longrightarrow> \<not> SEGMENT_IS_IN_SYNC m'" by (auto simp: pair_ok_def SEGMENT_IS_IN_SYNC_def)
  ultimately show ?thesis using c o(5) unfolding pair_ok_def by blast
qed

theorem fts_failover_safe_witness:
  "\<exists>s' p' m'. FtsLoop_body insertion_sort pass_env0 service0 = Some (Inr s') \<and>
     config (global s') 2 = Some p' \<and> config (global s') 3 = Some m' \<and> role p' \<noteq> role m'"
proof -
  obtain s' where s': "FtsLoop_body insertion_sort pass_env0 service0 = Some (Inr s')"
    using body_ends[of insertion_sort service0 pass_env0] start0 by auto
  have env: "scanned (global service0) (rows pass_env0)" "safe_env pass_env0"
    using scanned0 behaved0 by (simp_all add: safe_env_def well_behaved_def)
  have mem: "rows0 ! 2 \<in> segments (global service0)" "rows0 ! 1 \<in> segments (global service0)" unfolding segments0 by simp_all
  have "\<exists>p' m'. config (global s') (dbid (rows0 ! 2)) = Some p' \<and> config (global s') (dbid (rows0 ! 1)) = Some m' \<and> role p' \<noteq> role m'"
    using fts_failover_safe[OF insertion_sorts catalog0 env s' mem] by (auto simp: SEGMENT_IS_ACTIVE_PRIMARY_def config_chars)
  then show ?thesis using s' by auto
qed

end
