(* ===== verification/Shm_Queue.thy ===== *)
theory Shm_Queue
  imports GP_Prelude
begin

text \<open>
  The doubly-linked lists in shared memory (\<^verbatim>\<open>storage/ipc/shmqueue.c\<close>).  A queue is a ring of links with a
  head; an element that is in no queue has null links.

  The memory maps the address of a pair of links to its contents, and \<open>None\<close> is the null pointer.  The
  operations return \<open>None\<close> when they follow a null pointer.  \<^verbatim>\<open>SHMQueueNext\<close> and \<^verbatim>\<open>SHMQueuePrev\<close> return the
  address of the links; to step back from it to the structure that holds them is left to the caller, who
  knows the offset.
\<close>


subsection \<open>Operations\<close>

record 'a SHM_QUEUE =
  q_prev :: "'a option"
  q_next :: "'a option"

type_synonym 'a shm = "'a \<Rightarrow> 'a SHM_QUEUE"

definition set_prev :: "'a \<Rightarrow> 'a option \<Rightarrow> 'a shm \<Rightarrow> 'a shm" where
  "set_prev a x h = h(a := (h a)\<lparr>q_prev := x\<rparr>)"

definition set_next :: "'a \<Rightarrow> 'a option \<Rightarrow> 'a shm \<Rightarrow> 'a shm" where
  "set_next a x h = h(a := (h a)\<lparr>q_next := x\<rparr>)"

definition SHMQueueInit :: "'a \<Rightarrow> 'a shm \<Rightarrow> 'a shm" where
  "SHMQueueInit queue h = set_prev queue (Some queue) (set_next queue (Some queue) h)"

definition SHMQueueIsDetached :: "'a \<Rightarrow> 'a shm \<Rightarrow> bool" where
  "SHMQueueIsDetached queue h \<longleftrightarrow> q_prev (h queue) = None"

definition SHMQueueElemInit :: "'a \<Rightarrow> 'a shm \<Rightarrow> 'a shm" where
  "SHMQueueElemInit queue h = set_prev queue None (set_next queue None h)"

definition SHMQueueDelete :: "'a \<Rightarrow> 'a shm \<Rightarrow> 'a shm option" where
  "SHMQueueDelete queue h =
     Option.bind (q_next (h queue)) (\<lambda>nextElem.
     Option.bind (q_prev (h queue)) (\<lambda>prevElem.
       let h = set_next prevElem (q_next (h queue)) h;
           h = set_prev nextElem (q_prev (h queue)) h
       in Some (set_prev queue None (set_next queue None h))))"

definition SHMQueueInsertBefore :: "'a \<Rightarrow> 'a \<Rightarrow> 'a shm \<Rightarrow> 'a shm option" where
  "SHMQueueInsertBefore queue elem h =
     Option.bind (q_prev (h queue)) (\<lambda>prevPtr.
       let h = set_next elem (q_next (h prevPtr)) h;
           h = set_prev elem (q_prev (h queue)) h;
           h = set_prev queue (Some elem) h
       in Some (set_next prevPtr (Some elem) h))"

definition SHMQueueInsertAfter :: "'a \<Rightarrow> 'a \<Rightarrow> 'a shm \<Rightarrow> 'a shm option" where
  "SHMQueueInsertAfter queue elem h =
     Option.bind (q_next (h queue)) (\<lambda>nextPtr.
       let h = set_prev elem (q_prev (h nextPtr)) h;
           h = set_next elem (q_next (h queue)) h;
           h = set_next queue (Some elem) h
       in Some (set_prev nextPtr (Some elem) h))"

definition SHMQueueNext :: "'a \<Rightarrow> 'a \<Rightarrow> 'a shm \<Rightarrow> 'a option option" where
  "SHMQueueNext queue curElem h =
     Option.bind (q_next (h curElem)) (\<lambda>elemPtr. Some (if elemPtr = queue then None else Some elemPtr))"

definition SHMQueuePrev :: "'a \<Rightarrow> 'a \<Rightarrow> 'a shm \<Rightarrow> 'a option option" where
  "SHMQueuePrev queue curElem h =
     Option.bind (q_prev (h curElem)) (\<lambda>elemPtr. Some (if elemPtr = queue then None else Some elemPtr))"

definition SHMQueueEmpty :: "'a \<Rightarrow> 'a shm \<Rightarrow> bool" where
  "SHMQueueEmpty queue h \<longleftrightarrow> q_prev (h queue) = Some queue"


subsection \<open>Rings\<close>

text \<open>
  The abstraction: \<open>ring h q xs\<close> says that the queue with head \<open>q\<close> holds the elements \<open>xs\<close> in this order.
\<close>

fun linked :: "'a shm \<Rightarrow> 'a list \<Rightarrow> bool" where
  "linked h (a # b # xs) \<longleftrightarrow> q_next (h a) = Some b \<and> q_prev (h b) = Some a \<and> linked h (b # xs)"
| "linked h _ \<longleftrightarrow> True"

definition ring :: "'a shm \<Rightarrow> 'a \<Rightarrow> 'a list \<Rightarrow> bool" where
  "ring h q xs \<longleftrightarrow> distinct (q # xs) \<and> linked h (q # xs @ [q])"

lemma set_links_simps [simp]:
  "q_prev (set_prev a x h b) = (if b = a then x else q_prev (h b))"
  "q_next (set_prev a x h b) = q_next (h b)"
  "q_prev (set_next a x h b) = q_prev (h b)"
  "q_next (set_next a x h b) = (if b = a then x else q_next (h b))"
  by (simp_all add: set_prev_def set_next_def)

lemma set_links_other: "b \<noteq> a \<Longrightarrow> set_prev a x h b = h b" "b \<noteq> a \<Longrightarrow> set_next a x h b = h b"
  by (simp_all add: set_prev_def set_next_def)

lemma linked_append: "linked h (xs @ a # ys) \<longleftrightarrow> linked h (xs @ [a]) \<and> linked h (a # ys)"
  by (induction h xs rule: linked.induct) auto

lemma linked_cong:
  assumes "\<And>a. a \<in> set (butlast xs) \<Longrightarrow> q_next (h' a) = q_next (h a)" "\<And>a. a \<in> set (tl xs) \<Longrightarrow> q_prev (h' a) = q_prev (h a)"
  shows "linked h' xs = linked h xs"
  using assms by (induction h xs rule: linked.induct) (auto split: if_splits)


lemma linked_join:
  assumes "L \<noteq> []" "R \<noteq> []"
  shows "linked h (L @ R) \<longleftrightarrow> linked h L \<and> q_next (h (last L)) = Some (hd R) \<and> q_prev (h (hd R)) = Some (last L) \<and> linked h R"
proof -
  obtain K a where L: "L = K @ [a]" using assms(1) by (cases L rule: rev_cases) auto
  obtain b S where R: "R = b # S" using assms(2) by (cases R) auto
  show ?thesis using linked_append[of h K a R] by (auto simp: L R)
qed

lemma ring_split: "ring h q (xs @ ys) \<longleftrightarrow> distinct (q # xs @ ys) \<and> linked h (q # xs) \<and> linked h (ys @ [q]) \<and>
    q_next (h (last (q # xs))) = Some (hd (ys @ [q])) \<and> q_prev (h (hd (ys @ [q]))) = Some (last (q # xs))"
  unfolding ring_def using linked_join[of "q # xs" "ys @ [q]" h] by auto

lemma ring_ends:
  assumes "distinct (q # xs @ ys)"
  shows "last (q # xs) \<notin> set (butlast (q # xs))" "last (q # xs) \<notin> set ys" "hd (ys @ [q]) \<notin> set xs" "hd (ys @ [q]) \<notin> set (tl (ys @ [q]))"
proof -
  have "distinct (q # xs)" using assms by simp
  then show "last (q # xs) \<notin> set (butlast (q # xs))" by (metis append_butlast_last_id distinct_append disjoint_iff list.distinct(1) list.set_intros(1))
  show "last (q # xs) \<notin> set ys" using assms last_in_set[of "q # xs"] by (auto simp del: last_in_set)
  show "hd (ys @ [q]) \<notin> set xs" "hd (ys @ [q]) \<notin> set (tl (ys @ [q]))" using assms by (cases ys; auto)+
qed

lemma in_set_tlD: "x \<in> set (tl xs) \<Longrightarrow> x \<in> set xs"
  by (cases xs) auto

lemma ring_init: "ring (SHMQueueInit q h) q []"
  by (simp add: ring_def SHMQueueInit_def)

lemma ring_distinct: "ring h q xs \<Longrightarrow> distinct (q # xs)"
  by (simp add: ring_def)

lemma ring_frame: "ring h q xs \<Longrightarrow> (\<And>a. a \<in> set (q # xs) \<Longrightarrow> h' a = h a) \<Longrightarrow> ring h' q xs"
  unfolding ring_def using linked_cong[of "q # xs @ [q]" h' h] by (auto simp: butlast_append)

lemma ring_attached: "ring h q xs \<Longrightarrow> a \<in> set (q # xs) \<Longrightarrow> \<not> SHMQueueIsDetached a h"
proof -
  assume r: "ring h q xs" and "a \<in> set (q # xs)"
  then consider "a = q" | ys zs where "xs = ys @ a # zs" by (auto dest: split_list)
  then show ?thesis
  proof cases
    case 1
    then show ?thesis using r ring_split[of h q xs "[]"] by (simp add: SHMQueueIsDetached_def)
  next
    case 2
    then show ?thesis using r ring_split[of h q ys "a # zs"] by (simp add: SHMQueueIsDetached_def)
  qed
qed

lemma ring_next: "ring h q (xs @ ys) \<Longrightarrow> SHMQueueNext q (last (q # xs)) h = Some (case ys of [] \<Rightarrow> None | y # _ \<Rightarrow> Some y)"
  unfolding ring_split SHMQueueNext_def by (cases ys) (auto simp del: last.simps)

lemma ring_prev: "ring h q (xs @ ys) \<Longrightarrow> SHMQueuePrev q (hd (ys @ [q])) h = Some (if xs = [] then None else Some (last xs))"
  using last_in_set[of xs] by (auto simp: ring_split SHMQueuePrev_def simp del: last_in_set)

lemma ring_empty: "ring h q xs \<Longrightarrow> SHMQueueEmpty q h \<longleftrightarrow> xs = []"
  using ring_split[of h q xs "[]"] last_in_set[of xs] by (auto simp: SHMQueueEmpty_def simp del: last_in_set)

lemma ring_insert_after:
  assumes r: "ring h q (xs @ ys)" and e: "e \<notin> set (q # xs @ ys)"
  shows "\<exists>h'. SHMQueueInsertAfter (last (q # xs)) e h = Some h' \<and> ring h' q (xs @ e # ys) \<and> (\<forall>a. a \<notin> set (q # xs @ e # ys) \<longrightarrow> h' a = h a)"
proof -
  define a b where ab: "a = last (q # xs)" "b = hd (ys @ [q])"
  let ?h = "set_prev b (Some e) (set_next a (Some e) (set_next e (Some b) (set_prev e (Some a) h)))"
  have d: "distinct (q # xs @ ys)" using r by (rule ring_distinct)
  note ends = ring_ends[OF d, folded ab]
  have m: "a \<in> set (q # xs)" "b \<in> set (ys @ [q])" unfolding ab by (rule last_in_set hd_in_set; simp)+
  have l: "linked h (q # xs)" "linked h (ys @ [q])" "q_next (h a) = Some b" "q_prev (h b) = Some a"
    using r by (simp_all add: ring_split ab)
  have ne: "e \<noteq> a" "e \<noteq> b" using e m by auto
  have "SHMQueueInsertAfter a e h = Some ?h" using l(3,4) ne by (simp add: SHMQueueInsertAfter_def Let_def)
  moreover have "linked ?h (q # xs)"
    by (subst linked_cong[of _ _ h]) (use l(1) ends e ne in \<open>auto simp del: butlast.simps dest: in_set_butlastD\<close>)
  moreover have "linked ?h (ys @ [q])"
    by (subst linked_cong[of _ _ h]) (use l(2) ends e ne in \<open>auto dest: in_set_tlD\<close>)
  moreover have "linked ?h (e # ys @ [q])" if "linked ?h (ys @ [q])"
    using that ne linked_join[of "[e]" "ys @ [q]" ?h] by (simp add: ab)
  moreover have "?h c = h c" if "c \<notin> set (q # xs @ e # ys)" for c
    using that m by (subst set_links_other; auto)+
  ultimately show ?thesis using d e ne unfolding ab[symmetric] ring_split[of _ _ xs "e # ys"]
    by (intro exI[of _ ?h]) auto
qed


lemma ring_insert_before:
  assumes "ring h q (xs @ ys)" "e \<notin> set (q # xs @ ys)"
  shows "SHMQueueInsertBefore (hd (ys @ [q])) e h = SHMQueueInsertAfter (last (q # xs)) e h"
proof -
  define a b where ab: "a = last (q # xs)" "b = hd (ys @ [q])"
  have l: "q_next (h a) = Some b" "q_prev (h b) = Some a" using assms(1) by (simp_all add: ring_split ab)
  have "e \<noteq> a" "e \<noteq> b" using assms(2) unfolding ab by (cases xs rule: rev_cases; cases ys; auto)+
  then show ?thesis using l unfolding ab[symmetric]
    by (auto simp: SHMQueueInsertBefore_def SHMQueueInsertAfter_def Let_def set_prev_def set_next_def fun_eq_iff)
qed

lemma ring_delete:
  assumes r: "ring h q (xs @ e # ys)"
  shows "\<exists>h'. SHMQueueDelete e h = Some h' \<and> ring h' q (xs @ ys) \<and> SHMQueueIsDetached e h' \<and> (\<forall>a. a \<notin> set (q # xs @ e # ys) \<longrightarrow> h' a = h a)"
proof -
  define a b where ab: "a = last (q # xs)" "b = hd (ys @ [q])"
  let ?h = "set_prev e None (set_next e None (set_prev b (Some a) (set_next a (Some b) h)))"
  have d: "distinct (q # xs @ ys)" and e: "e \<notin> set (q # xs @ ys)" using ring_distinct[OF r] by auto
  note ends = ring_ends[OF d, folded ab]
  have m: "a \<in> set (q # xs)" "b \<in> set (ys @ [q])" unfolding ab by (rule last_in_set hd_in_set; simp)+
  have l: "linked h (q # xs)" "q_next (h a) = Some e" "q_prev (h e) = Some a" "linked h ((e # ys) @ [q])"
    using r by (simp_all add: ring_split[of h q xs "e # ys"] ab)
  have l': "linked h (ys @ [q])" "q_next (h e) = Some b" "q_prev (h b) = Some e"
    using l(4) linked_join[of "[e]" "ys @ [q]" h] by (simp_all add: ab)
  have ne: "e \<noteq> a" "e \<noteq> b" using e m by auto
  have "SHMQueueDelete e h = Some ?h" using l l' ne by (simp add: SHMQueueDelete_def Let_def)
  moreover have "linked ?h (q # xs)"
    by (subst linked_cong[of _ _ h]) (use l(1) ends e ne in \<open>auto simp del: butlast.simps dest: in_set_butlastD\<close>)
  moreover have "linked ?h (ys @ [q])"
    by (subst linked_cong[of _ _ h]) (use l'(1) ends e ne in \<open>auto dest: in_set_tlD\<close>)
  moreover have "?h c = h c" if "c \<notin> set (q # xs @ e # ys)" for c
    using that m by (subst set_links_other; auto)+
  ultimately show ?thesis using d ne unfolding ring_split ab[symmetric]
    by (intro exI[of _ ?h]) (simp add: SHMQueueIsDetached_def)
qed


subsection \<open>The interface\<close>

text \<open>
  What a client uses of queues: steps forward and back, insertion after the last element of a prefix, and
  deletion, each of which leaves the memory outside the queue alone.
\<close>

locale linked_queue =
  fixes holds :: "('a \<Rightarrow> 'm) \<Rightarrow> 'a \<Rightarrow> 'a list \<Rightarrow> bool"
    and nxt prv :: "'a \<Rightarrow> 'a \<Rightarrow> ('a \<Rightarrow> 'm) \<Rightarrow> 'a option option"
    and insert_after :: "'a \<Rightarrow> 'a \<Rightarrow> ('a \<Rightarrow> 'm) \<Rightarrow> ('a \<Rightarrow> 'm) option"
    and delete :: "'a \<Rightarrow> ('a \<Rightarrow> 'm) \<Rightarrow> ('a \<Rightarrow> 'm) option"
    and detached :: "'a \<Rightarrow> ('a \<Rightarrow> 'm) \<Rightarrow> bool"
  assumes holds_distinct: "holds h q xs \<Longrightarrow> distinct (q # xs)"
    and holds_attached: "holds h q xs \<Longrightarrow> a \<in> set (q # xs) \<Longrightarrow> \<not> detached a h"
    and holds_frame: "holds h q xs \<Longrightarrow> (\<And>a. a \<in> set (q # xs) \<Longrightarrow> h' a = h a) \<Longrightarrow> holds h' q xs"
    and detached_frame: "h' a = h a \<Longrightarrow> detached a h' = detached a h"
    and next_after: "holds h q (xs @ ys) \<Longrightarrow> nxt q (last (q # xs)) h = Some (case ys of [] \<Rightarrow> None | y # _ \<Rightarrow> Some y)"
    and prev_before: "holds h q (xs @ ys) \<Longrightarrow> prv q (hd (ys @ [q])) h = Some (if xs = [] then None else Some (last xs))"
    and insert_law: "holds h q (xs @ ys) \<Longrightarrow> e \<notin> set (q # xs @ ys) \<Longrightarrow>
      \<exists>h'. insert_after (last (q # xs)) e h = Some h' \<and> holds h' q (xs @ e # ys) \<and> (\<forall>a. a \<notin> set (q # xs @ e # ys) \<longrightarrow> h' a = h a)"
    and delete_law: "holds h q (xs @ e # ys) \<Longrightarrow>
      \<exists>h'. delete e h = Some h' \<and> holds h' q (xs @ ys) \<and> detached e h' \<and> (\<forall>a. a \<notin> set (q # xs @ e # ys) \<longrightarrow> h' a = h a)"
begin

text \<open>Two queues: an operation on one of them leaves the other as it is.\<close>

definition two_queues :: "('a \<Rightarrow> 'm) \<Rightarrow> 'a \<Rightarrow> 'a list \<Rightarrow> 'a \<Rightarrow> 'a list \<Rightarrow> bool" where
  "two_queues h q xs r zs \<longleftrightarrow> holds h q xs \<and> holds h r zs \<and> set (q # xs) \<inter> set (r # zs) = {}"

lemma first_next: "holds h q xs \<Longrightarrow> nxt q q h = Some (case xs of [] \<Rightarrow> None | x # _ \<Rightarrow> Some x)"
  using next_after[of h q "[]" xs] by simp

lemma head_next: "holds h q (x # xs) \<Longrightarrow> nxt q x h = Some (case xs of [] \<Rightarrow> None | y # _ \<Rightarrow> Some y)"
  using next_after[of h q "[x]" xs] by simp

lemma last_prev: "holds h q xs \<Longrightarrow> prv q q h = Some (if xs = [] then None else Some (last xs))"
  using prev_before[of h q xs "[]"] by simp

lemma inner_prev: "holds h q (xs @ y # ys) \<Longrightarrow> prv q y h = Some (if xs = [] then None else Some (last xs))"
  using prev_before[of h q xs "y # ys"] by simp

lemma insert_two:
  assumes "two_queues h q (xs @ ys) r zs" "e \<notin> set (q # xs @ ys)" "e \<notin> set (r # zs)"
  shows "\<exists>h'. insert_after (last (q # xs)) e h = Some h' \<and> two_queues h' q (xs @ e # ys) r zs \<and>
    (\<forall>a. a \<notin> set (q # r # xs @ e # ys @ zs) \<longrightarrow> detached a h' = detached a h)"
proof -
  obtain h' where h': "insert_after (last (q # xs)) e h = Some h'" "holds h' q (xs @ e # ys)"
    "\<And>a. a \<notin> set (q # xs @ e # ys) \<Longrightarrow> h' a = h a"
    using insert_law[of h q xs ys e] assms by (auto simp: two_queues_def)
  have "holds h' r zs"
    by (rule holds_frame[of h r zs]) (use assms in \<open>auto simp: two_queues_def intro!: h'(3)\<close>)
  moreover have "detached a h' = detached a h" if "a \<notin> set (q # r # xs @ e # ys @ zs)" for a
    using that by (intro detached_frame h'(3)) simp
  ultimately show ?thesis using h'(1,2) assms by (intro exI[of _ h'] conjI allI impI) (auto simp: two_queues_def)
qed

lemma delete_two:
  assumes "two_queues h q (xs @ e # ys) r zs"
  shows "\<exists>h'. delete e h = Some h' \<and> two_queues h' q (xs @ ys) r zs \<and> detached e h' \<and>
    (\<forall>a. a \<notin> set (q # r # xs @ ys @ zs) \<longrightarrow> a \<noteq> e \<longrightarrow> detached a h' = detached a h)"
proof -
  obtain h' where h': "delete e h = Some h'" "holds h' q (xs @ ys)" "detached e h'"
    "\<And>a. a \<notin> set (q # xs @ e # ys) \<Longrightarrow> h' a = h a"
    using delete_law[of h q xs e ys] assms by (auto simp: two_queues_def)
  have "holds h' r zs"
    by (rule holds_frame[of h r zs]) (use assms in \<open>auto simp: two_queues_def intro!: h'(4)\<close>)
  moreover have "detached a h' = detached a h" if "a \<notin> set (q # r # xs @ ys @ zs)" "a \<noteq> e" for a
    using that by (intro detached_frame h'(4)) simp
  ultimately show ?thesis using h'(1-3) assms by (intro exI[of _ h'] conjI allI impI) (simp_all add: two_queues_def)
qed

end

interpretation shmq: linked_queue ring SHMQueueNext SHMQueuePrev SHMQueueInsertAfter SHMQueueDelete SHMQueueIsDetached
proof
  show "SHMQueueIsDetached a h' = SHMQueueIsDetached a h" if "h' a = h a" for h h' :: "'a shm" and a
    using that by (simp add: SHMQueueIsDetached_def)
qed (fact ring_distinct ring_attached ring_frame ring_next ring_prev ring_insert_after ring_delete)+


subsection \<open>Properties\<close>

text \<open>
  C29: The rings implement lists.  Where a queue holds a list, next and previous step through it and stop at its
  ends, a detached element is inserted at any position, after its predecessor or before its successor with
  the same effect, and deletion takes it out again and detaches it; other memory is untouched.  No step
  follows a null pointer.
\<close>

theorem shm_queue_refines_lists:
  assumes r: "ring h q (xs @ ys)" and e: "SHMQueueIsDetached e h"
  shows "SHMQueueNext q (last (q # xs)) h = Some (case ys of [] \<Rightarrow> None | y # _ \<Rightarrow> Some y) \<and>
    SHMQueuePrev q (hd (ys @ [q])) h = Some (if xs = [] then None else Some (last xs)) \<and>
    SHMQueueEmpty q h = (xs @ ys = []) \<and>
    (\<exists>h' h''. SHMQueueInsertAfter (last (q # xs)) e h = Some h' \<and> SHMQueueInsertBefore (hd (ys @ [q])) e h = Some h' \<and>
       ring h' q (xs @ e # ys) \<and> SHMQueueDelete e h' = Some h'' \<and> ring h'' q (xs @ ys) \<and> SHMQueueIsDetached e h'' \<and>
       (\<forall>a. a \<notin> set (q # xs @ e # ys) \<longrightarrow> h' a = h a \<and> h'' a = h a))"
proof -
  have ne: "e \<notin> set (q # xs @ ys)" using ring_attached[OF r] e by blast
  obtain h' where h': "SHMQueueInsertAfter (last (q # xs)) e h = Some h'" "ring h' q (xs @ e # ys)"
    "\<And>a. a \<notin> set (q # xs @ e # ys) \<Longrightarrow> h' a = h a" using ring_insert_after[OF r ne] by blast
  obtain h'' where "SHMQueueDelete e h' = Some h''" "ring h'' q (xs @ ys)" "SHMQueueIsDetached e h''"
    "\<And>a. a \<notin> set (q # xs @ e # ys) \<Longrightarrow> h'' a = h' a" using ring_delete[OF h'(2)] by blast
  with h' show ?thesis using ring_next[OF r] ring_prev[OF r] ring_empty[OF r] ring_insert_before[OF r ne] by simp
qed

theorem shm_queue_refines_lists_witness:
  "\<exists>h' h''. SHMQueueInsertAfter 0 (1 :: nat) (SHMQueueInit 0 (\<lambda>_. \<lparr>q_prev = None, q_next = None\<rparr>)) = Some h' \<and> ring h' 0 [1] \<and>
     SHMQueueDelete 1 h' = Some h'' \<and> ring h'' 0 []"
proof -
  have "SHMQueueIsDetached 1 (SHMQueueInit (0 :: nat) (\<lambda>_. \<lparr>q_prev = None, q_next = None\<rparr>))"
    by (simp add: SHMQueueIsDetached_def SHMQueueInit_def)
  then show ?thesis using shm_queue_refines_lists[of _ 0 "[]" "[]" 1] ring_init by fastforce
qed

end
