(* ===== verification/Sync_Rep.thy ===== *)
theory Sync_Rep
  imports Fts_Handler Shm_Queue
begin

text \<open>
  Synchronous replication (\<^verbatim>\<open>replication/syncrep.c\<close>, with the parts of \<^verbatim>\<open>replication/walsender.c\<close> that touch its
  state): a backend that commits waits in a queue ordered by log location until the wal sender has heard from
  the standby that the location is safe, or until synchronous replication is turned off.

  The shared memory is the record \<open>WalSndCtlData\<close>.  Processes are numbers; the links of a process and the heads
  of the queues are the addresses of the linked lists.  An operation returns \<open>None\<close> when it follows a null
  pointer or does not return.  Code between the acquisition and the release of \<^verbatim>\<open>SyncRepLock\<close> is one
  operation.  Log messages, the process title, latches and flags of the senders' own loops are left out.
\<close>


subsection \<open>State\<close>

definition XLByteLT :: "XLogRecPtr \<Rightarrow> XLogRecPtr \<Rightarrow> bool" where
  "XLByteLT a b \<longleftrightarrow> xlogid a < xlogid b \<or> xlogid a = xlogid b \<and> xrecoff a < xrecoff b"

definition XLogRecPtrIsInvalid :: "XLogRecPtr \<Rightarrow> bool" where
  "XLogRecPtrIsInvalid r \<longleftrightarrow> xrecoff r = 0"

definition InvalidXLogRecPtr :: XLogRecPtr where
  "InvalidXLogRecPtr = \<lparr>xlogid = 0, xrecoff = 0\<rparr>"

definition SYNC_REP_WAIT_WRITE :: nat where "SYNC_REP_WAIT_WRITE = 0"

definition SYNC_REP_WAIT_FLUSH :: nat where "SYNC_REP_WAIT_FLUSH = 1"

definition SyncRepWaitMode :: nat where "SyncRepWaitMode = SYNC_REP_WAIT_FLUSH"

datatype sync_rep_state = SYNC_REP_NOT_WAITING | SYNC_REP_WAITING | SYNC_REP_WAIT_COMPLETE

record PGPROC =
  waitLSN :: XLogRecPtr
  syncRepState :: sync_rep_state
  procLatch :: bool

datatype shm_addr = SyncRepQueue nat | syncRepLinks nat

record rep_sender = WalSnd +
  sentPtr :: XLogRecPtr
  write_ptr :: XLogRecPtr
  flush_ptr :: XLogRecPtr
  apply_ptr :: XLogRecPtr
  caughtup_within_range :: bool
  xlogCleanUpTo :: XLogRecPtr
  sync_standby_priority :: int
  synchronous :: bool

record WalSndCtlData =
  procs :: "nat \<Rightarrow> PGPROC"
  links :: "shm_addr shm"
  lsn :: "nat \<Rightarrow> XLogRecPtr"
  standbys_defined :: bool
  walsnd_xlogCleanUpTo :: XLogRecPtr
  senders :: "rep_sender list"

definition upd_proc :: "nat \<Rightarrow> (PGPROC \<Rightarrow> PGPROC) \<Rightarrow> WalSndCtlData \<Rightarrow> WalSndCtlData" where
  "upd_proc p f s = s\<lparr>procs := (procs s)(p := f (procs s p))\<rparr>"

definition upd_sender :: "nat \<Rightarrow> (rep_sender \<Rightarrow> rep_sender) \<Rightarrow> WalSndCtlData \<Rightarrow> WalSndCtlData" where
  "upd_sender i f s = s\<lparr>senders := (senders s)[i := f (senders s ! i)]\<rparr>"

text \<open>The process whose links a step in a queue reaches; no process has the head of a queue as its links.\<close>

definition as_proc :: "shm_addr option \<Rightarrow> nat option option" where
  "as_proc a = (case a of None \<Rightarrow> Some None | Some (syncRepLinks p) \<Rightarrow> Some (Some p) | Some (SyncRepQueue _) \<Rightarrow> None)"

definition queue_next :: "nat \<Rightarrow> shm_addr \<Rightarrow> WalSndCtlData \<Rightarrow> nat option option" where
  "queue_next qmode cur s = Option.bind (SHMQueueNext (SyncRepQueue qmode) cur (links s)) as_proc"

definition queue_prev :: "nat \<Rightarrow> shm_addr \<Rightarrow> WalSndCtlData \<Rightarrow> nat option option" where
  "queue_prev qmode cur s = Option.bind (SHMQueuePrev (SyncRepQueue qmode) cur (links s)) as_proc"


subsection \<open>Backends\<close>

partial_function (option) insert_loop :: "nat \<Rightarrow> nat \<Rightarrow> nat option \<Rightarrow> WalSndCtlData \<Rightarrow> nat option option" where
  "insert_loop qmode MyProc proc s = (case proc of
     None \<Rightarrow> Some None
   | Some p \<Rightarrow>
       if XLByteLT (waitLSN (procs s p)) (waitLSN (procs s MyProc)) then Some (Some p)
       else Option.bind (queue_prev qmode (syncRepLinks p) s) (\<lambda>proc. insert_loop qmode MyProc proc s))"

definition SyncRepQueueInsert :: "nat \<Rightarrow> nat \<Rightarrow> WalSndCtlData \<Rightarrow> WalSndCtlData option" where
  "SyncRepQueueInsert qmode MyProc s =
     Option.bind (queue_prev qmode (SyncRepQueue qmode) s) (\<lambda>proc.
     Option.bind (insert_loop qmode MyProc proc s) (\<lambda>proc.
     Option.bind (SHMQueueInsertAfter (case proc of Some p \<Rightarrow> syncRepLinks p | None \<Rightarrow> SyncRepQueue qmode)
                    (syncRepLinks MyProc) (links s)) (\<lambda>h.
     Some (s\<lparr>links := h\<rparr>))))"

definition SyncRepCancelWait :: "nat \<Rightarrow> WalSndCtlData \<Rightarrow> WalSndCtlData option" where
  "SyncRepCancelWait MyProc s =
     Option.bind (if \<not> SHMQueueIsDetached (syncRepLinks MyProc) (links s)
                  then SHMQueueDelete (syncRepLinks MyProc) (links s) else Some (links s)) (\<lambda>h.
     Some (upd_proc MyProc (syncRepState_update (\<lambda>_. SYNC_REP_NOT_WAITING)) (s\<lparr>links := h\<rparr>)))"

text \<open>
  \<^verbatim>\<open>SyncRepCleanupAtProcExit\<close> tests the links before it acquires the lock, and deletes them after that.
\<close>

definition SyncRepCleanupAtProcExit_delete :: "nat \<Rightarrow> WalSndCtlData \<Rightarrow> WalSndCtlData option" where
  "SyncRepCleanupAtProcExit_delete MyProc s =
     Option.bind (SHMQueueDelete (syncRepLinks MyProc) (links s)) (\<lambda>h. Some (s\<lparr>links := h\<rparr>))"

definition standby_active :: "rep_sender \<Rightarrow> bool" where
  "standby_active walsnd \<longleftrightarrow> pid walsnd \<noteq> 0 \<and> synchronous walsnd \<and>
     (snd_state walsnd = WALSNDSTATE_STREAMING \<or> snd_state walsnd = WALSNDSTATE_CATCHUP \<and> caughtup_within_range walsnd)"

definition syncStandbyPresent :: "WalSndCtlData \<Rightarrow> bool" where
  "syncStandbyPresent s =
     (case for_return 0 (length (senders s)) (\<lambda>i. if standby_active (senders s ! i) then Some True else None) of
        Some r \<Rightarrow> r | None \<Rightarrow> False)"

definition SyncRepRequested :: "WalSndCtlData \<Rightarrow> bool" where
  "SyncRepRequested s \<longleftrightarrow> length (senders s) > 0"

text \<open>
  \<^verbatim>\<open>SyncRepWaitForLSN\<close> up to the release of the lock; the result tells whether the backend has to wait.
\<close>

definition SyncRepWaitForLSN_enter ::
  "bool \<Rightarrow> bool \<Rightarrow> bool \<Rightarrow> XLogRecPtr \<Rightarrow> nat \<Rightarrow> WalSndCtlData \<Rightarrow> (bool \<times> WalSndCtlData) option" where
  "SyncRepWaitForLSN_enter master in_handler am_walsender XactCommitLSN MyProc s =
     (if in_handler then Some (False, s)
      else if am_walsender then Some (False, s)
      else if \<not> master \<and> \<not> SyncRepRequested s then Some (False, s)
      else if master \<and> \<not> syncStandbyPresent s then Some (False, s)
      else if \<not> master \<and> \<not> standbys_defined s \<or> XLByteLE XactCommitLSN (lsn s SyncRepWaitMode) then Some (False, s)
      else Option.bind (SyncRepQueueInsert SyncRepWaitMode MyProc
                          (upd_proc MyProc (\<lambda>proc. proc\<lparr>waitLSN := XactCommitLSN, syncRepState := SYNC_REP_WAITING\<rparr>) s)) (\<lambda>s.
           Some (True, s)))"

definition SyncRepWaitForLSN_leave :: "nat \<Rightarrow> WalSndCtlData \<Rightarrow> WalSndCtlData" where
  "SyncRepWaitForLSN_leave MyProc =
     upd_proc MyProc (\<lambda>proc. proc\<lparr>syncRepState := SYNC_REP_NOT_WAITING, waitLSN := \<lparr>xlogid = 0, xrecoff = 0\<rparr>\<rparr>)"

text \<open>The fields that \<^verbatim>\<open>InitProcess\<close> sets for a new process.\<close>

definition InitProcess_syncrep :: "nat \<Rightarrow> WalSndCtlData \<Rightarrow> WalSndCtlData" where
  "InitProcess_syncrep MyProc s =
     (upd_proc MyProc (\<lambda>proc. proc\<lparr>waitLSN := \<lparr>xlogid = 0, xrecoff = 0\<rparr>, syncRepState := SYNC_REP_NOT_WAITING\<rparr>) s)
       \<lparr>links := SHMQueueElemInit (syncRepLinks MyProc) (links s)\<rparr>"


subsection \<open>Wal senders and the checkpointer\<close>

partial_function (option) wake_loop :: "bool \<Rightarrow> nat \<Rightarrow> nat option \<Rightarrow> nat \<Rightarrow> WalSndCtlData \<Rightarrow> (nat \<times> WalSndCtlData) option" where
  "wake_loop all qmode proc numprocs s = (case proc of
     None \<Rightarrow> Some (numprocs, s)
   | Some thisproc \<Rightarrow>
       if \<not> all \<and> XLByteLT (lsn s qmode) (waitLSN (procs s thisproc)) then Some (numprocs, s)
       else Option.bind (queue_next qmode (syncRepLinks thisproc) s) (\<lambda>proc.
            Option.bind (SHMQueueDelete (syncRepLinks thisproc) (links s)) (\<lambda>h.
              let s = upd_proc thisproc (syncRepState_update (\<lambda>_. SYNC_REP_WAIT_COMPLETE)) (s\<lparr>links := h\<rparr>);
                  s = upd_proc thisproc (procLatch_update (\<lambda>_. True)) s
              in wake_loop all qmode proc (numprocs + 1) s)))"

definition SyncRepWakeQueue :: "bool \<Rightarrow> nat \<Rightarrow> WalSndCtlData \<Rightarrow> (nat \<times> WalSndCtlData) option" where
  "SyncRepWakeQueue all qmode s =
     Option.bind (queue_next qmode (SyncRepQueue qmode) s) (\<lambda>proc. wake_loop all qmode proc 0 s)"

definition wake_both :: "WalSndCtlData \<Rightarrow> WalSndCtlData option" where
  "wake_both s = Option.bind (SyncRepWakeQueue True SYNC_REP_WAIT_WRITE s) (\<lambda>(_, s).
     Option.bind (SyncRepWakeQueue True SYNC_REP_WAIT_FLUSH s) (\<lambda>(_, s). Some s))"

definition SyncRepGetStandbyPriority :: int where
  "SyncRepGetStandbyPriority = 1"

definition SyncRepInitConfig :: "nat \<Rightarrow> WalSndCtlData \<Rightarrow> WalSndCtlData" where
  "SyncRepInitConfig MyWalSnd s =
     (let priority = SyncRepGetStandbyPriority
      in if sync_standby_priority (senders s ! MyWalSnd) \<noteq> priority
         then upd_sender MyWalSnd (sync_standby_priority_update (\<lambda>_. priority)) s else s)"

text \<open>The first sender with the least priority among those that stream and have a flush position.\<close>

definition syncWalSnd :: "WalSndCtlData \<Rightarrow> nat option" where
  "syncWalSnd s = snd (for_range 0 (length (senders s)) (\<lambda>i (priority, best).
     let walsnd = senders s ! i
     in if pid walsnd \<noteq> 0 \<and> snd_state walsnd = WALSNDSTATE_STREAMING \<and> sync_standby_priority walsnd > 0 \<and>
          (priority = 0 \<or> priority > sync_standby_priority walsnd) \<and> \<not> XLogRecPtrIsInvalid (flush_ptr walsnd)
        then (sync_standby_priority walsnd, Some i) else (priority, best)) (0, None))"

definition advance_and_wake :: "nat \<Rightarrow> XLogRecPtr \<Rightarrow> WalSndCtlData \<Rightarrow> (nat \<times> WalSndCtlData) option" where
  "advance_and_wake qmode pos s =
     (if XLByteLT (lsn s qmode) pos then SyncRepWakeQueue False qmode (s\<lparr>lsn := (lsn s)(qmode := pos)\<rparr>) else Some (0, s))"

definition SyncRepReleaseWaiters :: "nat \<Rightarrow> WalSndCtlData \<Rightarrow> WalSndCtlData option" where
  "SyncRepReleaseWaiters MyWalSnd s =
     (let walsnd = senders s ! MyWalSnd
      in if sync_standby_priority walsnd = 0 \<or> snd_state walsnd \<noteq> WALSNDSTATE_STREAMING \<or> XLogRecPtrIsInvalid (flush_ptr walsnd)
         then Some s
         else if syncWalSnd s \<noteq> Some MyWalSnd then Some s
         else Option.bind (advance_and_wake SYNC_REP_WAIT_WRITE (write_ptr walsnd) s) (\<lambda>(numwrite, s).
              Option.bind (advance_and_wake SYNC_REP_WAIT_FLUSH (flush_ptr walsnd) s) (\<lambda>(numflush, s).
              Some s)))"

definition SyncStandbysDefined :: "string option \<Rightarrow> bool" where
  "SyncStandbysDefined SyncRepStandbyNames = (case SyncRepStandbyNames of None \<Rightarrow> False | Some names \<Rightarrow> names \<noteq> [])"

definition SyncRepUpdateSyncStandbysDefined :: "string option \<Rightarrow> WalSndCtlData \<Rightarrow> WalSndCtlData option" where
  "SyncRepUpdateSyncStandbysDefined SyncRepStandbyNames s =
     (let sync_standbys_defined = SyncStandbysDefined SyncRepStandbyNames
      in if sync_standbys_defined \<noteq> standbys_defined s
         then Option.bind (if \<not> sync_standbys_defined then wake_both s else Some s) (\<lambda>s.
              Some (s\<lparr>standbys_defined := sync_standbys_defined\<rparr>))
         else Some s)"

text \<open>The positions of a reply of the standby, stored before the waiters are released.\<close>

definition ProcessStandbyReplyMessage_store :: "nat \<Rightarrow> XLogRecPtr \<Rightarrow> XLogRecPtr \<Rightarrow> XLogRecPtr \<Rightarrow> WalSndCtlData \<Rightarrow> WalSndCtlData" where
  "ProcessStandbyReplyMessage_store MyWalSnd w f a =
     upd_sender MyWalSnd (\<lambda>walsnd. walsnd\<lparr>write_ptr := w, flush_ptr := f, apply_ptr := a\<rparr>)"

definition InitWalSenderSlot :: "int \<Rightarrow> WalSndCtlData \<Rightarrow> (nat \<times> WalSndCtlData) option" where
  "InitWalSenderSlot MyProcPid s =
     map_option (\<lambda>i. (i, upd_sender i (\<lambda>walsnd. walsnd\<lparr>pid := MyProcPid, sentPtr := InvalidXLogRecPtr,
        snd_state := WALSNDSTATE_STARTUP, synchronous := False, xlogCleanUpTo := InvalidXLogRecPtr, caughtup_within_range := False\<rparr>) s))
      (for_return 0 (length (senders s)) (\<lambda>i. if pid (senders s ! i) \<noteq> 0 then None else Some i))"

definition WalSndSetState :: "nat \<Rightarrow> WalSndState \<Rightarrow> WalSndCtlData \<Rightarrow> WalSndCtlData" where
  "WalSndSetState MyWalSnd st s =
     (if snd_state (senders s ! MyWalSnd) = st then s
      else let s = upd_sender MyWalSnd (snd_state_update (\<lambda>_. st)) s
           in if st = WALSNDSTATE_CATCHUP \<or> st = WALSNDSTATE_STREAMING
              then upd_sender MyWalSnd (replica_disconnected_at_update (\<lambda>_. 0)) s else s)"

definition WalSndSetSync :: "nat \<Rightarrow> bool \<Rightarrow> WalSndCtlData \<Rightarrow> WalSndCtlData" where
  "WalSndSetSync MyWalSnd sync = upd_sender MyWalSnd (synchronous_update (\<lambda>_. sync))"

definition WalSndSetCaughtupWithinRange :: "nat \<Rightarrow> bool \<Rightarrow> WalSndCtlData \<Rightarrow> WalSndCtlData" where
  "WalSndSetCaughtupWithinRange MyWalSnd c = upd_sender MyWalSnd (caughtup_within_range_update (\<lambda>_. c))"

definition WalSndSetXLogCleanUpTo :: "nat \<Rightarrow> XLogRecPtr \<Rightarrow> WalSndCtlData \<Rightarrow> WalSndCtlData" where
  "WalSndSetXLogCleanUpTo MyWalSnd xlogPtr = upd_sender MyWalSnd (xlogCleanUpTo_update (\<lambda>_. xlogPtr))"

definition WalSndCtlGetXLogCleanUpTo :: "WalSndCtlData \<Rightarrow> XLogRecPtr \<times> WalSndCtlData" where
  "WalSndCtlGetXLogCleanUpTo s =
     (let (active_walsnd, first_active_wal_snd, min_xlogCleanUpTo) =
        for_range 0 (length (senders s)) (\<lambda>i (active_walsnd, first_active_wal_snd, min_xlogCleanUpTo).
          let walsnd = senders s ! i
          in if pid walsnd \<noteq> 0
             then if XLogRecPtrIsInvalid (xlogCleanUpTo walsnd) then (True, first_active_wal_snd, min_xlogCleanUpTo)
                  else if first_active_wal_snd then (True, False, xlogCleanUpTo walsnd)
                  else if XLByteLT (xlogCleanUpTo walsnd) min_xlogCleanUpTo then (True, first_active_wal_snd, xlogCleanUpTo walsnd)
                  else (True, first_active_wal_snd, min_xlogCleanUpTo)
             else (active_walsnd, first_active_wal_snd, min_xlogCleanUpTo)) (False, True, InvalidXLogRecPtr)
      in if \<not> active_walsnd then (InvalidXLogRecPtr, s)
         else let s = (if XLByteLT (walsnd_xlogCleanUpTo s) min_xlogCleanUpTo
                       then s\<lparr>walsnd_xlogCleanUpTo := min_xlogCleanUpTo\<rparr> else s)
              in (walsnd_xlogCleanUpTo s, s))"

definition WalSndKill :: "bool \<Rightarrow> nat \<Rightarrow> int \<Rightarrow> WalSndCtlData \<Rightarrow> WalSndCtlData option" where
  "WalSndKill master MyWalSnd time s =
     (if master
      then Option.bind (wake_both s) (\<lambda>s.
           Some (upd_sender MyWalSnd (\<lambda>walsnd. walsnd\<lparr>synchronous := False, xlogCleanUpTo := InvalidXLogRecPtr,
             replica_disconnected_at := time, pid := 0\<rparr>) s))
      else Some (upd_sender MyWalSnd (\<lambda>walsnd. walsnd\<lparr>replica_disconnected_at := time, pid := 0\<rparr>) s))"

text \<open>\<^verbatim>\<open>WalSndShmemInit\<close>: cleared memory with empty queues.\<close>

definition WalSndShmemInit :: "nat \<Rightarrow> int \<Rightarrow> (nat \<Rightarrow> PGPROC) \<Rightarrow> WalSndCtlData" where
  "WalSndShmemInit max_wal_senders time ps =
     \<lparr>procs = ps,
      links = SHMQueueInit (SyncRepQueue SYNC_REP_WAIT_FLUSH) (SHMQueueInit (SyncRepQueue SYNC_REP_WAIT_WRITE) (\<lambda>_. \<lparr>q_prev = None, q_next = None\<rparr>)),
      lsn = (\<lambda>_. InvalidXLogRecPtr), standbys_defined = False, walsnd_xlogCleanUpTo = InvalidXLogRecPtr,
      senders = replicate max_wal_senders \<lparr>pid = 0, snd_state = WALSNDSTATE_STARTUP, replica_disconnected_at = time,
        sentPtr = InvalidXLogRecPtr, write_ptr = InvalidXLogRecPtr, flush_ptr = InvalidXLogRecPtr, apply_ptr = InvalidXLogRecPtr,
        caughtup_within_range = False, xlogCleanUpTo = InvalidXLogRecPtr, sync_standby_priority = 0, synchronous = False\<rparr>\<rparr>"


subsection \<open>Equations by cases\<close>

lemma insert_loop_code [code]:
  "insert_loop qmode MyProc None s = Some None"
  "insert_loop qmode MyProc (Some p) s =
     (if XLByteLT (waitLSN (procs s p)) (waitLSN (procs s MyProc)) then Some (Some p)
      else Option.bind (queue_prev qmode (syncRepLinks p) s) (\<lambda>proc. insert_loop qmode MyProc proc s))"
  by (subst insert_loop.simps, simp)+

lemma wake_loop_code [code]:
  "wake_loop all qmode None numprocs s = Some (numprocs, s)"
  "wake_loop all qmode (Some p) numprocs s =
     (if \<not> all \<and> XLByteLT (lsn s qmode) (waitLSN (procs s p)) then Some (numprocs, s)
      else Option.bind (queue_next qmode (syncRepLinks p) s) (\<lambda>proc.
           Option.bind (SHMQueueDelete (syncRepLinks p) (links s)) (\<lambda>h.
             wake_loop all qmode proc (numprocs + 1) (upd_proc p (procLatch_update (\<lambda>_. True))
               (upd_proc p (syncRepState_update (\<lambda>_. SYNC_REP_WAIT_COMPLETE)) (s\<lparr>links := h\<rparr>))))))"
  by (subst wake_loop.simps, simp add: Let_def)+


subsection \<open>Log locations\<close>

definition lsn_pos :: "XLogRecPtr \<Rightarrow> nat" where
  "lsn_pos r = unat (xlogid r) * 2 ^ 32 + unat (xrecoff r)"

lemma lexicographic_pos:
  assumes "b < (n :: nat)" "d < n"
  shows "a * n + b < c * n + d \<longleftrightarrow> a < c \<or> a = c \<and> b < d"
proof -
  have "a * n + b < c * n + d" if "a < c"
  proof -
    have "Suc a * n \<le> c * n" using that by (intro mult_le_mono1) simp
    then show ?thesis using assms(1) by simp
  qed
  moreover have "\<not> a * n + b < c * n + d" if "c < a"
  proof -
    have "Suc c * n \<le> a * n" using that by (intro mult_le_mono1) simp
    then show ?thesis using assms(2) by simp
  qed
  ultimately show ?thesis by (cases a c rule: linorder_cases) auto
qed

lemma lsn_less [simp]: "XLByteLT a b \<longleftrightarrow> lsn_pos a < lsn_pos b"
proof -
  have "unat (xrecoff r) < 2 ^ 32" for r :: XLogRecPtr using unsigned_less[of "xrecoff r"] by simp
  then show ?thesis unfolding lsn_pos_def
    by (subst lexicographic_pos) (auto simp: XLByteLT_def word_less_nat_alt word_unat_eq_iff)
qed

lemma lsn_le [simp]: "XLByteLE a b \<longleftrightarrow> lsn_pos a \<le> lsn_pos b"
proof -
  have "XLByteLE a b \<longleftrightarrow> \<not> XLByteLT b a" by (auto simp: XLByteLE_def XLByteLT_def simp del: lsn_less)
  then show ?thesis by auto
qed

lemma lsn_pos_invalid [simp]: "lsn_pos \<lparr>xlogid = 0, xrecoff = 0\<rparr> = 0" "lsn_pos InvalidXLogRecPtr = 0"
  by (simp_all add: lsn_pos_def InvalidXLogRecPtr_def)


subsection \<open>The queues\<close>

text \<open>The processes that wait, in order.  All of them wait for the flush of their record.\<close>

definition queues :: "shm_addr shm \<Rightarrow> nat list \<Rightarrow> bool" where
  "queues h xs \<longleftrightarrow> ring h (SyncRepQueue SYNC_REP_WAIT_FLUSH) (map syncRepLinks xs) \<and> ring h (SyncRepQueue SYNC_REP_WAIT_WRITE) [] \<and>
     (\<forall>p. p \<notin> set xs \<longrightarrow> SHMQueueIsDetached (syncRepLinks p) h)"

lemma queue_heads [simp]: "SYNC_REP_WAIT_FLUSH \<noteq> SYNC_REP_WAIT_WRITE" "SYNC_REP_WAIT_WRITE \<noteq> SYNC_REP_WAIT_FLUSH"
  by (simp_all add: SYNC_REP_WAIT_WRITE_def SYNC_REP_WAIT_FLUSH_def)

lemma queues_two:
  "queues h xs \<longleftrightarrow> shmq.two_queues h (SyncRepQueue SYNC_REP_WAIT_FLUSH) (map syncRepLinks xs) (SyncRepQueue SYNC_REP_WAIT_WRITE) [] \<and>
     (\<forall>p. p \<notin> set xs \<longrightarrow> SHMQueueIsDetached (syncRepLinks p) h)"
  unfolding queues_def shmq.two_queues_def by auto

lemma queues_detached: "queues h xs \<Longrightarrow> SHMQueueIsDetached (syncRepLinks p) h \<longleftrightarrow> p \<notin> set xs"
  using ring_attached[of h "SyncRepQueue SYNC_REP_WAIT_FLUSH" "map syncRepLinks xs" "syncRepLinks p"] by (auto simp: queues_def)

lemma queues_distinct: "queues h xs \<Longrightarrow> distinct xs"
  using ring_distinct[of h "SyncRepQueue SYNC_REP_WAIT_FLUSH" "map syncRepLinks xs"] by (simp add: queues_def distinct_map)

lemma queues_insert:
  assumes q: "queues h (xs @ ys)" and p: "p \<notin> set (xs @ ys)"
  shows "\<exists>h'. SHMQueueInsertAfter (last (SyncRepQueue SYNC_REP_WAIT_FLUSH # map syncRepLinks xs)) (syncRepLinks p) h = Some h' \<and>
    queues h' (xs @ p # ys)"
proof -
  let ?q = "SyncRepQueue SYNC_REP_WAIT_FLUSH" and ?r = "SyncRepQueue SYNC_REP_WAIT_WRITE"
  have "shmq.two_queues h ?q (map syncRepLinks xs @ map syncRepLinks ys) ?r []" using q by (simp add: queues_two)
  note ins = shmq.insert_two[OF this, of "syncRepLinks p"]
  obtain h' where h': "SHMQueueInsertAfter (last (?q # map syncRepLinks xs)) (syncRepLinks p) h = Some h'"
    "shmq.two_queues h' ?q (map syncRepLinks xs @ syncRepLinks p # map syncRepLinks ys) ?r []"
    "\<And>r. r \<notin> set (xs @ p # ys) \<Longrightarrow> SHMQueueIsDetached (syncRepLinks r) h' = SHMQueueIsDetached (syncRepLinks r) h"
  proof -
    have "syncRepLinks p \<notin> set (?q # map syncRepLinks xs @ map syncRepLinks ys)" using p by auto
    moreover have "syncRepLinks p \<notin> set [?r]" by simp
    ultimately obtain h' where h': "SHMQueueInsertAfter (last (?q # map syncRepLinks xs)) (syncRepLinks p) h = Some h'"
      "shmq.two_queues h' ?q (map syncRepLinks xs @ syncRepLinks p # map syncRepLinks ys) ?r []"
      "\<And>a. a \<notin> set (?q # ?r # map syncRepLinks xs @ syncRepLinks p # map syncRepLinks ys @ []) \<Longrightarrow> SHMQueueIsDetached a h' = SHMQueueIsDetached a h"
      using ins by blast
    show thesis by (rule that[OF h'(1,2)], rule h'(3)) auto
  qed
  have "SHMQueueIsDetached (syncRepLinks r) h'" if "r \<notin> set (xs @ p # ys)" for r
    using h'(3)[OF that] that queues_detached[OF q, of r] by simp
  then show ?thesis using h'(1,2) by (simp add: queues_two del: last.simps)
qed

lemma queues_delete:
  assumes q: "queues h (xs @ p # ys)"
  shows "\<exists>h'. SHMQueueDelete (syncRepLinks p) h = Some h' \<and> queues h' (xs @ ys)"
proof -
  let ?q = "SyncRepQueue SYNC_REP_WAIT_FLUSH" and ?r = "SyncRepQueue SYNC_REP_WAIT_WRITE"
  have "shmq.two_queues h ?q (map syncRepLinks xs @ syncRepLinks p # map syncRepLinks ys) ?r []" using q by (simp add: queues_two)
  note del = shmq.delete_two[OF this]
  obtain h' where h': "SHMQueueDelete (syncRepLinks p) h = Some h'"
    "shmq.two_queues h' ?q (map syncRepLinks xs @ map syncRepLinks ys) ?r []" "SHMQueueIsDetached (syncRepLinks p) h'"
    "\<And>a. a \<notin> set (?q # ?r # map syncRepLinks xs @ map syncRepLinks ys @ []) \<Longrightarrow> a \<noteq> syncRepLinks p \<Longrightarrow>
      SHMQueueIsDetached a h' = SHMQueueIsDetached a h"
    using del by blast
  have "SHMQueueIsDetached (syncRepLinks r) h'" if "r \<notin> set (xs @ ys)" for r
  proof (cases "r = p")
    case False
    then have "SHMQueueIsDetached (syncRepLinks r) h' = SHMQueueIsDetached (syncRepLinks r) h"
      using that by (intro h'(4)) auto
    then show ?thesis using False that queues_detached[OF q, of r] by simp
  qed (use h'(3) in simp)
  then show ?thesis using h'(1,2) by (simp add: queues_two)
qed

lemma queues_ring: "queues h xs \<Longrightarrow> ring h (SyncRepQueue SYNC_REP_WAIT_FLUSH) (map syncRepLinks xs)"
  by (simp add: queues_def)

definition hd_opt :: "'a list \<Rightarrow> 'a option" where
  "hd_opt xs = (if xs = [] then None else Some (hd xs))"

definition last_opt :: "'a list \<Rightarrow> 'a option" where
  "last_opt xs = (if xs = [] then None else Some (last xs))"

lemma opt_simps [simp]: "hd_opt [] = None" "hd_opt (x # xs) = Some x" "last_opt [] = None" "last_opt (xs @ [x]) = Some x"
  by (simp_all add: hd_opt_def last_opt_def)

lemma as_proc_simps [simp]: "as_proc None = Some None" "as_proc (Some (syncRepLinks p)) = Some (Some p)"
  by (simp_all add: as_proc_def)

lemma queue_next_head:
  "queues (links s) xs \<Longrightarrow> queue_next SYNC_REP_WAIT_FLUSH (SyncRepQueue SYNC_REP_WAIT_FLUSH) s = Some (hd_opt xs)"
  using shmq.first_next[OF queues_ring, of "links s" xs] by (cases xs) (simp_all add: queue_next_def)

lemma queue_next_elem: "queues (links s) (x # xs) \<Longrightarrow> queue_next SYNC_REP_WAIT_FLUSH (syncRepLinks x) s = Some (hd_opt xs)"
  using shmq.head_next[of "links s" _ "syncRepLinks x" "map syncRepLinks xs"] queues_ring[of "links s" "x # xs"]
  by (cases xs) (simp_all add: queue_next_def)

lemma queue_prev_head:
  "queues (links s) xs \<Longrightarrow> queue_prev SYNC_REP_WAIT_FLUSH (SyncRepQueue SYNC_REP_WAIT_FLUSH) s = Some (last_opt xs)"
  using shmq.last_prev[OF queues_ring, of "links s" xs] by (cases xs rule: rev_cases) (simp_all add: queue_prev_def)

lemma queue_prev_elem: "queues (links s) (xs @ x # ys) \<Longrightarrow> queue_prev SYNC_REP_WAIT_FLUSH (syncRepLinks x) s = Some (last_opt xs)"
  using shmq.inner_prev[of "links s" _ "map syncRepLinks xs" "syncRepLinks x" "map syncRepLinks ys"] queues_ring[of "links s" "xs @ x # ys"]
  by (cases xs rule: rev_cases) (simp_all add: queue_prev_def)

lemma queue_next_empty: "queues (links s) xs \<Longrightarrow> queue_next SYNC_REP_WAIT_WRITE (SyncRepQueue SYNC_REP_WAIT_WRITE) s = Some None"
  using shmq.first_next[of "links s" "SyncRepQueue SYNC_REP_WAIT_WRITE" "[]"] by (simp add: queue_next_def queues_def)


subsection \<open>What the operations do\<close>

lemma insert_loop_scans:
  "queues (links s) (xs @ ys) \<Longrightarrow> insert_loop SYNC_REP_WAIT_FLUSH me (last_opt xs) s =
     Some (last_opt (rev (dropWhile (\<lambda>p. \<not> XLByteLT (waitLSN (procs s p)) (waitLSN (procs s me))) (rev xs))))"
proof (induction xs arbitrary: ys rule: rev_induct)
  case Nil
  then show ?case by (simp add: insert_loop.simps)
next
  case (snoc x xs)
  then show ?case using snoc.IH[of "x # ys"] queue_prev_elem[of s xs x ys]
    by (subst insert_loop.simps) simp
qed

lemma insert_spec:
  assumes q: "queues (links s) xs" "p \<notin> set xs"
  defines "P \<equiv> \<lambda>r. lsn_pos (waitLSN (procs s p)) \<le> lsn_pos (waitLSN (procs s r))"
  shows "\<exists>h ys zs. SyncRepQueueInsert SYNC_REP_WAIT_FLUSH p s = Some (s\<lparr>links := h\<rparr>) \<and> queues h (ys @ p # zs) \<and> xs = ys @ zs \<and>
    (\<forall>r\<in>set zs. P r) \<and> (ys \<noteq> [] \<longrightarrow> \<not> P (last ys))"
proof -
  define ys zs where yz: "ys = rev (dropWhile P (rev xs))" "zs = rev (takeWhile P (rev xs))"
  have xs: "xs = ys @ zs" unfolding yz by (metis rev_append rev_rev_ident takeWhile_dropWhile_id)
  have loop: "insert_loop SYNC_REP_WAIT_FLUSH p (last_opt xs) s = Some (last_opt ys)"
    using insert_loop_scans[of s xs "[]" p] q(1) by (simp add: yz P_def not_less)
  have "last (SyncRepQueue SYNC_REP_WAIT_FLUSH # map syncRepLinks ys) =
      (case last_opt ys of Some r \<Rightarrow> syncRepLinks r | None \<Rightarrow> SyncRepQueue SYNC_REP_WAIT_FLUSH)"
    by (cases ys rule: rev_cases) simp_all
  then obtain h where "SyncRepQueueInsert SYNC_REP_WAIT_FLUSH p s = Some (s\<lparr>links := h\<rparr>)" "queues h (ys @ p # zs)"
    using queues_insert[of "links s" ys zs p] q xs loop queue_prev_head[OF q(1)] by (auto simp: SyncRepQueueInsert_def simp del: last.simps)
  moreover have "\<forall>r\<in>set zs. P r" by (auto simp: yz dest: set_takeWhileD)
  moreover have "\<not> P (last ys)" if "ys \<noteq> []" using that hd_dropWhile[of P "rev xs"] by (simp add: yz last_rev)
  ultimately show ?thesis using xs by blast
qed

definition woken :: "nat list \<Rightarrow> (nat \<Rightarrow> PGPROC) \<Rightarrow> nat \<Rightarrow> PGPROC" where
  "woken ws ps p = (if p \<in> set ws then (ps p)\<lparr>syncRepState := SYNC_REP_WAIT_COMPLETE, procLatch := True\<rparr> else ps p)"

lemma woken_Nil [simp]: "woken [] ps = ps"
  by (simp add: woken_def fun_eq_iff)

lemma woken_waitLSN [simp]: "waitLSN (woken ws ps p) = waitLSN (ps p)"
  by (simp add: woken_def)

lemma woken_Cons: "woken ws (woken [x] ps) = woken (x # ws) ps"
  by (auto simp: woken_def fun_eq_iff)

lemma wake_loop_spec:
  "queues (links s) xs \<Longrightarrow> let ws = takeWhile (\<lambda>p. all \<or> lsn_pos (waitLSN (procs s p)) \<le> lsn_pos (lsn s SYNC_REP_WAIT_FLUSH)) xs in
     \<exists>h. wake_loop all SYNC_REP_WAIT_FLUSH (hd_opt xs) n s = Some (n + length ws, s\<lparr>links := h, procs := woken ws (procs s)\<rparr>) \<and>
       queues h (drop (length ws) xs)"
proof (induction xs arbitrary: n s)
  case Nil
  then show ?case by (subst wake_loop.simps) (auto intro!: exI[of _ "links s"])
next
  case (Cons x xs)
  let ?P = "\<lambda>p. all \<or> lsn_pos (waitLSN (procs s p)) \<le> lsn_pos (lsn s SYNC_REP_WAIT_FLUSH)"
  show ?case
  proof (cases "?P x")
    case False
    then show ?thesis using Cons.prems by (subst wake_loop.simps) (auto intro!: exI[of _ "links s"])
  next
    case True
    obtain h where h: "SHMQueueDelete (syncRepLinks x) (links s) = Some h" "queues h xs" using queues_delete[of "links s" "[]" x xs] Cons.prems by auto
    define s1 where "s1 = upd_proc x (procLatch_update (\<lambda>_. True)) (upd_proc x (syncRepState_update (\<lambda>_. SYNC_REP_WAIT_COMPLETE)) (s\<lparr>links := h\<rparr>))"
    have s1: "links s1 = h" "\<And>p. waitLSN (procs s1 p) = waitLSN (procs s p)" "lsn s1 = lsn s" "procs s1 = woken [x] (procs s)"
      "\<And>h' ps. s1\<lparr>links := h', procs := ps\<rparr> = s\<lparr>links := h', procs := ps\<rparr>"
      by (auto simp: s1_def upd_proc_def woken_def fun_eq_iff)
    have "wake_loop all SYNC_REP_WAIT_FLUSH (hd_opt (x # xs)) n s = wake_loop all SYNC_REP_WAIT_FLUSH (hd_opt xs) (n + 1) s1"
      using True h(1) queue_next_elem[OF Cons.prems] by (subst wake_loop.simps) (auto simp: s1_def Let_def)
    then show ?thesis using True Cons.IH[of s1 "n + 1"] h(2) by (simp add: s1 Let_def woken_Cons)
  qed
qed


lemma wake_spec:
  fixes s :: WalSndCtlData and all :: bool
  assumes "queues (links s) xs"
  defines "ws \<equiv> takeWhile (\<lambda>p. all \<or> lsn_pos (waitLSN (procs s p)) \<le> lsn_pos (lsn s SYNC_REP_WAIT_FLUSH)) xs"
  shows "\<exists>h. SyncRepWakeQueue all SYNC_REP_WAIT_FLUSH s = Some (length ws, s\<lparr>links := h, procs := woken ws (procs s)\<rparr>) \<and>
    queues h (drop (length ws) xs)"
  using wake_loop_spec[OF assms(1), of all 0] queue_next_head[OF assms(1)] unfolding SyncRepWakeQueue_def ws_def Let_def by simp

lemma wake_write: "queues (links s) xs \<Longrightarrow> SyncRepWakeQueue all SYNC_REP_WAIT_WRITE s = Some (0, s)"
  by (simp add: SyncRepWakeQueue_def queue_next_empty wake_loop.simps)

lemma wake_both_spec:
  assumes "queues (links s) xs"
  shows "\<exists>h. wake_both s = Some (s\<lparr>links := h, procs := woken xs (procs s)\<rparr>) \<and> queues h []"
proof -
  have all: "takeWhile (\<lambda>_. True) xs = xs" by (simp add: takeWhile_eq_all_conv)
  show ?thesis using wake_write[OF assms, of True] wake_spec[OF assms, of True] by (auto simp: wake_both_def all)
qed

lemma cancel_spec:
  assumes "queues (links s) xs"
  shows "\<exists>h. SyncRepCancelWait p s = Some (upd_proc p (syncRepState_update (\<lambda>_. SYNC_REP_NOT_WAITING)) (s\<lparr>links := h\<rparr>)) \<and>
    queues h (remove1 p xs)"
proof (cases "p \<in> set xs")
  case True
  then obtain ys zs where xs: "xs = ys @ p # zs" "p \<notin> set ys" by (metis split_list_first)
  then show ?thesis using queues_delete[of "links s" ys p zs] assms queues_detached[OF assms, of p]
    by (auto simp: SyncRepCancelWait_def remove1_append)
next
  case False
  then show ?thesis using assms queues_detached[OF assms, of p] by (auto simp: SyncRepCancelWait_def remove1_idem intro!: exI[of _ "links s"])
qed

text \<open>
  Releasing: the location moves to the position that the standby has flushed, if that is further, and the
  waiters up to it are woken.
\<close>

lemma takeWhile_none: "\<forall>x\<in>set xs. \<not> P x \<Longrightarrow> takeWhile P xs = []"
  by (cases xs) simp_all

lemma advance_spec:
  fixes s :: WalSndCtlData and pos :: XLogRecPtr
  assumes q: "queues (links s) xs" and w: "\<forall>p\<in>set xs. lsn_pos (lsn s SYNC_REP_WAIT_FLUSH) < lsn_pos (waitLSN (procs s p))"
  defines "l \<equiv> (if XLByteLT (lsn s SYNC_REP_WAIT_FLUSH) pos then pos else lsn s SYNC_REP_WAIT_FLUSH)"
  defines "ws \<equiv> takeWhile (\<lambda>p. lsn_pos (waitLSN (procs s p)) \<le> lsn_pos l) xs"
  shows "\<exists>h. advance_and_wake SYNC_REP_WAIT_FLUSH pos s =
      Some (length ws, s\<lparr>links := h, procs := woken ws (procs s), lsn := (lsn s)(SYNC_REP_WAIT_FLUSH := l)\<rparr>) \<and>
    queues h (drop (length ws) xs)"
proof (cases "XLByteLT (lsn s SYNC_REP_WAIT_FLUSH) pos")
  case True
  obtain h where "SyncRepWakeQueue False SYNC_REP_WAIT_FLUSH (s\<lparr>lsn := (lsn s)(SYNC_REP_WAIT_FLUSH := pos)\<rparr>) =
      Some (length ws, s\<lparr>lsn := (lsn s)(SYNC_REP_WAIT_FLUSH := pos), links := h, procs := woken ws (procs s)\<rparr>)"
    "queues h (drop (length ws) xs)"
    using wake_spec[of "s\<lparr>lsn := (lsn s)(SYNC_REP_WAIT_FLUSH := pos)\<rparr>" xs False] q True by (auto simp: ws_def l_def)
  then show ?thesis using True by (intro exI[of _ h]) (simp add: advance_and_wake_def l_def)
next
  case False
  have "ws = []" unfolding ws_def by (rule takeWhile_none) (use False w in \<open>auto simp: l_def\<close>)
  then show ?thesis using False q by (intro exI[of _ "links s"]) (simp add: advance_and_wake_def l_def)
qed

definition may_release :: "WalSndCtlData \<Rightarrow> nat \<Rightarrow> bool" where
  "may_release s i \<longleftrightarrow> syncWalSnd s = Some i \<and> sync_standby_priority (senders s ! i) \<noteq> 0 \<and>
     snd_state (senders s ! i) = WALSNDSTATE_STREAMING \<and> \<not> XLogRecPtrIsInvalid (flush_ptr (senders s ! i))"

definition released_lsn :: "WalSndCtlData \<Rightarrow> nat \<Rightarrow> XLogRecPtr" where
  "released_lsn s i = (if may_release s i \<and> XLByteLT (lsn s SYNC_REP_WAIT_FLUSH) (flush_ptr (senders s ! i))
     then flush_ptr (senders s ! i) else lsn s SYNC_REP_WAIT_FLUSH)"

lemma release_spec:
  fixes s :: WalSndCtlData and i :: nat
  assumes q: "queues (links s) xs" and w: "\<forall>p\<in>set xs. lsn_pos (lsn s SYNC_REP_WAIT_FLUSH) < lsn_pos (waitLSN (procs s p))"
  defines "ws \<equiv> takeWhile (\<lambda>p. lsn_pos (waitLSN (procs s p)) \<le> lsn_pos (released_lsn s i)) xs"
  shows "\<exists>h l. SyncRepReleaseWaiters i s = Some (s\<lparr>links := h, procs := woken ws (procs s), lsn := l\<rparr>) \<and>
    queues h (drop (length ws) xs) \<and> l SYNC_REP_WAIT_FLUSH = released_lsn s i"
proof (cases "may_release s i")
  case False
  have "ws = []" unfolding ws_def by (rule takeWhile_none) (use w False in \<open>auto simp: released_lsn_def\<close>)
  moreover have "SyncRepReleaseWaiters i s = Some s" using False by (auto simp: SyncRepReleaseWaiters_def may_release_def Let_def)
  ultimately show ?thesis using q False by (intro exI[of _ "links s"] exI[of _ "lsn s"]) (simp add: released_lsn_def)
next
  case True
  let ?f = "flush_ptr (senders s ! i)"
  define s1 where "s1 = (if XLByteLT (lsn s SYNC_REP_WAIT_WRITE) (write_ptr (senders s ! i))
    then s\<lparr>lsn := (lsn s)(SYNC_REP_WAIT_WRITE := write_ptr (senders s ! i))\<rparr> else s)"
  have s1: "links s1 = links s" "procs s1 = procs s" "lsn s1 SYNC_REP_WAIT_FLUSH = lsn s SYNC_REP_WAIT_FLUSH"
    "\<And>h ps l. s1\<lparr>links := h, procs := ps, lsn := l\<rparr> = s\<lparr>links := h, procs := ps, lsn := l\<rparr>"
    by (auto simp: s1_def)
  have "advance_and_wake SYNC_REP_WAIT_WRITE (write_ptr (senders s ! i)) s = Some (0, s1)"
    using wake_write[of "s\<lparr>lsn := (lsn s)(SYNC_REP_WAIT_WRITE := write_ptr (senders s ! i))\<rparr>" xs False] q
    by (simp add: advance_and_wake_def s1_def)
  then have rel: "SyncRepReleaseWaiters i s = map_option snd (advance_and_wake SYNC_REP_WAIT_FLUSH ?f s1)"
    using True by (cases "advance_and_wake SYNC_REP_WAIT_FLUSH ?f s1") (auto simp: SyncRepReleaseWaiters_def may_release_def Let_def)
  have "(if XLByteLT (lsn s1 SYNC_REP_WAIT_FLUSH) ?f then ?f else lsn s1 SYNC_REP_WAIT_FLUSH) = released_lsn s i"
    using True by (simp add: released_lsn_def s1)
  then obtain h where "advance_and_wake SYNC_REP_WAIT_FLUSH ?f s1 =
      Some (length ws, s\<lparr>links := h, procs := woken ws (procs s), lsn := (lsn s1)(SYNC_REP_WAIT_FLUSH := released_lsn s i)\<rparr>)"
    "queues h (drop (length ws) xs)"
    using advance_spec[of s1 xs ?f] q w unfolding s1 ws_def by auto
  then show ?thesis using rel by (intro exI[of _ h] exI[of _ "(lsn s1)(SYNC_REP_WAIT_FLUSH := released_lsn s i)"]) simp
qed

end
