(* ===== verification/Sync_Rep_Runs.thy ===== *)
theory Sync_Rep_Runs
  imports Sync_Rep
begin

text \<open>
  Runs of synchronous replication: backends that commit, wal senders, the checkpointer and processes that end,
  in any order.  A backend moves through the wait loop of \<^verbatim>\<open>SyncRepWaitForLSN\<close>; a step is a section of code
  under a lock, or code between two such sections that touches the process itself only.  The first, unlocked
  test of the state in the loop can only end the loop earlier and is not a step of its own.
\<close>


subsection \<open>Steps\<close>

text \<open>The places of a backend: outside the function, in its loop, after the loop, and at the end of the process.\<close>

datatype backend_pc = Outside | AtTop | AtTest | AtSignals | AtCancel | AtLatch | AtEnd | Exiting | Exited

record sync_sys =
  ctl :: WalSndCtlData
  pc :: "nat \<Rightarrow> backend_pc"

definition goto :: "nat \<Rightarrow> backend_pc \<Rightarrow> WalSndCtlData \<Rightarrow> sync_sys \<Rightarrow> sync_sys" where
  "goto p l s t = t\<lparr>ctl := s, pc := (pc t)(p := l)\<rparr>"

definition wait_enter :: "bool \<Rightarrow> bool \<Rightarrow> bool \<Rightarrow> XLogRecPtr \<Rightarrow> nat \<Rightarrow> sync_sys \<Rightarrow> sync_sys option" where
  "wait_enter master in_handler am_walsender XactCommitLSN p t =
     Option.bind (SyncRepWaitForLSN_enter master in_handler am_walsender XactCommitLSN p (ctl t)) (\<lambda>(waits, s).
       Some (goto p (if waits then AtTop else Outside) s t))"

definition wait_reset_latch :: "nat \<Rightarrow> sync_sys \<Rightarrow> sync_sys" where
  "wait_reset_latch p t = goto p AtTest (upd_proc p (procLatch_update (\<lambda>_. False)) (ctl t)) t"

definition wait_test :: "nat \<Rightarrow> sync_sys \<Rightarrow> sync_sys" where
  "wait_test p t = goto p (if syncRepState (procs (ctl t) p) = SYNC_REP_WAIT_COMPLETE then AtEnd else AtSignals) (ctl t) t"

definition wait_signals :: "bool \<Rightarrow> bool \<Rightarrow> nat \<Rightarrow> sync_sys \<Rightarrow> sync_sys" where
  "wait_signals ProcDiePending PostmasterIsAlive p t =
     goto p (if ProcDiePending then AtCancel else if \<not> PostmasterIsAlive then AtCancel else AtLatch) (ctl t) t"

definition wait_cancel :: "nat \<Rightarrow> sync_sys \<Rightarrow> sync_sys option" where
  "wait_cancel p t = Option.bind (SyncRepCancelWait p (ctl t)) (\<lambda>s. Some (goto p AtEnd s t))"

definition exit_check :: "nat \<Rightarrow> sync_sys \<Rightarrow> sync_sys" where
  "exit_check p t = goto p (if \<not> SHMQueueIsDetached (syncRepLinks p) (links (ctl t)) then Exiting else Exited) (ctl t) t"

definition exit_delete :: "nat \<Rightarrow> sync_sys \<Rightarrow> sync_sys option" where
  "exit_delete p t = Option.bind (SyncRepCleanupAtProcExit_delete p (ctl t)) (\<lambda>s. Some (goto p Exited s t))"

definition ctl_step :: "WalSndCtlData option \<Rightarrow> sync_sys \<Rightarrow> sync_sys option" where
  "ctl_step r t = Option.bind r (\<lambda>s. Some (t\<lparr>ctl := s\<rparr>))"

datatype sync_event =
  ProcStart nat
| Enter nat bool bool XLogRecPtr
| ResetLatch nat
| TestState nat
| Signals nat bool bool
| CancelWait nat
| WaitLatch nat bool
| Leave nat
| SetLatch nat
| ExitCheck nat
| ExitDelete nat
| SenderStart int
| SenderState nat WalSndState
| SenderSync nat bool
| SenderCaughtUp nat bool
| SenderConfig nat
| Reply nat XLogRecPtr XLogRecPtr XLogRecPtr
| SetCleanUpTo nat XLogRecPtr
| GetCleanUpTo
| Release nat
| SenderKill nat int
| UpdateStandbys "string option"

text \<open>When an event may occur: the backend is at the place of the code, or the sender has a slot.\<close>

definition sender_lives :: "nat \<Rightarrow> sync_sys \<Rightarrow> bool" where
  "sender_lives i t \<longleftrightarrow> i < length (senders (ctl t)) \<and> pid (senders (ctl t) ! i) \<noteq> 0"

fun enabled :: "sync_event \<Rightarrow> sync_sys \<Rightarrow> bool" where
  "enabled (ProcStart p) t \<longleftrightarrow> pc t p = Exited"
| "enabled (Enter p in_handler am_walsender l) t \<longleftrightarrow> pc t p = Outside"
| "enabled (ResetLatch p) t \<longleftrightarrow> pc t p = AtTop"
| "enabled (TestState p) t \<longleftrightarrow> pc t p = AtTest"
| "enabled (Signals p die alive) t \<longleftrightarrow> pc t p = AtSignals"
| "enabled (CancelWait p) t \<longleftrightarrow> pc t p = AtCancel"
| "enabled (WaitLatch p postmaster_death) t \<longleftrightarrow> pc t p = AtLatch \<and> (procLatch (procs (ctl t) p) \<or> postmaster_death)"
| "enabled (Leave p) t \<longleftrightarrow> pc t p = AtEnd"
| "enabled (SetLatch p) t \<longleftrightarrow> True"
| "enabled (ExitCheck p) t \<longleftrightarrow> pc t p \<noteq> Exiting \<and> pc t p \<noteq> Exited"
| "enabled (ExitDelete p) t \<longleftrightarrow> pc t p = Exiting"
| "enabled (SenderStart q) t \<longleftrightarrow> q \<noteq> 0"
| "enabled (SenderState i st) t \<longleftrightarrow> sender_lives i t"
| "enabled (SenderSync i sync) t \<longleftrightarrow> sender_lives i t"
| "enabled (SenderCaughtUp i c) t \<longleftrightarrow> sender_lives i t"
| "enabled (SenderConfig i) t \<longleftrightarrow> sender_lives i t"
| "enabled (Reply i w f a) t \<longleftrightarrow> sender_lives i t"
| "enabled (SetCleanUpTo i l) t \<longleftrightarrow> sender_lives i t"
| "enabled GetCleanUpTo t \<longleftrightarrow> True"
| "enabled (Release i) t \<longleftrightarrow> sender_lives i t"
| "enabled (SenderKill i time) t \<longleftrightarrow> sender_lives i t"
| "enabled (UpdateStandbys names) t \<longleftrightarrow> True"

fun sync_step :: "bool \<Rightarrow> sync_event \<Rightarrow> sync_sys \<Rightarrow> sync_sys option" where
  "sync_step master (ProcStart p) t = Some (goto p Outside (InitProcess_syncrep p (ctl t)) t)"
| "sync_step master (Enter p in_handler am_walsender l) t = wait_enter master in_handler am_walsender l p t"
| "sync_step master (ResetLatch p) t = Some (wait_reset_latch p t)"
| "sync_step master (TestState p) t = Some (wait_test p t)"
| "sync_step master (Signals p die alive) t = Some (wait_signals die alive p t)"
| "sync_step master (CancelWait p) t = wait_cancel p t"
| "sync_step master (WaitLatch p postmaster_death) t = Some (goto p AtTop (ctl t) t)"
| "sync_step master (Leave p) t = Some (goto p Outside (SyncRepWaitForLSN_leave p (ctl t)) t)"
| "sync_step master (SetLatch p) t = Some (t\<lparr>ctl := upd_proc p (procLatch_update (\<lambda>_. True)) (ctl t)\<rparr>)"
| "sync_step master (ExitCheck p) t = Some (exit_check p t)"
| "sync_step master (ExitDelete p) t = exit_delete p t"
| "sync_step master (SenderStart q) t =
     Some (case InitWalSenderSlot q (ctl t) of None \<Rightarrow> t | Some (i, s) \<Rightarrow> t\<lparr>ctl := s\<rparr>)"
| "sync_step master (SenderState i st) t = Some (t\<lparr>ctl := WalSndSetState i st (ctl t)\<rparr>)"
| "sync_step master (SenderSync i sync) t = Some (t\<lparr>ctl := WalSndSetSync i sync (ctl t)\<rparr>)"
| "sync_step master (SenderCaughtUp i c) t = Some (t\<lparr>ctl := WalSndSetCaughtupWithinRange i c (ctl t)\<rparr>)"
| "sync_step master (SenderConfig i) t = Some (t\<lparr>ctl := SyncRepInitConfig i (ctl t)\<rparr>)"
| "sync_step master (Reply i w f a) t = Some (t\<lparr>ctl := ProcessStandbyReplyMessage_store i w f a (ctl t)\<rparr>)"
| "sync_step master (SetCleanUpTo i l) t = Some (t\<lparr>ctl := WalSndSetXLogCleanUpTo i l (ctl t)\<rparr>)"
| "sync_step master GetCleanUpTo t = Some (t\<lparr>ctl := snd (WalSndCtlGetXLogCleanUpTo (ctl t))\<rparr>)"
| "sync_step master (Release i) t = ctl_step (SyncRepReleaseWaiters i (ctl t)) t"
| "sync_step master (SenderKill i time) t = ctl_step (WalSndKill master i time (ctl t)) t"
| "sync_step master (UpdateStandbys names) t = ctl_step (SyncRepUpdateSyncStandbysDefined names (ctl t)) t"

definition sync_init :: "nat \<Rightarrow> int \<Rightarrow> sync_sys" where
  "sync_init max_wal_senders time =
     \<lparr>ctl = WalSndShmemInit max_wal_senders time (\<lambda>_. \<lparr>waitLSN = InvalidXLogRecPtr, syncRepState = SYNC_REP_NOT_WAITING, procLatch = False\<rparr>),
      pc = (\<lambda>_. Exited)\<rparr>"

inductive sync_run :: "bool \<Rightarrow> sync_sys \<Rightarrow> sync_event list \<Rightarrow> sync_sys \<Rightarrow> bool" for master s0 where
  sync_run_init: "sync_run master s0 [] s0"
| sync_run_step: "sync_run master s0 evs t \<Longrightarrow> enabled e t \<Longrightarrow> sync_step master e t = Some u \<Longrightarrow> sync_run master s0 (evs @ [e]) u"

inductive_cases sync_run_snocE: "sync_run master s0 evs t"


subsection \<open>The invariant\<close>

text \<open>
  Events that wake every waiter: synchronous replication is turned off, and on the master the end of a sender.
\<close>

definition wakes_all :: "bool \<Rightarrow> sync_event \<Rightarrow> bool" where
  "wakes_all master e = (case e of UpdateStandbys names \<Rightarrow> \<not> SyncStandbysDefined names | SenderKill i time \<Rightarrow> master | _ \<Rightarrow> False)"

definition reported :: "sync_event list \<Rightarrow> XLogRecPtr \<Rightarrow> bool" where
  "reported evs l \<longleftrightarrow> lsn_pos l = 0 \<or> (\<exists>i w a. Reply i w l a \<in> set evs)"

definition acked :: "bool \<Rightarrow> sync_event list \<Rightarrow> WalSndCtlData \<Rightarrow> nat \<Rightarrow> bool" where
  "acked master evs s p \<longleftrightarrow> 0 < lsn_pos (waitLSN (procs s p)) \<and> lsn_pos (waitLSN (procs s p)) \<le> lsn_pos (lsn s SYNC_REP_WAIT_FLUSH) \<or>
     list_ex (wakes_all master) evs"

definition wait_lsn :: "WalSndCtlData \<Rightarrow> nat \<Rightarrow> nat" where
  "wait_lsn s p = lsn_pos (waitLSN (procs s p))"

definition ctl_inv :: "bool \<Rightarrow> sync_event list \<Rightarrow> WalSndCtlData \<Rightarrow> nat list \<Rightarrow> bool" where
  "ctl_inv master evs s xs \<longleftrightarrow> queues (links s) xs \<and> sorted (map (wait_lsn s) xs) \<and>
     (\<forall>p\<in>set xs. lsn_pos (lsn s SYNC_REP_WAIT_FLUSH) < wait_lsn s p \<and> syncRepState (procs s p) = SYNC_REP_WAITING) \<and>
     (\<forall>p. syncRepState (procs s p) = SYNC_REP_WAIT_COMPLETE \<longrightarrow> acked master evs s p) \<and>
     (\<not> master \<longrightarrow> \<not> standbys_defined s \<longrightarrow> xs = []) \<and>
     (master \<longrightarrow> xs \<noteq> [] \<longrightarrow> (\<exists>w\<in>set (senders s). pid w \<noteq> 0)) \<and>
     reported evs (lsn s SYNC_REP_WAIT_FLUSH) \<and> (\<forall>w\<in>set (senders s). reported evs (flush_ptr w))"

text \<open>What the place of a backend says about its state and whether it is queued.\<close>

fun pc_ok :: "backend_pc \<Rightarrow> PGPROC \<Rightarrow> bool \<Rightarrow> bool" where
  "pc_ok Outside proc queued \<longleftrightarrow> \<not> queued \<and> syncRepState proc = SYNC_REP_NOT_WAITING"
| "pc_ok AtTop proc queued \<longleftrightarrow> queued \<or> syncRepState proc = SYNC_REP_WAIT_COMPLETE"
| "pc_ok AtTest proc queued \<longleftrightarrow> queued \<or> syncRepState proc = SYNC_REP_WAIT_COMPLETE"
| "pc_ok AtSignals proc queued \<longleftrightarrow> queued \<or> syncRepState proc = SYNC_REP_WAIT_COMPLETE \<and> procLatch proc"
| "pc_ok AtCancel proc queued \<longleftrightarrow> queued \<or> syncRepState proc = SYNC_REP_WAIT_COMPLETE"
| "pc_ok AtLatch proc queued \<longleftrightarrow> queued \<or> syncRepState proc = SYNC_REP_WAIT_COMPLETE \<and> procLatch proc"
| "pc_ok AtEnd proc queued \<longleftrightarrow> \<not> queued"
| "pc_ok Exiting proc queued \<longleftrightarrow> True"
| "pc_ok Exited proc queued \<longleftrightarrow> \<not> queued"

definition sync_inv :: "bool \<Rightarrow> sync_event list \<Rightarrow> sync_sys \<Rightarrow> nat list \<Rightarrow> bool" where
  "sync_inv master evs t xs \<longleftrightarrow> ctl_inv master evs (ctl t) xs \<and> (\<forall>p. pc_ok (pc t p) (procs (ctl t) p) (p \<in> set xs))"


lemma reported_mono: "reported evs l \<Longrightarrow> reported (evs @ es) l"
  by (auto simp: reported_def)

lemma acked_mono: "acked master evs s p \<Longrightarrow> acked master (evs @ es) s p"
  by (auto simp: acked_def)

lemma ctl_inv_mono: "ctl_inv master evs s xs \<Longrightarrow> ctl_inv master (evs @ es) s xs"
  unfolding ctl_inv_def using reported_mono acked_mono by blast

lemma upd_proc_simps [simp]:
  "procs (upd_proc p f s) = (procs s)(p := f (procs s p))" "links (upd_proc p f s) = links s" "lsn (upd_proc p f s) = lsn s"
  "standbys_defined (upd_proc p f s) = standbys_defined s" "senders (upd_proc p f s) = senders s"
  by (simp_all add: upd_proc_def)

text \<open>A process that is not queued may change its own fields.\<close>

lemma ctl_inv_proc:
  assumes "ctl_inv master evs s xs" "p \<notin> set xs" "syncRepState (f (procs s p)) = SYNC_REP_NOT_WAITING"
  shows "ctl_inv master evs (upd_proc p f s) xs"
proof -
  have same: "map (wait_lsn (upd_proc p f s)) xs = map (wait_lsn s) xs" using assms(2) by (auto simp: wait_lsn_def)
  have "wait_lsn (upd_proc p f s) r = wait_lsn s r \<and> procs (upd_proc p f s) r = procs s r" if "r \<in> set xs" for r
    using assms(2) that by (auto simp: wait_lsn_def)
  then show ?thesis using assms unfolding ctl_inv_def acked_def same by auto
qed

lemma ctl_inv_latch: "ctl_inv master evs s xs \<Longrightarrow> ctl_inv master evs (upd_proc p (procLatch_update f) s) xs"
proof -
  have "wait_lsn (upd_proc p (procLatch_update f) s) = wait_lsn s" by (auto simp: wait_lsn_def fun_eq_iff)
  then show "ctl_inv master evs s xs \<Longrightarrow> ctl_inv master evs (upd_proc p (procLatch_update f) s) xs"
    unfolding ctl_inv_def acked_def by auto
qed

lemma ctl_inv_sender:
  assumes "ctl_inv master evs s xs" "i < length (senders s)" "reported evs (flush_ptr (f (senders s ! i)))"
    "master \<Longrightarrow> xs \<noteq> [] \<Longrightarrow> pid (f (senders s ! i)) \<noteq> 0"
  shows "ctl_inv master evs (upd_sender i f s) xs"
proof -
  have new: "f (senders s ! i) \<in> set ((senders s)[i := f (senders s ! i)])" using assms(2) by (rule set_update_memI)
  have "w = f (senders s ! i) \<or> w \<in> set (senders s)" if "w \<in> set ((senders s)[i := f (senders s ! i)])" for w
    using that set_update_subset_insert by fast
  moreover have "wait_lsn (upd_sender i f s) = wait_lsn s" by (auto simp: wait_lsn_def upd_sender_def)
  ultimately show ?thesis using assms new unfolding ctl_inv_def acked_def by (auto simp: upd_sender_def)
qed

text \<open>Waking a prefix of the queue.\<close>

lemma ctl_inv_wake:
  assumes inv: "ctl_inv master evs s (ws @ ys)" and q: "queues h ys"
    and l: "lsn_pos (lsn s SYNC_REP_WAIT_FLUSH) \<le> lsn_pos (l SYNC_REP_WAIT_FLUSH)" "reported evs (l SYNC_REP_WAIT_FLUSH)"
    and ys: "\<forall>p\<in>set ys. lsn_pos (l SYNC_REP_WAIT_FLUSH) < wait_lsn s p"
    and ws: "(\<forall>p\<in>set ws. wait_lsn s p \<le> lsn_pos (l SYNC_REP_WAIT_FLUSH)) \<or> list_ex (wakes_all master) evs"
  shows "ctl_inv master evs (s\<lparr>links := h, procs := woken ws (procs s), lsn := l\<rparr>) ys"
proof -
  let ?s = "s\<lparr>links := h, procs := woken ws (procs s), lsn := l\<rparr>"
  have wait: "wait_lsn ?s = wait_lsn s" by (auto simp: wait_lsn_def fun_eq_iff)
  have "distinct (ws @ ys)" using inv queues_distinct[of "links s" "ws @ ys"] unfolding ctl_inv_def by blast
  then have keep: "procs ?s p = procs s p" if "p \<in> set ys" for p using that by (auto simp: woken_def)
  have "acked master evs ?s p" if "syncRepState (procs ?s p) = SYNC_REP_WAIT_COMPLETE" for p
  proof (cases "p \<in> set ws")
    case True
    then have "lsn_pos (lsn s SYNC_REP_WAIT_FLUSH) < wait_lsn s p" using inv unfolding ctl_inv_def by simp
    then show ?thesis using ws True by (auto simp: acked_def wait_lsn_def)
  next
    case False
    then have "acked master evs s p" using that inv by (auto simp: ctl_inv_def woken_def)
    then show ?thesis using l(1) by (auto simp: acked_def)
  qed
  then show ?thesis using inv q l(2) ys keep unfolding ctl_inv_def wait by (auto simp: sorted_append)
qed

lemma pc_ok_woken: "pc_ok l proc True \<Longrightarrow> pc_ok l (proc\<lparr>syncRepState := SYNC_REP_WAIT_COMPLETE, procLatch := True\<rparr>) False"
  by (cases l) simp_all

lemma pcs_woken:
  assumes "\<forall>p. pc_ok (pcs p) (ps p) (p \<in> set (ws @ ys))" "distinct (ws @ ys)"
  shows "\<forall>p. pc_ok (pcs p) (woken ws ps p) (p \<in> set ys)"
proof
  fix p
  show "pc_ok (pcs p) (woken ws ps p) (p \<in> set ys)"
    using assms(1)[rule_format, of p] assms(2) pc_ok_woken[of "pcs p" "ps p"]
    by (cases "p \<in> set ws"; cases "p \<in> set ys") (auto simp: woken_def)
qed

lemma sync_inv_wake:
  assumes "sync_inv master evs t (ws @ ys)" "ctl_inv master evs s ys" "procs s = woken ws (procs (ctl t))"
  shows "sync_inv master evs (t\<lparr>ctl := s\<rparr>) ys"
proof -
  have "distinct (ws @ ys)" using assms(1) queues_distinct[of "links (ctl t)" "ws @ ys"] unfolding sync_inv_def ctl_inv_def by blast
  then show ?thesis using assms pcs_woken[of "pc t" "procs (ctl t)" ws ys] by (simp add: sync_inv_def)
qed

text \<open>A step of one backend that leaves the queue alone.\<close>

lemma sync_inv_goto:
  assumes "sync_inv master evs t xs" "ctl_inv master evs s xs" "\<And>r. r \<noteq> p \<Longrightarrow> procs s r = procs (ctl t) r"
    "pc_ok l (procs s p) (p \<in> set xs)"
  shows "sync_inv master evs (goto p l s t) xs"
  using assms by (auto simp: sync_inv_def goto_def)

lemma sorted_takeWhile_drop:
  "sorted (map f xs) \<Longrightarrow> p \<in> set (drop (length (takeWhile (\<lambda>p. f p \<le> n) xs)) xs) \<Longrightarrow> (n :: nat) < f p"
  by (induction xs) (auto split: if_splits)

lemma sorted_insert:
  assumes "sorted (map f (ys @ zs))" "\<forall>r\<in>set zs. f p \<le> f r" "ys \<noteq> [] \<longrightarrow> \<not> f p \<le> (f (last ys) :: nat)"
  shows "sorted (map f (ys @ p # zs))"
proof (cases ys rule: rev_cases)
  case (snoc us u)
  then show ?thesis using assms by (auto simp: sorted_append)
qed (use assms in auto)


subsection \<open>Every step keeps the invariant\<close>

lemma sync_inv_mono: "sync_inv master evs t xs \<Longrightarrow> sync_inv master (evs @ es) t xs"
  unfolding sync_inv_def using ctl_inv_mono by blast

lemma sync_inv_pc: "sync_inv master evs t xs \<Longrightarrow> pc_ok (pc t p) (procs (ctl t) p) (p \<in> set xs)"
  by (simp add: sync_inv_def)

lemma sync_inv_ctl: "sync_inv master evs t xs \<Longrightarrow> ctl_inv master evs (ctl t) xs"
  by (simp add: sync_inv_def)

lemma ctl_inv_queues: "ctl_inv master evs s xs \<Longrightarrow> queues (links s) xs"
  by (simp add: ctl_inv_def)

lemma present_sender: "syncStandbyPresent s \<Longrightarrow> \<exists>w\<in>set (senders s). pid w \<noteq> 0"
  unfolding syncStandbyPresent_def by (auto simp: for_return_Some_iff standby_active_def split: option.splits if_splits)

lemma enter_queue:
  assumes inv: "ctl_inv master evs s xs" and p: "p \<notin> set xs" and l: "lsn_pos (lsn s SYNC_REP_WAIT_FLUSH) < lsn_pos l"
    and m: "master \<Longrightarrow> syncStandbyPresent s" "\<not> master \<Longrightarrow> standbys_defined s"
  defines "s1 \<equiv> upd_proc p (\<lambda>proc. proc\<lparr>waitLSN := l, syncRepState := SYNC_REP_WAITING\<rparr>) s"
  shows "\<exists>h ys. SyncRepQueueInsert SYNC_REP_WAIT_FLUSH p s1 = Some (s1\<lparr>links := h\<rparr>) \<and> set ys = insert p (set xs) \<and>
    ctl_inv master evs (s1\<lparr>links := h\<rparr>) ys"
proof -
  have s1: "links s1 = links s" "lsn s1 = lsn s" "senders s1 = senders s" "standbys_defined s1 = standbys_defined s"
    "wait_lsn s1 p = lsn_pos l" "\<And>r. r \<noteq> p \<Longrightarrow> procs s1 r = procs s r" "syncRepState (procs s1 p) = SYNC_REP_WAITING"
    by (simp_all add: s1_def wait_lsn_def)
  obtain h ys zs where ins: "SyncRepQueueInsert SYNC_REP_WAIT_FLUSH p s1 = Some (s1\<lparr>links := h\<rparr>)" "queues h (ys @ p # zs)" "xs = ys @ zs"
    "\<forall>r\<in>set zs. wait_lsn s1 p \<le> wait_lsn s1 r" "ys \<noteq> [] \<longrightarrow> \<not> wait_lsn s1 p \<le> wait_lsn s1 (last ys)"
    using insert_spec[of s1 xs p] ctl_inv_queues[OF inv] p by (auto simp: s1 wait_lsn_def)
  have same: "wait_lsn s1 r = wait_lsn s r" if "r \<in> set xs" for r using that p s1(6)[of r] by (cases "r = p") (simp_all add: wait_lsn_def)
  then have "map (wait_lsn s1) xs = map (wait_lsn s) xs" by simp
  then have "sorted (map (wait_lsn s1) (ys @ zs))" using inv ins(3) unfolding ctl_inv_def by metis
  then have "sorted (map (wait_lsn s1) (ys @ p # zs))" by (rule sorted_insert[OF _ ins(4,5)])
  then have "ctl_inv master evs (s1\<lparr>links := h\<rparr>) (ys @ p # zs)"
    using inv ins(2,3) p l m s1 same present_sender[of s] unfolding ctl_inv_def acked_def wait_lsn_def
    by (auto simp: s1_def)
  then show ?thesis using ins(1,3) by (intro exI[of _ h] exI[of _ "ys @ p # zs"]) auto
qed

lemma enter_inv:
  assumes inv: "sync_inv master evs t xs" and pc: "pc t p = Outside"
  shows "\<exists>u ys. wait_enter master in_handler am_walsender l p t = Some u \<and> sync_inv master evs u ys"
proof (cases "in_handler \<or> am_walsender \<or> \<not> master \<and> \<not> SyncRepRequested (ctl t) \<or> master \<and> \<not> syncStandbyPresent (ctl t) \<or>
    \<not> master \<and> \<not> standbys_defined (ctl t) \<or> XLByteLE l (lsn (ctl t) SyncRepWaitMode)")
  case True
  then have "SyncRepWaitForLSN_enter master in_handler am_walsender l p (ctl t) = Some (False, ctl t)"
    unfolding SyncRepWaitForLSN_enter_def by argo
  then have "wait_enter master in_handler am_walsender l p t = Some (goto p Outside (ctl t) t)" by (simp add: wait_enter_def)
  moreover have "goto p Outside (ctl t) t = t" using pc by (simp add: goto_def fun_upd_idem)
  ultimately show ?thesis using inv by auto
next
  case False
  define s1 where "s1 = upd_proc p (\<lambda>proc. proc\<lparr>waitLSN := l, syncRepState := SYNC_REP_WAITING\<rparr>) (ctl t)"
  have p: "p \<notin> set xs" using sync_inv_pc[OF inv, of p] pc by simp
  obtain h ys where ins: "SyncRepQueueInsert SYNC_REP_WAIT_FLUSH p s1 = Some (s1\<lparr>links := h\<rparr>)" "set ys = insert p (set xs)"
    "ctl_inv master evs (s1\<lparr>links := h\<rparr>) ys"
    using enter_queue[OF sync_inv_ctl[OF inv] p, of l] False unfolding s1_def by (auto simp: SyncRepWaitMode_def)
  have "SyncRepWaitForLSN_enter master in_handler am_walsender l p (ctl t) = Some (True, s1\<lparr>links := h\<rparr>)"
    using False ins(1) unfolding SyncRepWaitForLSN_enter_def s1_def SyncRepWaitMode_def by simp
  then have "wait_enter master in_handler am_walsender l p t = Some (goto p AtTop (s1\<lparr>links := h\<rparr>) t)" by (simp add: wait_enter_def)
  moreover have "sync_inv master evs (goto p AtTop (s1\<lparr>links := h\<rparr>) t) ys"
    using inv ins(2,3) by (auto simp: sync_inv_def goto_def s1_def)
  ultimately show ?thesis by blast
qed

lemma ctl_inv_remove:
  assumes inv: "ctl_inv master evs s xs" and q: "queues h (remove1 p xs)"
  shows "ctl_inv master evs (s\<lparr>links := h\<rparr>) (remove1 p xs)"
proof -
  have "wait_lsn (s\<lparr>links := h\<rparr>) = wait_lsn s" by (auto simp: wait_lsn_def)
  moreover have "sorted (map (wait_lsn s) (remove1 p xs))" using inv by (auto simp: ctl_inv_def intro: sorted_map_remove1)
  moreover have "xs = [] \<Longrightarrow> remove1 p xs = []" "remove1 p xs \<noteq> [] \<Longrightarrow> xs \<noteq> []" by auto
  ultimately show ?thesis using inv q notin_set_remove1 unfolding ctl_inv_def acked_def by (auto dest: notin_set_remove1)
qed

lemma cancel_inv:
  assumes inv: "sync_inv master evs t xs" and pc: "pc t p = AtCancel"
  shows "\<exists>u ys. wait_cancel p t = Some u \<and> sync_inv master evs u ys"
proof -
  let ?f = "syncRepState_update (\<lambda>_. SYNC_REP_NOT_WAITING)"
  note c = sync_inv_ctl[OF inv]
  obtain h where h: "SyncRepCancelWait p (ctl t) = Some (upd_proc p ?f (ctl t\<lparr>links := h\<rparr>))" "queues h (remove1 p xs)"
    using cancel_spec[OF ctl_inv_queues[OF c], of p] by blast
  have d: "distinct xs" using queues_distinct[OF ctl_inv_queues[OF c]] .
  have "ctl_inv master evs (upd_proc p ?f (ctl t\<lparr>links := h\<rparr>)) (remove1 p xs)"
    using d by (intro ctl_inv_proc ctl_inv_remove c h(2)) auto
  then have "sync_inv master evs (goto p AtEnd (upd_proc p ?f (ctl t\<lparr>links := h\<rparr>)) t) (remove1 p xs)"
    using inv d by (auto simp: sync_inv_def goto_def)
  then show ?thesis using h(1) by (auto simp: wait_cancel_def)
qed

lemma exit_delete_inv:
  assumes inv: "sync_inv master evs t xs" and p: "p \<in> set xs"
  shows "\<exists>u. exit_delete p t = Some u \<and> sync_inv master evs u (remove1 p xs)"
proof -
  note c = sync_inv_ctl[OF inv]
  have d: "distinct xs" using queues_distinct[OF ctl_inv_queues[OF c]] .
  obtain ys zs where xs: "xs = ys @ p # zs" using p by (metis split_list)
  obtain h where h: "SHMQueueDelete (syncRepLinks p) (links (ctl t)) = Some h" "queues h (remove1 p xs)"
    using queues_delete[of "links (ctl t)" ys p zs] ctl_inv_queues[OF c] d by (auto simp: xs remove1_append)
  have "sync_inv master evs (goto p Exited (ctl t\<lparr>links := h\<rparr>) t) (remove1 p xs)"
    using inv d ctl_inv_remove[OF c h(2)] by (auto simp: sync_inv_def goto_def)
  then show ?thesis using h(1) by (simp add: exit_delete_def SyncRepCleanupAtProcExit_delete_def)
qed


lemma release_inv:
  assumes inv: "sync_inv master evs t xs" and i: "sender_lives i t"
  shows "\<exists>u ys. ctl_step (SyncRepReleaseWaiters i (ctl t)) t = Some u \<and> sync_inv master evs u ys"
proof -
  note c = sync_inv_ctl[OF inv]
  let ?l = "released_lsn (ctl t) i" and ?s = "ctl t"
  define ws where "ws = takeWhile (\<lambda>p. wait_lsn ?s p \<le> lsn_pos ?l) xs"
  define ys where "ys = drop (length ws) xs"
  have xs: "xs = ws @ ys" unfolding ys_def ws_def by (metis append_take_drop_id takeWhile_eq_take)
  obtain h l where rel: "SyncRepReleaseWaiters i ?s = Some (?s\<lparr>links := h, procs := woken ws (procs ?s), lsn := l\<rparr>)"
    "queues h ys" "l SYNC_REP_WAIT_FLUSH = ?l"
    using release_spec[of ?s xs i] c unfolding ctl_inv_def ys_def ws_def wait_lsn_def by blast
  have "reported evs ?l" "lsn_pos (lsn ?s SYNC_REP_WAIT_FLUSH) \<le> lsn_pos ?l"
    using c i by (auto simp: released_lsn_def ctl_inv_def sender_lives_def)
  moreover have "lsn_pos ?l < wait_lsn ?s p" if "p \<in> set ys" for p
    using that c sorted_takeWhile_drop[of "wait_lsn ?s" xs p "lsn_pos ?l"] unfolding ys_def ws_def ctl_inv_def by blast
  moreover have "wait_lsn ?s p \<le> lsn_pos ?l" if "p \<in> set ws" for p using that unfolding ws_def by (blast dest: set_takeWhileD)
  ultimately have "ctl_inv master evs (?s\<lparr>links := h, procs := woken ws (procs ?s), lsn := l\<rparr>) ys"
    using c xs rel(2,3) by (intro ctl_inv_wake) auto
  then have "sync_inv master evs (t\<lparr>ctl := ?s\<lparr>links := h, procs := woken ws (procs ?s), lsn := l\<rparr>\<rparr>) ys"
    using inv xs by (intro sync_inv_wake[of master evs t ws ys]) auto
  then show ?thesis using rel(1) by (auto simp: ctl_step_def)
qed

lemma wake_both_inv:
  assumes inv: "sync_inv master evs t xs" and all: "list_ex (wakes_all master) evs"
  shows "\<exists>s. wake_both (ctl t) = Some s \<and> sync_inv master evs (t\<lparr>ctl := s\<rparr>) [] \<and> senders s = senders (ctl t)"
proof -
  note c = sync_inv_ctl[OF inv]
  let ?s = "ctl t"
  obtain h where h: "wake_both ?s = Some (?s\<lparr>links := h, procs := woken xs (procs ?s)\<rparr>)" "queues h []"
    using wake_both_spec[OF ctl_inv_queues[OF c]] by blast
  have "ctl_inv master evs (?s\<lparr>links := h, procs := woken xs (procs ?s), lsn := lsn ?s\<rparr>) []"
    using c all h(2) by (intro ctl_inv_wake) (auto simp: ctl_inv_def)
  then have "sync_inv master evs (t\<lparr>ctl := ?s\<lparr>links := h, procs := woken xs (procs ?s)\<rparr>\<rparr>) []"
    using inv by (intro sync_inv_wake[of master evs t xs "[]"]) auto
  then show ?thesis using h(1) by auto
qed

lemma sync_inv_sender:
  assumes "sync_inv master evs t xs" "i < length (senders (ctl t))" "reported evs (flush_ptr (f (senders (ctl t) ! i)))"
    "master \<Longrightarrow> xs \<noteq> [] \<Longrightarrow> pid (f (senders (ctl t) ! i)) \<noteq> 0"
  shows "sync_inv master evs (t\<lparr>ctl := upd_sender i f (ctl t)\<rparr>) xs"
  using assms ctl_inv_sender[of master evs "ctl t" xs i f] by (simp add: sync_inv_def upd_sender_def)

lemma sync_inv_flush: "sync_inv master evs t xs \<Longrightarrow> i < length (senders (ctl t)) \<Longrightarrow> reported evs (flush_ptr (senders (ctl t) ! i))"
  by (simp add: sync_inv_def ctl_inv_def)

lemma sender_inv:
  assumes inv: "sync_inv master evs t xs" and i: "sender_lives i t" and f: "\<And>w. flush_ptr (f w) = flush_ptr w" "\<And>w. pid (f w) = pid w"
  shows "sync_inv master evs (t\<lparr>ctl := upd_sender i f (ctl t)\<rparr>) xs"
  using i sync_inv_flush[OF inv, of i] by (intro sync_inv_sender[OF inv]) (auto simp: sender_lives_def f)

lemma kill_inv:
  assumes inv: "sync_inv master evs t xs" and i: "sender_lives i t" and all: "master \<Longrightarrow> list_ex (wakes_all master) evs"
  shows "\<exists>u ys. ctl_step (WalSndKill master i time (ctl t)) t = Some u \<and> sync_inv master evs u ys"
proof (cases master)
  case True
  obtain s where s: "wake_both (ctl t) = Some s" "sync_inv master evs (t\<lparr>ctl := s\<rparr>) []" "senders s = senders (ctl t)"
    using wake_both_inv[OF inv all[OF True]] by blast
  have "sync_inv master evs (t\<lparr>ctl := upd_sender i (\<lambda>w. w\<lparr>synchronous := False, xlogCleanUpTo := InvalidXLogRecPtr, replica_disconnected_at := time, pid := 0\<rparr>) s\<rparr>) []"
    using sync_inv_sender[OF s(2), of i "\<lambda>w. w\<lparr>synchronous := False, xlogCleanUpTo := InvalidXLogRecPtr, replica_disconnected_at := time, pid := 0\<rparr>"] i
      sync_inv_flush[OF inv, of i] s(3) by (simp add: sender_lives_def)
  then show ?thesis using True s(1) by (auto simp: WalSndKill_def ctl_step_def)
next
  case False
  then have "sync_inv master evs (t\<lparr>ctl := upd_sender i (\<lambda>w. w\<lparr>replica_disconnected_at := time, pid := 0\<rparr>) (ctl t)\<rparr>) xs"
    using i sync_inv_flush[OF inv, of i] by (intro sync_inv_sender[OF inv]) (auto simp: sender_lives_def)
  then show ?thesis using False by (auto simp: WalSndKill_def ctl_step_def)
qed

lemma update_inv:
  assumes inv: "sync_inv master evs t xs" and all: "\<not> SyncStandbysDefined names \<Longrightarrow> list_ex (wakes_all master) evs"
  shows "\<exists>u ys. ctl_step (SyncRepUpdateSyncStandbysDefined names (ctl t)) t = Some u \<and> sync_inv master evs u ys"
proof -
  have set_def: "sync_inv master evs (t'\<lparr>ctl := (ctl t')\<lparr>standbys_defined := b\<rparr>\<rparr>) zs"
    if "sync_inv master evs t' zs" "\<not> b \<Longrightarrow> zs = []" for t' zs b
    using that by (auto simp: sync_inv_def ctl_inv_def acked_def wait_lsn_def[abs_def])
  show ?thesis
  proof (cases "SyncStandbysDefined names")
    case True
    then show ?thesis using inv set_def[OF inv, of True] by (auto simp: SyncRepUpdateSyncStandbysDefined_def ctl_step_def)
  next
    case False
    obtain s where "wake_both (ctl t) = Some s" "sync_inv master evs (t\<lparr>ctl := s\<rparr>) []" using wake_both_inv[OF inv all[OF False]] by blast
    then show ?thesis using False inv set_def[of "t\<lparr>ctl := s\<rparr>" "[]" False]
      by (cases "standbys_defined (ctl t)") (auto simp: SyncRepUpdateSyncStandbysDefined_def ctl_step_def)
  qed
qed


lemma exit_delete_detached:
  assumes "sync_inv master evs t xs" "p \<notin> set xs"
  shows "exit_delete p t = None"
proof -
  have "q_prev (links (ctl t) (syncRepLinks p)) = None"
    using queues_detached[OF ctl_inv_queues[OF sync_inv_ctl[OF assms(1)]], of p] assms(2) by (simp add: SHMQueueIsDetached_def)
  then show ?thesis by (cases "q_next (links (ctl t) (syncRepLinks p))")
      (simp_all add: exit_delete_def SyncRepCleanupAtProcExit_delete_def SHMQueueDelete_def)
qed

lemma start_inv:
  assumes inv: "sync_inv master evs t xs" and pc: "pc t p = Exited"
  shows "sync_inv master evs (goto p Outside (InitProcess_syncrep p (ctl t)) t) xs"
proof -
  let ?f = "\<lambda>proc. proc\<lparr>waitLSN := \<lparr>xlogid = 0, xrecoff = 0\<rparr>, syncRepState := SYNC_REP_NOT_WAITING\<rparr>"
  let ?h = "SHMQueueElemInit (syncRepLinks p) (links (ctl t))"
  note c = sync_inv_ctl[OF inv]
  have p: "p \<notin> set xs" using sync_inv_pc[OF inv, of p] pc by simp
  have q: "queues (links (ctl t)) xs" by (rule ctl_inv_queues[OF c])
  have h: "?h a = links (ctl t) a" if "a \<noteq> syncRepLinks p" for a using that by (simp add: SHMQueueElemInit_def set_links_other)
  have "queues ?h xs" unfolding queues_def
  proof (intro conjI allI impI)
    show "ring ?h (SyncRepQueue SYNC_REP_WAIT_FLUSH) (map syncRepLinks xs)" "ring ?h (SyncRepQueue SYNC_REP_WAIT_WRITE) []"
      using q p by (auto simp: queues_def intro!: ring_frame[where h' = ?h] h)
    show "SHMQueueIsDetached (syncRepLinks r) ?h" if "r \<notin> set xs" for r
      using that q by (cases "r = p") (simp_all add: queues_def SHMQueueIsDetached_def SHMQueueElemInit_def)
  qed
  then have "ctl_inv master evs (ctl t\<lparr>links := ?h\<rparr>) xs"
    using c by (simp add: ctl_inv_def acked_def wait_lsn_def[abs_def])
  then have "ctl_inv master evs (upd_proc p ?f (ctl t\<lparr>links := ?h\<rparr>)) xs" by (rule ctl_inv_proc[OF _ p]) simp
  moreover have "InitProcess_syncrep p (ctl t) = upd_proc p ?f (ctl t\<lparr>links := ?h\<rparr>)" by (simp add: InitProcess_syncrep_def upd_proc_def)
  ultimately show ?thesis using p by (intro sync_inv_goto[OF inv]) auto
qed

lemma slot_inv:
  assumes inv: "sync_inv master evs t xs" and q: "q \<noteq> 0"
  shows "sync_inv master evs (case InitWalSenderSlot q (ctl t) of None \<Rightarrow> t | Some (i, s) \<Rightarrow> t\<lparr>ctl := s\<rparr>) xs"
proof (cases "for_return 0 (length (senders (ctl t))) (\<lambda>i. if pid (senders (ctl t) ! i) \<noteq> 0 then None else Some i)")
  case None
  then show ?thesis using inv by (simp add: InitWalSenderSlot_def)
next
  case (Some i)
  then have i: "i < length (senders (ctl t))" by (auto simp: for_return_Some_iff split: if_splits)
  then show ?thesis using Some q sync_inv_flush[OF inv i]
    by (simp add: InitWalSenderSlot_def) (intro sync_inv_sender[OF inv i]; simp)
qed

lemma state_inv:
  assumes inv: "sync_inv master evs t xs" and i: "sender_lives i t"
  shows "sync_inv master evs (t\<lparr>ctl := WalSndSetState i st (ctl t)\<rparr>) xs"
proof -
  have len: "i < length (senders (ctl t))" and pid: "pid (senders (ctl t) ! i) \<noteq> 0" using i by (simp_all add: sender_lives_def)
  let ?s = "upd_sender i (snd_state_update (\<lambda>_. st)) (ctl t)"
  have one: "sync_inv master evs (t\<lparr>ctl := ?s\<rparr>) xs"
    by (rule sync_inv_sender[OF inv len]) (use pid sync_inv_flush[OF inv len] in simp_all)
  have "sync_inv master evs (t\<lparr>ctl := ?s\<rparr>\<lparr>ctl := upd_sender i (replica_disconnected_at_update (\<lambda>_. 0)) (ctl (t\<lparr>ctl := ?s\<rparr>))\<rparr>) xs"
    by (rule sync_inv_sender[OF one]) (use len pid sync_inv_flush[OF inv len] in \<open>simp_all add: upd_sender_def\<close>)
  then show ?thesis using one inv by (simp add: WalSndSetState_def Let_def)
qed

lemma exit_check_inv:
  assumes inv: "sync_inv master evs t xs"
  shows "sync_inv master evs (exit_check p t) xs"
  using queues_detached[OF ctl_inv_queues[OF sync_inv_ctl[OF inv]], of p] sync_inv_ctl[OF inv] unfolding exit_check_def
  by (intro sync_inv_goto[OF inv]) auto

lemma backend_inv:
  assumes inv: "sync_inv master evs t xs"
  shows "pc t p = AtTop \<Longrightarrow> sync_inv master evs (wait_reset_latch p t) xs"
    and "pc t p = AtTest \<Longrightarrow> sync_inv master evs (wait_test p t) xs"
    and "pc t p = AtSignals \<Longrightarrow> sync_inv master evs (wait_signals die alive p t) xs"
    and "pc t p = AtLatch \<Longrightarrow> sync_inv master evs (goto p AtTop (ctl t) t) xs"
    and "pc t p = AtEnd \<Longrightarrow> sync_inv master evs (goto p Outside (SyncRepWaitForLSN_leave p (ctl t)) t) xs"
    and "sync_inv master evs (t\<lparr>ctl := upd_proc p (procLatch_update (\<lambda>_. True)) (ctl t)\<rparr>) xs"
proof -
  note c = sync_inv_ctl[OF inv] and ok = sync_inv_pc[OF inv, of p]
  have q: "syncRepState (procs (ctl t) p) = SYNC_REP_WAITING" if "p \<in> set xs" using c that by (simp add: ctl_inv_def)
  show "sync_inv master evs (wait_reset_latch p t) xs" if "pc t p = AtTop" unfolding wait_reset_latch_def
    by (rule sync_inv_goto[OF inv ctl_inv_latch[OF c]]) (use ok that in simp_all)
  show "sync_inv master evs (wait_test p t) xs" if "pc t p = AtTest" unfolding wait_test_def
    by (rule sync_inv_goto[OF inv c]) (use ok q that in auto)
  show "sync_inv master evs (wait_signals die alive p t) xs" if "pc t p = AtSignals" unfolding wait_signals_def
    by (rule sync_inv_goto[OF inv c]) (use ok that in auto)
  show "sync_inv master evs (goto p AtTop (ctl t) t) xs" if "pc t p = AtLatch"
    by (rule sync_inv_goto[OF inv c]) (use ok that in auto)
  show "sync_inv master evs (goto p Outside (SyncRepWaitForLSN_leave p (ctl t)) t) xs" if "pc t p = AtEnd"
    unfolding SyncRepWaitForLSN_leave_def by (rule sync_inv_goto[OF inv ctl_inv_proc[OF c]]) (use ok that in auto)
  have "pc_ok l (proc\<lparr>procLatch := True\<rparr>) b" if "pc_ok l proc b" for l proc b using that by (cases l) auto
  then show "sync_inv master evs (t\<lparr>ctl := upd_proc p (procLatch_update (\<lambda>_. True)) (ctl t)\<rparr>) xs"
    using inv ctl_inv_latch[OF c, of p] by (simp add: sync_inv_def)
qed

lemma clean_up_inv:
  assumes inv: "sync_inv master evs t xs"
  shows "sync_inv master evs (t\<lparr>ctl := snd (WalSndCtlGetXLogCleanUpTo (ctl t))\<rparr>) xs"
proof -
  have "sync_inv master evs (t\<lparr>ctl := (ctl t)\<lparr>walsnd_xlogCleanUpTo := l\<rparr>\<rparr>) xs" for l
    using inv by (simp add: sync_inv_def ctl_inv_def acked_def wait_lsn_def[abs_def])
  moreover have "snd (WalSndCtlGetXLogCleanUpTo (ctl t)) = ctl t \<or> (\<exists>l. snd (WalSndCtlGetXLogCleanUpTo (ctl t)) = (ctl t)\<lparr>walsnd_xlogCleanUpTo := l\<rparr>)"
    unfolding WalSndCtlGetXLogCleanUpTo_def Let_def by (auto split: prod.splits if_splits)
  ultimately show ?thesis using inv by auto
qed

lemma step_inv:
  assumes inv: "sync_inv master evs t xs" and en: "enabled e t" and crash: "\<And>p. e = ExitDelete p \<Longrightarrow> p \<in> set xs"
  shows "\<exists>u ys. sync_step master e t = Some u \<and> sync_inv master (evs @ [e]) u ys"
proof -
  note inv' = sync_inv_mono[OF inv, of "[e]"]
  show ?thesis
  proof (cases e)
    case (ProcStart p)
    then show ?thesis using start_inv[OF inv'] en by auto
  next
    case (Enter p a b l)
    then show ?thesis using enter_inv[OF inv'] en by auto
  next
    case (CancelWait p)
    then show ?thesis using cancel_inv[OF inv'] en by auto
  next
    case (ExitCheck p)
    then show ?thesis using exit_check_inv[OF inv'] by auto
  next
    case (ExitDelete p)
    then show ?thesis using exit_delete_inv[OF inv', of p] crash[of p] by auto
  next
    case (SenderStart q)
    then show ?thesis using slot_inv[OF inv', of q] en by auto
  next
    case (SenderState i st)
    then show ?thesis using state_inv[OF inv', of i st] en by auto
  next
    case (SenderSync i b)
    then show ?thesis using sender_inv[OF inv', of i "synchronous_update (\<lambda>_. b)"] en by (auto simp: WalSndSetSync_def)
  next
    case (SenderCaughtUp i b)
    then show ?thesis using sender_inv[OF inv', of i "caughtup_within_range_update (\<lambda>_. b)"] en
      by (auto simp: WalSndSetCaughtupWithinRange_def)
  next
    case (SenderConfig i)
    then show ?thesis using inv' sender_inv[OF inv', of i "sync_standby_priority_update (\<lambda>_. SyncRepGetStandbyPriority)"] en
      by (auto simp: SyncRepInitConfig_def Let_def)
  next
    case (SetCleanUpTo i l)
    then show ?thesis using sender_inv[OF inv', of i "xlogCleanUpTo_update (\<lambda>_. l)"] en by (auto simp: WalSndSetXLogCleanUpTo_def)
  next
    case GetCleanUpTo
    then show ?thesis using clean_up_inv[OF inv'] by auto
  next
    case (Reply i w f a)
    then have "reported (evs @ [e]) f" by (auto simp: reported_def)
    then show ?thesis using Reply sync_inv_sender[OF inv', of i "\<lambda>walsnd. walsnd\<lparr>write_ptr := w, flush_ptr := f, apply_ptr := a\<rparr>"] en
      by (auto simp: ProcessStandbyReplyMessage_store_def sender_lives_def)
  next
    case (Release i)
    then show ?thesis using release_inv[OF inv', of i] en by simp
  next
    case (SenderKill i time)
    then show ?thesis using kill_inv[OF inv', of i time] en by (simp add: wakes_all_def)
  next
    case (UpdateStandbys names)
    then show ?thesis using update_inv[OF inv', of names] by (simp add: wakes_all_def)
  qed (use backend_inv(1-2,6)[OF inv'] backend_inv(3)[OF inv'] backend_inv(4,5)[OF inv'] en in \<open>simp, blast\<close>)+
qed


lemma init_inv: "sync_inv master [] (sync_init n time) []"
proof -
  let ?h = "links (ctl (sync_init n time))"
  have h: "?h = SHMQueueInit (SyncRepQueue SYNC_REP_WAIT_FLUSH) (SHMQueueInit (SyncRepQueue SYNC_REP_WAIT_WRITE) (\<lambda>_. \<lparr>q_prev = None, q_next = None\<rparr>))"
    by (simp add: sync_init_def WalSndShmemInit_def)
  have "ring ?h (SyncRepQueue SYNC_REP_WAIT_WRITE) []"
    by (rule ring_frame[OF ring_init]) (simp add: h SHMQueueInit_def set_links_other)
  moreover have "ring ?h (SyncRepQueue SYNC_REP_WAIT_FLUSH) []" unfolding h by (rule ring_init)
  moreover have "SHMQueueIsDetached (syncRepLinks p) ?h" for p by (simp add: h SHMQueueIsDetached_def SHMQueueInit_def set_links_other)
  ultimately have "queues ?h []" by (simp add: queues_def)
  then show ?thesis by (auto simp: sync_inv_def ctl_inv_def sync_init_def WalSndShmemInit_def reported_def)
qed

lemma run_inv: "sync_run master (sync_init n time) evs t \<Longrightarrow> \<exists>xs. sync_inv master evs t xs"
proof (induction rule: sync_run.induct)
  case sync_run_init
  then show ?case using init_inv by blast
next
  case (sync_run_step evs t e u)
  then obtain xs where xs: "sync_inv master evs t xs" by blast
  have "p \<in> set xs" if "e = ExitDelete p" for p using exit_delete_detached[OF xs, of p] sync_run_step.hyps(3) that by auto
  then show ?case using step_inv[OF xs sync_run_step.hyps(2)] sync_run_step.hyps(3) by auto
qed

text \<open>Running a list of events.\<close>

fun sync_exec :: "bool \<Rightarrow> sync_event list \<Rightarrow> sync_sys \<Rightarrow> sync_sys option" where
  "sync_exec master [] t = Some t"
| "sync_exec master (e # es) t = (if enabled e t then Option.bind (sync_step master e t) (sync_exec master es) else None)"

lemma exec_run: "sync_run master s0 evs t \<Longrightarrow> sync_exec master es t = Some u \<Longrightarrow> sync_run master s0 (evs @ es) u"
proof (induction es arbitrary: evs t)
  case (Cons e es)
  then obtain t' where "enabled e t" "sync_step master e t = Some t'" "sync_exec master es t' = Some u"
    by (auto simp: Option.bind_eq_Some_conv split: if_splits)
  then show ?case using Cons.IH[OF sync_run_step[OF Cons.prems(1)]] by simp
qed simp

lemmas exec_from_init = exec_run[OF sync_run_init, simplified]

definition lsn1 :: XLogRecPtr where "lsn1 = \<lparr>xlogid = 0, xrecoff = 1\<rparr>"

definition race_events :: "sync_event list" where
  "race_events = [UpdateStandbys (Some ''*''), ProcStart 0, Enter 0 False False lsn1, ExitCheck 0, UpdateStandbys None]"

lemma race_runs: "case sync_exec False race_events (sync_init 1 0) of None \<Rightarrow> False
   | Some t \<Rightarrow> enabled (ExitDelete 0) t \<and> Option.is_none (sync_step False (ExitDelete 0) t)"
  by code_simp


subsection \<open>Properties\<close>



lemma set_takeWhile_sorted: "sorted (map f xs) \<Longrightarrow> set (takeWhile (\<lambda>p. f p \<le> n) xs) = {p \<in> set xs. f p \<le> (n :: nat)}"
  by (induction xs) auto





text \<open>
  C14: The wait queue.  In every run the waiting processes form a ring ordered by their locations, all beyond the
  released location; they are waiting, and a backend in the loop that is not among them has its wait complete.
  On a segment nobody waits while synchronous replication is off, and on the master nobody waits without a
  sender.
\<close>

theorem syncrep_queue_invariant:
  assumes "sync_run master (sync_init n time) evs t"
  shows "\<exists>xs. ring (links (ctl t)) (SyncRepQueue SYNC_REP_WAIT_FLUSH) (map syncRepLinks xs) \<and>
    ring (links (ctl t)) (SyncRepQueue SYNC_REP_WAIT_WRITE) [] \<and>
    (\<forall>p. p \<in> set xs \<longleftrightarrow> \<not> SHMQueueIsDetached (syncRepLinks p) (links (ctl t))) \<and>
    sorted_wrt (\<lambda>p r. XLByteLE (waitLSN (procs (ctl t) p)) (waitLSN (procs (ctl t) r))) xs \<and>
    (\<forall>p\<in>set xs. XLByteLT (lsn (ctl t) SYNC_REP_WAIT_FLUSH) (waitLSN (procs (ctl t) p)) \<and> syncRepState (procs (ctl t) p) = SYNC_REP_WAITING) \<and>
    (\<forall>p. pc t p \<in> {AtTop, AtTest, AtSignals, AtCancel, AtLatch} \<longrightarrow>
       p \<in> set xs \<or> syncRepState (procs (ctl t) p) = SYNC_REP_WAIT_COMPLETE) \<and>
    (xs \<noteq> [] \<longrightarrow> (if master then \<exists>w\<in>set (senders (ctl t)). pid w \<noteq> 0 else standbys_defined (ctl t)))"
proof -
  obtain xs where inv: "sync_inv master evs t xs" using run_inv[OF assms] by blast
  note c = sync_inv_ctl[OF inv]
  have "p \<in> set xs \<or> syncRepState (procs (ctl t) p) = SYNC_REP_WAIT_COMPLETE"
    if "pc t p \<in> {AtTop, AtTest, AtSignals, AtCancel, AtLatch}" for p using sync_inv_pc[OF inv, of p] that by auto
  moreover have "sorted_wrt (\<lambda>p r. XLByteLE (waitLSN (procs (ctl t) p)) (waitLSN (procs (ctl t) r))) xs"
    using c by (simp add: ctl_inv_def wait_lsn_def[abs_def] sorted_map)
  ultimately show ?thesis using c queues_detached[OF ctl_inv_queues[OF c]]
    by (intro exI[of _ xs]) (auto simp: ctl_inv_def queues_def wait_lsn_def)
qed

definition asleep_events :: "sync_event list" where
  "asleep_events = [UpdateStandbys (Some ''*''), SenderStart 7, SenderConfig 0, SenderState 0 WALSNDSTATE_STREAMING, ProcStart 0,
     Enter 0 False False lsn1, ResetLatch 0, TestState 0, Signals 0 False True, Reply 0 lsn1 lsn1 lsn1]"

lemma asleep_runs: "case sync_exec False asleep_events (sync_init 1 0) of None \<Rightarrow> False
   | Some t \<Rightarrow> pc t 0 = AtLatch \<and> \<not> procLatch (procs (ctl t) 0) \<and> syncWalSnd (ctl t) = Some 0 \<and>
       sync_standby_priority (senders (ctl t) ! 0) \<noteq> 0 \<and> snd_state (senders (ctl t) ! 0) = WALSNDSTATE_STREAMING \<and>
       flush_ptr (senders (ctl t) ! 0) = lsn1 \<and> enabled (Release 0) t \<and> waitLSN (procs (ctl t) 0) = lsn1 \<and>
       \<not> SHMQueueIsDetached (syncRepLinks 0) (links (ctl t))"
  by code_simp

lemma asleep_run:
  "\<exists>t. sync_run False (sync_init 1 0) asleep_events t \<and> pc t 0 = AtLatch \<and> \<not> procLatch (procs (ctl t) 0) \<and> may_release (ctl t) 0 \<and>
     enabled (Release 0) t \<and> waitLSN (procs (ctl t) 0) = lsn1 \<and> flush_ptr (senders (ctl t) ! 0) = lsn1 \<and>
     \<not> SHMQueueIsDetached (syncRepLinks 0) (links (ctl t))"
proof -
  have "\<not> XLogRecPtrIsInvalid lsn1" by code_simp
  then show ?thesis using asleep_runs exec_from_init[of False asleep_events "sync_init 1 0"]
    by (auto simp: may_release_def split: option.splits)
qed

theorem syncrep_queue_invariant_witness:
  "\<exists>t xs. sync_run False (sync_init 1 0) asleep_events t \<and> 0 \<in> set xs \<and>
     ring (links (ctl t)) (SyncRepQueue SYNC_REP_WAIT_FLUSH) (map syncRepLinks xs)"
proof -
  obtain t where t: "sync_run False (sync_init 1 0) asleep_events t" "\<not> SHMQueueIsDetached (syncRepLinks 0) (links (ctl t))"
    using asleep_run by blast
  then show ?thesis using syncrep_queue_invariant[OF t(1)] by blast
qed

text \<open>
  C15: No wake-up is lost.  A backend of a segment that is about to sleep on its latch, or sleeps, either has its
  latch set or is still waiting in the queue with synchronous replication on; turning synchronous
  replication off then completes its wait and sets its latch, so that the sleep ends.
\<close>

theorem syncrep_no_lost_wakeup:
  assumes "sync_run False (sync_init n time) evs t" "pc t p = AtLatch"
  shows "(procLatch (procs (ctl t) p) \<or> standbys_defined (ctl t) \<and> syncRepState (procs (ctl t) p) = SYNC_REP_WAITING) \<and>
    (\<exists>u. sync_step False (UpdateStandbys None) t = Some u \<and> syncRepState (procs (ctl u) p) = SYNC_REP_WAIT_COMPLETE \<and>
       enabled (WaitLatch p False) u)"
proof -
  obtain xs where inv: "sync_inv False evs t xs" using run_inv[OF assms(1)] by blast
  note c = sync_inv_ctl[OF inv]
  have q: "p \<in> set xs \<or> syncRepState (procs (ctl t) p) = SYNC_REP_WAIT_COMPLETE \<and> procLatch (procs (ctl t) p)"
    using sync_inv_pc[OF inv, of p] assms(2) by simp
  obtain h where h: "wake_both (ctl t) = Some (ctl t\<lparr>links := h, procs := woken xs (procs (ctl t))\<rparr>)"
    using wake_both_spec[OF ctl_inv_queues[OF c]] by blast
  have "xs = []" if "\<not> standbys_defined (ctl t)" using c that by (simp add: ctl_inv_def)
  moreover have "syncRepState (procs (ctl t) p) = SYNC_REP_WAITING" if "p \<in> set xs" using c that by (simp add: ctl_inv_def)
  ultimately show ?thesis using q h assms(2)
    by (cases "standbys_defined (ctl t)") (auto simp: ctl_step_def SyncRepUpdateSyncStandbysDefined_def SyncStandbysDefined_def woken_def)
qed

theorem syncrep_no_lost_wakeup_witness:
  "\<exists>t u. sync_run False (sync_init 1 0) asleep_events t \<and> \<not> procLatch (procs (ctl t) 0) \<and>
     sync_step False (UpdateStandbys None) t = Some u \<and> enabled (WaitLatch 0 False) u"
proof -
  obtain t where t: "sync_run False (sync_init 1 0) asleep_events t" "pc t 0 = AtLatch" "\<not> procLatch (procs (ctl t) 0)"
    using asleep_run by blast
  then show ?thesis using syncrep_no_lost_wakeup[OF t(1,2)] by blast
qed

text \<open>
  C16: Release.  When the sender of the synchronous standby releases waiters, exactly the queued processes whose
  location is flushed by the standby have their wait completed, their latch set and their links detached;
  no other process changes.
\<close>

theorem syncrep_release:
  assumes "sync_run master (sync_init n time) evs t" "enabled (Release i) t" "may_release (ctl t) i"
  shows "\<exists>u. sync_step master (Release i) t = Some u \<and> pc u = pc t \<and>
    (\<forall>p. procs (ctl u) p =
       (if \<not> SHMQueueIsDetached (syncRepLinks p) (links (ctl t)) \<and> XLByteLE (waitLSN (procs (ctl t) p)) (flush_ptr (senders (ctl t) ! i))
        then (procs (ctl t) p)\<lparr>syncRepState := SYNC_REP_WAIT_COMPLETE, procLatch := True\<rparr> else procs (ctl t) p) \<and>
       (SHMQueueIsDetached (syncRepLinks p) (links (ctl u)) \<longleftrightarrow> SHMQueueIsDetached (syncRepLinks p) (links (ctl t)) \<or>
          XLByteLE (waitLSN (procs (ctl t) p)) (flush_ptr (senders (ctl t) ! i))))"
proof -
  let ?s = "ctl t" and ?f = "flush_ptr (senders (ctl t) ! i)" and ?l = "released_lsn (ctl t) i"
  obtain xs where c: "ctl_inv master evs ?s xs" using run_inv[OF assms(1)] sync_inv_ctl by blast
  note q = ctl_inv_queues[OF c]
  define ws where "ws = takeWhile (\<lambda>p. wait_lsn ?s p \<le> lsn_pos ?l) xs"
  obtain h l where rel: "SyncRepReleaseWaiters i ?s = Some (?s\<lparr>links := h, procs := woken ws (procs ?s), lsn := l\<rparr>)"
    "queues h (drop (length ws) xs)"
    using release_spec[of ?s xs i] c unfolding ctl_inv_def ws_def wait_lsn_def by blast
  have "set ws = {p \<in> set xs. wait_lsn ?s p \<le> lsn_pos ?l}" unfolding ws_def using c by (intro set_takeWhile_sorted) (simp add: ctl_inv_def)
  moreover have "wait_lsn ?s p \<le> lsn_pos ?l \<longleftrightarrow> wait_lsn ?s p \<le> lsn_pos ?f" if "p \<in> set xs" for p
    using c that assms(3) by (auto simp: released_lsn_def ctl_inv_def)
  ultimately have ws: "set ws = {p \<in> set xs. wait_lsn ?s p \<le> lsn_pos ?f}" by blast
  have xs: "xs = ws @ drop (length ws) xs" unfolding ws_def by (metis append_take_drop_id takeWhile_eq_take)
  have "set (drop (length ws) xs) = set xs - set ws"
    using queues_distinct[OF q] xs by (metis Diff_cancel Un_Diff Diff_triv distinct_append inf_commute set_append sup_bot.left_neutral)
  then show ?thesis using rel queues_detached[OF q] queues_detached[OF rel(2)] ws
    by (intro exI[of _ "t\<lparr>ctl := ?s\<lparr>links := h, procs := woken ws (procs ?s), lsn := l\<rparr>\<rparr>"])
      (auto simp: ctl_step_def woken_def wait_lsn_def)
qed

theorem syncrep_release_witness:
  "\<exists>t u. sync_run False (sync_init 1 0) asleep_events t \<and> sync_step False (Release 0) t = Some u \<and>
     syncRepState (procs (ctl u) 0) = SYNC_REP_WAIT_COMPLETE \<and> SHMQueueIsDetached (syncRepLinks 0) (links (ctl u))"
proof -
  obtain t where t: "sync_run False (sync_init 1 0) asleep_events t" "enabled (Release 0) t" "may_release (ctl t) 0"
    "waitLSN (procs (ctl t) 0) = lsn1" "flush_ptr (senders (ctl t) ! 0) = lsn1" "\<not> SHMQueueIsDetached (syncRepLinks 0) (links (ctl t))"
    using asleep_run by blast
  then show ?thesis using syncrep_release[OF t(1-3)] by auto
qed

text \<open>
  C17: Which steps fail.  In every run, the only step that follows a null pointer is the deletion at the end of a
  process whose wait was completed between the test of its links, which is made without the lock, and the
  deletion.  Such a run exists.
\<close>

theorem syncrep_step_fails_iff:
  assumes "sync_run master (sync_init n time) evs t" "enabled e t"
  shows "sync_step master e t = None \<longleftrightarrow> (\<exists>p. e = ExitDelete p \<and> SHMQueueIsDetached (syncRepLinks p) (links (ctl t)))"
proof -
  obtain xs where inv: "sync_inv master evs t xs" using run_inv[OF assms(1)] by blast
  note d = queues_detached[OF ctl_inv_queues[OF sync_inv_ctl[OF inv]]]
  show ?thesis
  proof
    assume "sync_step master e t = None"
    then obtain p where "e = ExitDelete p" "p \<notin> set xs" using step_inv[OF inv assms(2)] by auto
    then show "\<exists>p. e = ExitDelete p \<and> SHMQueueIsDetached (syncRepLinks p) (links (ctl t))" using d by blast
  next
    assume "\<exists>p. e = ExitDelete p \<and> SHMQueueIsDetached (syncRepLinks p) (links (ctl t))"
    then show "sync_step master e t = None" using d exit_delete_detached[OF inv] by auto
  qed
qed

theorem syncrep_step_fails_iff_witness:
  "\<exists>t. sync_run False (sync_init 1 0) race_events t \<and> enabled (ExitDelete 0) t \<and> sync_step False (ExitDelete 0) t = None \<and>
     SHMQueueIsDetached (syncRepLinks 0) (links (ctl t))"
proof -
  obtain t where t: "sync_exec False race_events (sync_init 1 0) = Some t" "enabled (ExitDelete 0) t" "sync_step False (ExitDelete 0) t = None"
    using race_runs by (auto simp: Option.is_none_def split: option.splits)
  have run: "sync_run False (sync_init 1 0) race_events t" by (rule exec_from_init[OF t(1)])
  then show ?thesis using syncrep_step_fails_iff[OF run t(2)] t(2,3) by auto
qed

end
