(* ===== verification/Spec2Isabelle.thy ===== *)
theory Spec2Isabelle
  imports Bitmapsets Gdd_Backend Cdb_Placement Binary_Encoding Fts_Service Sync_Rep_Runs
begin

text \<open>
  Greenplum is a cluster of PostgreSQL servers: a master plans queries and dispatches them to segments, each of
  which holds a share of the rows and has a primary and, usually, a mirror.  This library models the parts of
  the server that keep such a cluster correct, and the routines below them:

  \<^item> the \<^emph>\<open>global deadlock detector\<close> on the master, which collects who waits for whom from all segments and
    cancels transactions when the waits of several segments close a cycle;
  \<^item> the \<^emph>\<open>fault tolerance service\<close> (FTS) on the master, which probes the primaries, marks mirrors up and
    down and promotes the mirror of a primary that does not answer; the message handler in a segment, which
    answers the probes; and the dispatcher's view of the published status;
  \<^item> \<^emph>\<open>synchronous replication\<close> in a segment, where a commit waits for its mirror; the message handler turns it
    on and off on behalf of the service;
  \<^item> the \<^emph>\<open>distribution hash\<close>, which decides the segment of a row, at each place that decides it;
  \<^item> the \<^emph>\<open>protocol layer\<close> below the service: string buffers, messages, and the client library's parser;
  \<^item> \<^emph>\<open>bitmap sets\<close>, the \<^emph>\<open>general hash functions\<close> and the \<^emph>\<open>text encodings\<close> of binary data.

  File names are relative to the directory \<^verbatim>\<open>src/src\<close>.  The names of the source are kept; a helper that
  stands for a loop or a branch of a function has the name of the function as a prefix or says so in its
  theory.


  \<^bold>\<open>Theories and sources\<close>

  \<^item> \<open>GP_Prelude\<close>: C loops (\<open>for_range\<close>, \<open>for_return\<close>, \<open>for_result\<close>), results with errors (\<open>result_bind\<close>),
    machine integers and their bytes, and the generic lemmas and collections of facts on them.
  \<^item> \<open>Hash_Functions\<close>: \<^verbatim>\<open>backend/access/hash/hashfunc.c\<close> and \<^verbatim>\<open>backend/utils/hash/hashfn.c\<close>.
  \<^item> \<open>Bitmapsets\<close>: \<^verbatim>\<open>backend/nodes/bitmapset.c\<close>.  A pointer to a set is an optional array of 32-bit words;
    \<open>bms_set\<close> is the set of numbers it stands for.
  \<^item> \<open>Gdd_Detector\<close>: \<^verbatim>\<open>backend/utils/gdd/gdddetector.c\<close>.  The structures that the code links by pointers are a
    store of counters, vertices, edges and graphs (record \<open>GddCtx\<close>).  \<open>Gdd_Invariant\<close> holds the invariant of
    the store and \<open>Gdd_Correctness\<close> the specification over lists of waits and the refinement.
  \<^item> \<open>Gdd_Backend\<close>: \<^verbatim>\<open>backend/utils/gdd/gddfuncs.c\<close> and \<^verbatim>\<open>gddbackend.c\<close>, with the scans of the process array
    in \<^verbatim>\<open>backend/storage/ipc/procarray.c\<close>: the rows of \<^verbatim>\<open>pg_dist_wait_status\<close> and one detection round.
  \<^item> \<open>Cdb_Hash\<close>: \<^verbatim>\<open>backend/cdb/cdbhash.c\<close>, with \<^verbatim>\<open>getBaseType\<close>, \<^verbatim>\<open>get_typtype\<close> and the comparisons of
    intervals and blank padded strings.  \<open>Cdb_Placement\<close>: \<^verbatim>\<open>evalHashKey\<close> of \<^verbatim>\<open>executor/nodeMotion.c\<close>,
    \<^verbatim>\<open>GetTargetSeg\<close> of \<^verbatim>\<open>commands/copy.c\<close> and the direct dispatch of \<^verbatim>\<open>cdb/cdbmutate.c\<close>.
  \<^item> \<open>String_Info\<close>: \<^verbatim>\<open>backend/lib/stringinfo.c\<close>; every store is checked against the allocated bytes.
    \<open>Pq_Format\<close>: \<^verbatim>\<open>backend/libpq/pqformat.c\<close>.  \<open>Pq_Client\<close>: \<^verbatim>\<open>interfaces/libpq/fe-misc.c\<close>,
    \<^verbatim>\<open>fe-protocol3.c\<close> and \<^verbatim>\<open>fe-exec.c\<close>, as far as they read the answer to a query.
  \<^item> \<open>Fts_Probe\<close>: \<^verbatim>\<open>backend/fts/ftsprobe.c\<close>, with \<^verbatim>\<open>probeWalRepUpdateConfig\<close> of \<^verbatim>\<open>backend/fts/fts.c\<close>.  The
    state is the array of segments under probe (record \<open>fts_segment_info\<close>, state machine \<open>FtsMessageState\<close>) and
    the record \<open>fts_global\<close> of the catalog, its history and the shared status array.  \<open>Fts_Segment\<close>,
    \<open>Fts_Cycle\<close>, \<open>Fts_Progress\<close> and \<open>Fts_Catalog\<close> show what one segment does in a pass of the loop, what a
    cycle does to a pair, that a cycle ends, and what it may write.
  \<^item> \<open>Fts_Handler\<close>: \<^verbatim>\<open>backend/fts/ftsmessagehandler.c\<close> and \<^verbatim>\<open>backend/replication/gp_replication.c\<close>.
    \<open>Cdb_Components\<close>: \<^verbatim>\<open>getCdbComponentInfo\<close> of \<^verbatim>\<open>backend/cdb/cdbutil.c\<close>.  \<open>Fts_Service\<close>: the body of
    \<^verbatim>\<open>FtsLoop\<close> in \<^verbatim>\<open>backend/fts/fts.c\<close> and the dispatcher's tests in \<^verbatim>\<open>backend/cdb/cdbfts.c\<close>; it composes
    the two and the probe cycle.
  \<^item> \<open>Shm_Queue\<close>: \<^verbatim>\<open>backend/storage/ipc/shmqueue.c\<close>, on a memory of links.  \<open>Sync_Rep\<close>:
    \<^verbatim>\<open>backend/replication/syncrep.c\<close> and the slots of the senders in \<^verbatim>\<open>walsender.c\<close> (record \<open>WalSndCtlData\<close>).
    \<open>Sync_Rep_Runs\<close>: the wait loop of a backend as a state machine (\<open>backend_pc\<close>), and runs in which
    backends, senders and the checkpointer take steps in any order (\<open>sync_run\<close>); a step is a section under a lock.
  \<^item> \<open>Binary_Encoding\<close>: \<^verbatim>\<open>backend/utils/adt/encode.c\<close>.


  \<^bold>\<open>What the lemmas show\<close>

  \<^item> Deadlock detector (C1 to C8): the reduction leaves exactly the greatest set of waits that the rules of
    the algorithm cannot reduce, so a deadlock is found iff there is one; breaking ends, removes every
    deadlock, and a round cancels only transactions in surviving waits.  With transaction ids of
    \<open>2 ^ 31\<close> and above, which the code stores in a signed integer, a round does not end.
  \<^item> Fault tolerance (C9 to C12, C25 to C28): a mirror takes over only when it was up and in sync, no content
    is left without a primary or with two, the published status is the catalog's, and the flags of an answer
    arrive as the segment sent them.  What the prober assumes of an answer (\<open>truthful\<close>) is what \<open>Fts_Handler\<close>
    proves of the answers of a segment (C26).  The version of the status is an 8-bit counter that wraps to
    its initial value, and then every segment is reported as up (C10).
  \<^item> Synchronous replication (C13 to C17) over queues that implement lists (C29): in every run a wait is
    complete only when the standby has flushed the location or all waiters were released, the queue stays
    ordered, no wake-up is lost, a release wakes exactly the waiters it should, and the only step that can
    follow a null pointer is the clean-up of a process that ends while it is being released.
  \<^item> Distribution (C18 to C24): all places choose the same segment, which is in range; equal integers and
    strings with different trailing blanks hash alike; equal intervals need not.
  \<^item> Protocol (C30 to C34): the parser returns on any input, reads stay inside a message, values are read
    as written, and appends succeed or fail by size.
  \<^item> Encodings (C35, C36) and bitmap sets (C37 to C40): round trips, sufficient length estimates, and
    refinement of the operations on sets.

  Interfaces are locales, interpreted on the definitions of the model: \<open>number_set\<close> (bitmap sets),
  \<open>text_encoding\<close> (the three encodings), \<open>linked_queue\<close> (queues in shared memory),
  \<open>byte_buffer\<close> (string buffers), and \<open>input\<close> with its extension
  \<open>wire_format\<close> (the readers of the server and of the client library).


  \<^bold>\<open>Loops, bounds and the environment\<close>

  Only the documented member loop of bitmap sets (\<open>members_loop\<close>) has fuel; one more than the number of
  members is enough (C40).  Any other loop that might not end is a \<^theory_text>\<open>partial_function\<close> with the result \<open>None\<close> for not
  returning, and that it returns is proved apart: \<open>GddCtxReduce\<close> and the breaking loop (C1, C2; C7 shows the
  case where it does not), \<open>pqParseInput3\<close> (C30), \<open>appendStringInfo\<close> and its enlarging loop (C33, C34), the
  scans of the wait queue (C17: no step but one fails), the probe loop \<open>fts_loop\<close> (C10, under
  \<open>well_behaved\<close>: a clock that advances, and a connection library that
  behaves as documented).  \<open>getBaseType\<close> follows the chain of domains of the catalog, which is a parameter.

  Machine integers are words where the code relies on their width (hashes, 32-bit length estimates, status
  bytes, versions) and integers elsewhere.  Timestamps, files, the lock table, the rows of catalog scans, the
  results of libpq and of \<^verbatim>\<open>poll\<close>, the sort of \<^verbatim>\<open>qsort\<close> and the conversion of encodings are arguments; what
  is assumed of them is a named hypothesis with a witness that satisfies it.  Memory allocation succeeds up to
  the limit of \<^verbatim>\<open>MaxAllocSize\<close>, and assertions, which production builds leave out, are not modelled.


  \<^bold>\<open>Not modelled\<close>

  \<^item> Of the parts above: start-up, signals and sleeping of the detector and of the service, and the
    allocation of their shared memory (process management); the dispatch of the detector's query; detoasting;
    the evaluation of key expressions; opening of connections and the socket in the client library; the float,
    text and varlena hash support functions; \<^verbatim>\<open>replaceStringInfoString\<close>, which reads freed memory.
  \<^item> The parser, rewriter, planners (with the optimiser ORCA) and executor: their state is the whole of the
    plan and expression trees, and the catalog.  Of them only the choice of a segment is modelled.
  \<^item> Heap, index and append-only storage, buffers, write-ahead log, recovery, the streaming of the log and the
    lock manager: they are defined by shared memory, latches and files, for which there is no model here; the
    detector and the handler read them through arguments.
  \<^item> Distributed transactions, the dispatcher and the interconnect: concurrent processes and sockets.
  \<^item> The SQL types and functions other than those above, utility commands, procedural languages, extensions,
    the client programs, the management scripts in Python and the build.
\<close>

end
